(* ===== verification/Prelude.thy ===== *)
theory Prelude
  imports Main "HOL-Library.Word" "HOL-Library.Monad_Syntax"
begin

text \<open>
  Shared vocabulary of the development: the C types the sources use, the
  model of caller-owned buffers, decimal numerals, and the list and byte
  lemmas the component theories rest on.

  Conventions.  A byte is an \<open>8 word\<close> (\<open>unsigned char\<close>), \<open>size_t\<close> and
  \<open>uint64_t\<close> are \<open>64 word\<close>s, so that expressions such as \<open>dst_size - 1\<close> wrap
  as they do in C.  A result of type \<open>'a option\<close> in the buffer-writing code is
  \<open>None\<close> exactly when the C code would store outside the destination buffer
  (undefined behaviour); error codes are ordinary values.  A buffer is
  represented by the bytes stored into it so far: what lies beyond is
  whatever the caller left there and is never read back by the sources.
\<close>

unbundle bit_operations_syntax

type_synonym byte = "8 word"
type_synonym size_t = "64 word"
type_synonym u64 = "64 word"
type_synonym i64 = "64 word"
type_synonym i32 = "32 word"

named_theorems byte_facts \<open>mask tests on bytes as ranges of their values\<close>
named_theorems sink_eqs \<open>what each write does to a text sink\<close>

section \<open>Bytes and C strings\<close>

text \<open>A C string literal as the bytes before its terminating NUL.\<close>

definition str :: "string \<Rightarrow> byte list" where
  "str s = map of_char s"

lemma str_Nil [simp]: "str [] = []"
  by (simp add: str_def)

lemma str_append [simp]: "str (a @ b) = str a @ str b"
  by (simp add: str_def)

lemma length_str [simp]: "length (str s) = length s"
  by (simp add: str_def)

text \<open>The string a NUL-terminated buffer holds: \<open>strlen\<close> is its length.\<close>

definition c_str :: "byte list \<Rightarrow> byte list" where
  "c_str b = takeWhile (\<lambda>c. c \<noteq> 0) b"

lemma c_str_Nil [simp]: "c_str [] = []"
  by (simp add: c_str_def)

lemma c_str_Cons [simp]: "c_str (c # b) = (if c = 0 then [] else c # c_str b)"
  by (simp add: c_str_def)

lemma c_str_id [simp]: "0 \<notin> set s \<Longrightarrow> c_str s = s"
  by (auto simp: c_str_def takeWhile_eq_all_conv)

lemma c_str_terminated [simp]: "0 \<notin> set s \<Longrightarrow> c_str (s @ 0 # r) = s"
  by (induction s) auto

lemma zero_notin_c_str [simp]: "0 \<notin> set (c_str b)"
  by (auto simp: c_str_def dest: set_takeWhileD)

lemma of_char_eq_0_iff: "of_char c = (0 :: byte) \<longleftrightarrow> c = CHR 0x00"
proof
  assume "of_char c = (0 :: byte)"
  moreover have "of_char c = (of_nat (of_char c) :: byte)" by (simp add: of_char_def)
  ultimately have "of_nat (of_char c) = (0 :: byte)" by simp
  then have d: "256 dvd (of_char c :: nat)" by (simp add: word_of_nat_eq_0_iff)
  have "of_char c < (256 :: nat)" by simp
  with d have "of_char c = (0 :: nat)" using nat_dvd_not_less by blast
  then have "of_char c = (of_char (CHR 0x00) :: nat)" by simp
  then show "c = CHR 0x00" by (simp only: of_char_eq_iff)
qed simp

lemma c_str_str [simp]: "CHR 0x00 \<notin> set s \<Longrightarrow> c_str (str s) = str s"
  by (rule c_str_id) (auto simp: str_def dest!: sym [of 0] simp: of_char_eq_0_iff)

lemma c_str_idem [simp]: "c_str (c_str b) = c_str b"
  by simp

lemma unat_byte_less [simp]: "unat (c :: byte) < 256"
  using unsigned_less [of c] by simp

lemma byte_eq_iff: "a = b \<longleftrightarrow> unat a = unat (b :: byte)"
  by (simp add: word_unat_eq_iff)

text \<open>
  A statement about all bytes is a finite conjunction; the byte-level facts of
  the sources' bit masks are settled by running through the 256 values.
\<close>

lemma all_byte: "(\<forall>c::byte. P c) \<longleftrightarrow> (\<forall>n\<in>set [0..<256]. P (word_of_nat n))"
proof
  assume *: "\<forall>n\<in>set [0..<256]. P (word_of_nat n)"
  show "\<forall>c::byte. P c"
  proof
    fix c :: byte
    have "unat c \<in> set [0..<256]" by simp
    with * have "P (word_of_nat (unat c))" by blast
    then show "P c" by simp
  qed
qed auto

lemma unat_and_low: "unat (c AND mask k :: byte) = unat c mod 2 ^ k"
proof -
  have "unat (take_bit k c) = take_bit k (unat c)" by (simp only: unsigned_take_bit_eq)
  then show ?thesis unfolding take_bit_eq_mod [of _ "unat c"] unfolding take_bit_eq_mask .
qed

lemma unat_and_high: "unat (c AND NOT (mask k) :: byte) = unat c div 2 ^ k * 2 ^ k"
proof -
  have eq: "c AND NOT (mask k) = push_bit k (drop_bit k c)"
    by (rule bit_eqI) (auto simp: bit_simps)
  have t8: "take_bit 8 (unat c) = unat c"
    using unat_byte_less [of c] by (simp add: take_bit_nat_eq_self_iff)
  have "unat (push_bit k (drop_bit k c)) = take_bit 8 (push_bit k (drop_bit k (unat c)))"
    by (simp only: unsigned_push_bit_eq unsigned_drop_bit_eq) (simp add: t8)
  also have "\<dots> = take_bit 8 (unat c div 2 ^ k * 2 ^ k)"
    by (simp only: push_bit_eq_mult drop_bit_eq_div)
  also have "\<dots> = unat c div 2 ^ k * 2 ^ k"
  proof (rule take_bit_nat_eq_self)
    have "unat c div 2 ^ k * 2 ^ k \<le> unat c" by simp
    also have "\<dots> < 2 ^ 8" using unat_byte_less [of c] by simp
    finally show "unat c div 2 ^ k * 2 ^ k < 2 ^ 8" .
  qed
  finally show ?thesis unfolding eq .
qed

text \<open>Joining bit fields that do not overlap is addition.\<close>

lemma or_shift:
  assumes "(b::nat) < 2 ^ k"
  shows "push_bit k a OR b = a * 2 ^ k + b"
proof -
  have "take_bit k b = b" using assms by (rule take_bit_nat_eq_self)
  then have "\<not> bit b n" if "k \<le> n" for n
    using that by (metis bit_take_bit_iff linorder_not_less)
  then have "push_bit k a + b = push_bit k a OR b"
    by (intro disjunctive_add) (auto simp: bit_push_bit_iff)
  then show ?thesis by (simp add: push_bit_eq_mult)
qed

section \<open>Caller-owned buffers\<close>

text \<open>
  \<open>store_at cap b i c\<close> is the assignment \<open>dst[i] = c\<close> where \<open>dst\<close> points to
  \<open>cap\<close> bytes of which \<open>b\<close> have been stored: \<open>None\<close> if the store is outside the
  buffer.  (A store that would leave a gap of unwritten bytes is \<open>None\<close> too; the
  sources only append or overwrite.)
\<close>

definition store_at :: "size_t \<Rightarrow> byte list \<Rightarrow> size_t \<Rightarrow> byte \<Rightarrow> byte list option" where
  "store_at cap b i c =
     (if i < cap \<and> unat i \<le> length b
      then Some (take (unat i) b @ c # drop (Suc (unat i)) b) else None)"

lemma store_at_append:
  "i < cap \<Longrightarrow> unat i = length b \<Longrightarrow> store_at cap b i c = Some (b @ [c])"
  by (simp add: store_at_def)

text \<open>The C conversion \<open>(int)\<close> of a \<open>size_t\<close>: the low 32 bits, as two's complement.\<close>

definition int_of_size :: "size_t \<Rightarrow> int" where
  "int_of_size n = sint (ucast n :: 32 word)"

lemma int_of_size_small [simp]:
  assumes "unat n < 2 ^ 31"
  shows "int_of_size n = int (unat n)"
proof -
  have u: "unat (ucast n :: 32 word) = unat n"
    using assms by (simp add: unsigned_ucast_eq take_bit_nat_eq_self_iff)
  have "sint (ucast n :: 32 word) = signed_take_bit 31 (int (unat (ucast n :: 32 word)))"
    by (simp add: sint_uint)
  moreover have "signed_take_bit 31 (int k) = int k" if "k < 2 ^ 31" for k :: nat
    using that by (intro signed_take_bit_int_eq_self) simp_all
  then have "signed_take_bit 31 (int (unat n)) = int (unat n)" using assms .
  ultimately show ?thesis unfolding int_of_size_def u by simp
qed

lemma unat_size_less: "unat (n :: size_t) < 2 ^ 64"
proof -
  have "unat n < 2 ^ LENGTH(64)" by (rule unsigned_less)
  then show ?thesis by simp
qed

lemma unat_of_nat_size: "n < 2 ^ 64 \<Longrightarrow> unat (of_nat n :: size_t) = n"
  by (simp add: unsigned_of_nat take_bit_nat_eq_self_iff)

lemma unat_pred: "n \<noteq> 0 \<Longrightarrow> unat (n - 1 :: size_t) = unat n - 1"
  by (simp add: unat_minus_one)

lemma room_step:
  assumes "n \<noteq> (0 :: size_t)" "di < n - 1"
  shows "di < n" "unat (di + 1) = Suc (unat di)" "Suc (unat di) < unat n"
proof -
  show lt: "Suc (unat di) < unat n"
    using assms by (simp add: word_less_nat_alt unat_pred)
  then show "di < n" by (simp add: word_less_nat_alt)
  have "Suc (unat di) < 2 ^ 64" using lt unat_size_less [of n] by simp
  then show "unat (di + 1) = Suc (unat di)" by (simp add: unat_word_ariths)
qed

section \<open>Delimited text\<close>

text \<open>Text that ends at the first occurrence of a delimiter splits in one way only.\<close>

lemma delimited_unique:
  assumes "a @ d # x = b @ d # y" "d \<notin> set a" "d \<notin> set b"
  shows "a = b \<and> x = y"
  using assms
proof (induction a arbitrary: b)
  case Nil
  then show ?case by (cases b) auto
next
  case (Cons c a)
  then show ?case by (cases b) auto
qed

section \<open>Decimal numerals\<close>

function dec :: "nat \<Rightarrow> byte list" where
  "dec n = (if n < 10 then [48 + of_nat n] else dec (n div 10) @ [48 + of_nat (n mod 10)])"
  by pat_completeness auto
termination
  by (relation "measure id") auto

declare dec.simps [simp del]

definition dec_val :: "byte list \<Rightarrow> nat" where
  "dec_val ds = foldl (\<lambda>n d. 10 * n + (unat d - 48)) 0 ds"

lemma unat_digit [simp]: "n < 10 \<Longrightarrow> unat (48 + of_nat n :: byte) = 48 + n"
proof -
  assume "n < 10"
  then have "48 + of_nat n = (of_nat (48 + n) :: byte)" "48 + n < 2 ^ 8" by simp_all
  then show ?thesis by (simp only: unsigned_of_nat) (simp add: take_bit_nat_eq_self_iff)
qed

lemma dec_val_dec [simp]: "dec_val (dec n) = n"
proof (induction n rule: dec.induct)
  case (1 n)
  then show ?case
    by (cases "n < 10") (auto simp: dec.simps [of n] dec_val_def)
qed

lemma dec_inject [simp]: "dec m = dec n \<longleftrightarrow> m = n"
  by (metis dec_val_dec)

lemma dec_digits: "c \<in> set (dec n) \<Longrightarrow> 48 \<le> unat c \<and> unat c \<le> 57"
proof (induction n rule: dec.induct)
  case (1 n)
  then show ?case by (cases "n < 10") (auto simp: dec.simps [of n])
qed

lemma dec_nonempty [simp]: "dec n \<noteq> []"
  by (subst dec.simps) simp

text \<open>No leading zeros: only the number zero starts with the digit 0.\<close>

lemma hd_dec: "hd (dec n) = 48 \<longleftrightarrow> n = 0"
proof (induction n rule: dec.induct)
  case (1 n)
  show ?case
  proof (cases "n < 10")
    case True
    then have "48 + of_nat n = (48 :: byte) \<longleftrightarrow> n = 0"
      unfolding byte_eq_iff by (simp del: word_unat_eq_iff)
    with True show ?thesis by (simp add: dec.simps [of n])
  next
    case False
    with "1" have "hd (dec (n div 10)) \<noteq> 48" by simp
    with False show ?thesis by (simp add: dec.simps [of n])
  qed
qed

lemma length_dec: "n < 10 ^ Suc k \<Longrightarrow> length (dec n) \<le> Suc k"
proof (induction k arbitrary: n)
  case 0
  then show ?case by (simp add: dec.simps [of n])
next
  case (Suc k)
  then have "n div 10 < 10 ^ Suc k" by (simp add: less_mult_imp_div_less mult.commute)
  with Suc.IH show ?case by (cases "n < 10") (simp_all add: dec.simps [of n])
qed

lemma length_dec_u64: "length (dec (unat (v :: 64 word))) \<le> 20"
proof -
  have "unat v < 2 ^ 64" using unsigned_less [of v] by simp
  also have "\<dots> < 10 ^ Suc 19" by simp
  finally show ?thesis using length_dec [of "unat v" 19] by simp
qed

section \<open>Text sinks and escaping\<close>

text \<open>
  The interface of everything in the sources that appends text to a bounded
  destination: \<open>st t\<close> is the state after the text \<open>t\<close> has been requested,
  whether or not it fitted, and \<open>put\<close> requests a further piece.
\<close>

locale text_sink =
  fixes put :: "'w \<Rightarrow> byte list \<Rightarrow> 'w" and st :: "byte list \<Rightarrow> 'w"
  assumes put_st: "0 \<notin> set s \<Longrightarrow> put (st t) s = st (t @ s)"
begin

lemma puts_st: "\<forall>s\<in>set ss. 0 \<notin> set s \<Longrightarrow> foldl put (st t) ss = st (t @ concat ss)"
  by (induction ss arbitrary: t) (auto simp: put_st)

end

text \<open>
  A per-byte escaping for JSON string contents: pieces without NUL that do not
  start with the closing quote and from whose concatenation the bytes can be
  read back.
\<close>

locale escaper =
  fixes esc :: "byte \<Rightarrow> byte list"
  assumes esc_no_nul: "0 \<notin> set (esc c)"
    and esc_not_quote: "esc c \<noteq> [] \<and> hd (esc c) \<noteq> 0x22"
    and esc_prefix_free: "esc a @ x = esc b @ y \<Longrightarrow> a = b"
begin

lemma escaped_no_nul: "0 \<notin> set (concat (map esc s))"
  using esc_no_nul by auto

lemma esc_not_at_quote: "esc c @ x \<noteq> 0x22 # y"
  using esc_not_quote [of c] by (cases "esc c") auto

text \<open>The closing quote ends the string in exactly one place.\<close>

lemma escaped_unique:
  "concat (map esc a) @ 0x22 # x = concat (map esc b) @ 0x22 # y \<Longrightarrow> a = b \<and> x = y"
proof (induction a arbitrary: b)
  case Nil
  then show ?case
    by (cases b) (auto simp: esc_not_at_quote dest!: sym [of "0x22 # x"])
next
  case (Cons u a)
  show ?case
  proof (cases b)
    case Nil
    with Cons.prems show ?thesis by (simp add: esc_not_at_quote)
  next
    case b: (Cons v b')
    with Cons.prems have e: "esc u @ concat (map esc a) @ 0x22 # x = esc v @ concat (map esc b') @ 0x22 # y"
      by simp
    then have "u = v" by (rule esc_prefix_free)
    with e Cons.IH [of b'] b show ?thesis by simp
  qed
qed

lemma escaped_inject: "concat (map esc a) = concat (map esc b) \<Longrightarrow> a = b"
  using escaped_unique [of a "[]" b "[]"] by simp

end

locale escaping_sink = text_sink put st + escaper esc
  for put :: "'w \<Rightarrow> byte list \<Rightarrow> 'w" and st :: "byte list \<Rightarrow> 'w" and esc :: "byte \<Rightarrow> byte list"
begin

lemma put_escaped: "foldl (\<lambda>w c. put w (esc c)) (st t) s = st (t @ concat (map esc s))"
  by (induction s arbitrary: t) (auto simp: put_st esc_no_nul)

end

section \<open>Sequenced acceptance\<close>

text \<open>
  Offering a list of requests to a guard, one after the other: the final state
  and what was accepted, oldest first.
\<close>

fun offer_all :: "('c \<Rightarrow> 'i \<Rightarrow> 'c \<times> 'r option) \<Rightarrow> 'c \<Rightarrow> 'i list \<Rightarrow> 'c \<times> 'r list" where
  "offer_all step c [] = (c, [])"
| "offer_all step c (i # is) =
     (let (c1, r) = step c i; (c2, rs) = offer_all step c1 is
      in (c2, case r of None \<Rightarrow> rs | Some x \<Rightarrow> x # rs))"

text \<open>
  The contract of a sequence guard: it accepts only numbers above the last
  accepted one, remembers what it accepted and nothing else.
\<close>

locale sequence_guard =
  fixes step :: "'c \<Rightarrow> 'i \<Rightarrow> 'c \<times> 'r option" and last_seq :: "'c \<Rightarrow> u64 option" and seq_of :: "'r \<Rightarrow> u64"
  assumes accepts: "step c i = (c', Some r) \<Longrightarrow>
      last_seq c' = Some (seq_of r) \<and> (\<forall>l. last_seq c = Some l \<longrightarrow> l < seq_of r)"
    and rejects: "step c i = (c', None) \<Longrightarrow> last_seq c' = last_seq c"
begin

lemma offered_above:
  assumes "offer_all step c is = (c', rs)" "r \<in> set rs" "last_seq c = Some l"
  shows "l < seq_of r"
  using assms
proof (induction "is" arbitrary: c c' rs l)
  case (Cons i "is")
  obtain c1 x where s: "step c i = (c1, x)" by (cases "step c i")
  obtain c2 xs where t: "offer_all step c1 is = (c2, xs)" by (cases "offer_all step c1 is")
  show ?case
  proof (cases x)
    case None
    with Cons s t rejects [of c i c1] show ?thesis by auto
  next
    case (Some y)
    with accepts [of c i c1 y] s Cons.prems(3) have y: "last_seq c1 = Some (seq_of y)" "l < seq_of y" by auto
    with Cons.prems(1,2) s t Some have "r = y \<or> r \<in> set xs" by auto
    with Cons.IH [OF t _ y(1)] y(2) show ?thesis by auto
  qed
qed simp

lemma offered_increasing:
  assumes "offer_all step c is = (c', rs)"
  shows "sorted_wrt (\<lambda>a b. seq_of a < seq_of b) rs"
  using assms
proof (induction "is" arbitrary: c c' rs)
  case (Cons i "is")
  obtain c1 x where s: "step c i = (c1, x)" by (cases "step c i")
  obtain c2 xs where t: "offer_all step c1 is = (c2, xs)" by (cases "offer_all step c1 is")
  show ?case
  proof (cases x)
    case (Some y)
    with accepts [of c i c1 y] s offered_above [OF t] Cons.IH [OF t] Cons.prems t show ?thesis by auto
  qed (use Cons s t in auto)
qed simp

end

end
