(* ===== verification/L3Types.thy ===== *)
theory L3Types
  imports Prelude
begin

text \<open>
  The types and constants of the library headers \<open>include/axilog\<close>:
  \<open>l3_types.h\<close> (fault flags, return codes), \<open>limits.h\<close>, \<open>oracle.h\<close>
  (enumerations, sampling parameters) and \<open>obs.h\<close> (observation record, raw
  input, admission context).

  Enumerations are integers, as in C: the code itself checks for values
  outside the declared range, so out-of-range values are part of the model.
  A pointer to bytes is a \<open>byte list option\<close> with \<open>None\<close> for \<open>NULL\<close>.  The
  substrate's \<open>ct_fault_flags_t\<close> is not part of the repository: it is the type
  parameter \<open>'ct\<close>, and its operations are arguments.
\<close>

section \<open>\<open>l3_types.h\<close>: fault flags and return codes\<close>

record 'ct ax_l3_fault_flags_t =
  f_base :: 'ct
  f_precision :: byte
  f_encoding :: byte
  f_schema :: byte
  f_ordering :: byte
  f_size :: byte
  f_protocol :: byte

definition ax_l3_fault_any :: "('ct \<Rightarrow> int) \<Rightarrow> 'ct ax_l3_fault_flags_t \<Rightarrow> int" where
  "ax_l3_fault_any ct_fault_any f =
     ct_fault_any (f_base f) OR
     uint (f_precision f OR f_encoding f OR f_schema f OR
           f_ordering f OR f_size f OR f_protocol f)"

definition ax_l3_fault_init :: "'ct \<Rightarrow> 'ct ax_l3_fault_flags_t" where
  "ax_l3_fault_init ct_init =
     \<lparr>f_base = ct_init, f_precision = 0, f_encoding = 0, f_schema = 0,
      f_ordering = 0, f_size = 0, f_protocol = 0\<rparr>"

definition AX_OK :: int where "AX_OK = 0"
definition AX_ERR_ENCODING :: int where "AX_ERR_ENCODING = -1"
definition AX_ERR_SCHEMA :: int where "AX_ERR_SCHEMA = -2"
definition AX_ERR_ORDERING :: int where "AX_ERR_ORDERING = -3"
definition AX_ERR_SIZE :: int where "AX_ERR_SIZE = -4"
definition AX_ERR_HASH :: int where "AX_ERR_HASH = -5"
definition AX_ERR_BUFFER :: int where "AX_ERR_BUFFER = -6"
definition AX_ERR_PROTOCOL :: int where "AX_ERR_PROTOCOL = -7"

lemmas rc_defs = AX_OK_def AX_ERR_ENCODING_def AX_ERR_SCHEMA_def AX_ERR_ORDERING_def
  AX_ERR_SIZE_def AX_ERR_HASH_def AX_ERR_BUFFER_def AX_ERR_PROTOCOL_def

lemma err_not_ok:
  "AX_ERR_ENCODING \<noteq> AX_OK" "AX_ERR_SCHEMA \<noteq> AX_OK" "AX_ERR_ORDERING \<noteq> AX_OK" "AX_ERR_SIZE \<noteq> AX_OK"
  "AX_ERR_HASH \<noteq> AX_OK" "AX_ERR_BUFFER \<noteq> AX_OK" "AX_ERR_PROTOCOL \<noteq> AX_OK"
  by (simp_all add: rc_defs)

section \<open>\<open>limits.h\<close>\<close>

definition AX_MAX_OBS_BYTES :: nat where "AX_MAX_OBS_BYTES = 65536"
definition AX_MAX_OUTPUT_BYTES :: nat where "AX_MAX_OUTPUT_BYTES = AX_MAX_OBS_BYTES - 1024"
definition AX_MAX_MODEL_ID_BYTES :: nat where "AX_MAX_MODEL_ID_BYTES = 256"
definition AX_MAX_ORACLE_ID_BYTES :: nat where "AX_MAX_ORACLE_ID_BYTES = 256"
definition AX_HASH_SIZE :: nat where "AX_HASH_SIZE = 32"
definition AX_HASH_HEX_SIZE :: nat where "AX_HASH_HEX_SIZE = 65"
definition AX_CANONICAL_BUFFER_SIZE :: nat where "AX_CANONICAL_BUFFER_SIZE = AX_MAX_OBS_BYTES * 2"
definition AX_PARAMS_BUFFER_SIZE :: nat where "AX_PARAMS_BUFFER_SIZE = 256"

lemmas limit_defs = AX_MAX_OBS_BYTES_def AX_MAX_OUTPUT_BYTES_def AX_MAX_MODEL_ID_BYTES_def
  AX_MAX_ORACLE_ID_BYTES_def AX_HASH_SIZE_def AX_HASH_HEX_SIZE_def
  AX_CANONICAL_BUFFER_SIZE_def AX_PARAMS_BUFFER_SIZE_def

section \<open>\<open>oracle.h\<close>: enumerations and sampling parameters\<close>

definition AX_OBS_SCHEMA_VERSION :: "byte list" where
  "AX_OBS_SCHEMA_VERSION = str ''AX:OBS:v1''"

type_synonym ax_completion_state_t = int
type_synonym ax_failure_type_t = int

definition AX_COMPLETION_COMPLETE :: ax_completion_state_t where "AX_COMPLETION_COMPLETE = 0"
definition AX_COMPLETION_TRUNCATED :: ax_completion_state_t where "AX_COMPLETION_TRUNCATED = 1"
definition AX_COMPLETION_ERROR :: ax_completion_state_t where "AX_COMPLETION_ERROR = 2"

definition AX_FAILURE_NULL :: ax_failure_type_t where "AX_FAILURE_NULL = 0"
definition AX_FAILURE_TIMEOUT :: ax_failure_type_t where "AX_FAILURE_TIMEOUT = 1"
definition AX_FAILURE_INVALID_OUTPUT :: ax_failure_type_t where "AX_FAILURE_INVALID_OUTPUT = 2"
definition AX_FAILURE_TRANSPORT_ERROR :: ax_failure_type_t where "AX_FAILURE_TRANSPORT_ERROR = 3"

lemmas enum_defs = AX_COMPLETION_COMPLETE_def AX_COMPLETION_TRUNCATED_def AX_COMPLETION_ERROR_def
  AX_FAILURE_NULL_def AX_FAILURE_TIMEOUT_def AX_FAILURE_INVALID_OUTPUT_def
  AX_FAILURE_TRANSPORT_ERROR_def

definition AX_PARAMS_NULL_INT32 :: i32 where "AX_PARAMS_NULL_INT32 = -1"
definition AX_PARAMS_NULL_INT64 :: i64 where "AX_PARAMS_NULL_INT64 = -1"
definition AX_PARAMS_NULL_Q16 :: i32 where "AX_PARAMS_NULL_Q16 = 0x80000000"

record ax_oracle_params_t =
  p_max_tokens :: i32
  p_seed :: i64
  p_temperature :: i32
  p_top_p :: i32

definition ax_oracle_params_init_null :: ax_oracle_params_t where
  "ax_oracle_params_init_null =
     \<lparr>p_max_tokens = AX_PARAMS_NULL_INT32, p_seed = AX_PARAMS_NULL_INT64,
      p_temperature = AX_PARAMS_NULL_Q16, p_top_p = AX_PARAMS_NULL_Q16\<rparr>"

definition ax_params_max_tokens_is_null :: "ax_oracle_params_t \<Rightarrow> bool" where
  "ax_params_max_tokens_is_null p \<longleftrightarrow> p_max_tokens p = AX_PARAMS_NULL_INT32"

definition ax_params_seed_is_null :: "ax_oracle_params_t \<Rightarrow> bool" where
  "ax_params_seed_is_null p \<longleftrightarrow> p_seed p = AX_PARAMS_NULL_INT64"

definition ax_params_temperature_is_null :: "ax_oracle_params_t \<Rightarrow> bool" where
  "ax_params_temperature_is_null p \<longleftrightarrow> p_temperature p = AX_PARAMS_NULL_Q16"

definition ax_params_top_p_is_null :: "ax_oracle_params_t \<Rightarrow> bool" where
  "ax_params_top_p_is_null p \<longleftrightarrow> p_top_p p = AX_PARAMS_NULL_Q16"

lemmas param_null_defs = AX_PARAMS_NULL_INT32_def AX_PARAMS_NULL_INT64_def AX_PARAMS_NULL_Q16_def
  ax_params_max_tokens_is_null_def ax_params_seed_is_null_def
  ax_params_temperature_is_null_def ax_params_top_p_is_null_def

section \<open>\<open>obs.h\<close>: records\<close>

record ax_obs_record_t =
  completion_state :: ax_completion_state_t
  failure_type :: ax_failure_type_t
  input_hash :: "byte list"
  ledger_seq :: u64
  model_id :: "byte list option"
  obs_hash :: "byte list"
  oracle_id :: "byte list option"
  obs_output :: "byte list option"
  output_size :: u64
  params :: ax_oracle_params_t
  schema_version :: "byte list option"

text \<open>The array \<open>obs_hash\<close> is represented by the C string it holds, \<open>input_hash\<close> by its bytes.\<close>

record ax_obs_input_t =
  in_completion_state :: ax_completion_state_t
  in_failure_type :: ax_failure_type_t
  in_input :: "byte list option"
  in_input_len :: size_t
  in_ledger_seq :: u64
  in_model_id :: "byte list option"
  in_oracle_id :: "byte list option"
  in_output :: "byte list option"
  in_output_len :: size_t
  in_params :: ax_oracle_params_t

record ax_admission_ctx_t =
  last_ledger_seq :: u64
  initialized :: bool

definition ax_admission_ctx_init :: ax_admission_ctx_t where
  "ax_admission_ctx_init = \<lparr>last_ledger_seq = 0, initialized = False\<rparr>"

section \<open>Facts\<close>

lemma fault_byte_or_zero: "a OR b = (0 :: byte) \<longleftrightarrow> a = 0 \<and> b = 0"
  by (auto simp: bit_eq_iff bit_or_iff)

text \<open>
  The flag summary is zero exactly when the substrate reports nothing and no
  L3 flag byte is set, whatever non-zero value a flag holds.
\<close>

lemma ax_l3_fault_any_zero:
  "ax_l3_fault_any ct_any f = 0 \<longleftrightarrow>
     ct_any (f_base f) = 0 \<and> f_precision f = 0 \<and> f_encoding f = 0 \<and> f_schema f = 0 \<and>
     f_ordering f = 0 \<and> f_size f = 0 \<and> f_protocol f = 0"
proof -
  have or_int: "(a::int) OR b = 0 \<longleftrightarrow> a = 0 \<and> b = 0" for a b
    by (auto simp: bit_eq_iff bit_or_iff)
  have "uint (w :: byte) = 0 \<longleftrightarrow> w = 0" for w
    by (metis unsigned_0 unsigned_word_eqI)
  then show ?thesis
    unfolding ax_l3_fault_any_def or_int by (simp add: fault_byte_or_zero)
qed

end
