(* ===== verification/Encoding.thy ===== *)
theory Encoding
  imports L3Types
begin

text \<open>
  \<open>src/validate.c\<close>: UTF-8 validation, control characters, line-ending
  normalisation, the NFC check and their combinations.

  The two validators are while loops over the bytes; \<open>utf8_scan\<close> is the loop
  and each validator's body is a step that returns how far the pointer moves,
  0 for \<open>return 0\<close>.  A specification in terms of Unicode scalar values comes
  with it: \<open>utf8_encode\<close> is the RFC 3629 encoding, \<open>utf8_text\<close> the byte strings
  it produces.  The locale \<open>utf8_stepper\<close> states what a step must satisfy for
  the loop to decide \<open>utf8_text\<close>.
\<close>

section \<open>Model\<close>

text \<open>
  The loop \<open>while (p < end)\<close>: each iteration moves \<open>p\<close> by what the body says,
  which may run past the end (the 4-byte branch of \<open>ax_is_nfc\<close> does not look).
\<close>

function utf8_scan :: "(byte list \<Rightarrow> nat) \<Rightarrow> byte list \<Rightarrow> bool" where
  "utf8_scan step [] = True"
| "utf8_scan step (c # p) =
     (let n = step (c # p) in if n = 0 then False else utf8_scan step (drop n (c # p)))"
  by pat_completeness auto
termination
  by (relation "measure (\<lambda>(_, p). length p)") auto

definition cp2 :: "byte \<Rightarrow> byte \<Rightarrow> nat" where
  "cp2 c p1 = push_bit 6 (unat (c AND 0x1F)) OR unat (p1 AND 0x3F)"

definition cp3 :: "byte \<Rightarrow> byte \<Rightarrow> byte \<Rightarrow> nat" where
  "cp3 c p1 p2 =
     push_bit 12 (unat (c AND 0x0F)) OR push_bit 6 (unat (p1 AND 0x3F)) OR unat (p2 AND 0x3F)"

definition cp4 :: "byte \<Rightarrow> byte \<Rightarrow> byte \<Rightarrow> byte \<Rightarrow> nat" where
  "cp4 c p1 p2 p3 =
     push_bit 18 (unat (c AND 0x07)) OR push_bit 12 (unat (p1 AND 0x3F)) OR
     push_bit 6 (unat (p2 AND 0x3F)) OR unat (p3 AND 0x3F)"

fun ax_utf8_step :: "byte list \<Rightarrow> nat" where
  "ax_utf8_step [] = 0"
| "ax_utf8_step (c # p) =
     (if c < 0x80 then 1
      else if c AND 0xE0 = 0xC0 then
        (case p of
           p1 # _ \<Rightarrow>
             if p1 AND 0xC0 \<noteq> 0x80 then 0
             else if c AND 0x1E = 0 then 0
             else 2
         | _ \<Rightarrow> 0)
      else if c AND 0xF0 = 0xE0 then
        (case p of
           p1 # p2 # _ \<Rightarrow>
             if p1 AND 0xC0 \<noteq> 0x80 then 0
             else if p2 AND 0xC0 \<noteq> 0x80 then 0
             else let cp = cp3 c p1 p2 in
               if cp < 0x800 then 0
               else if 0xD800 \<le> cp \<and> cp \<le> 0xDFFF then 0
               else 3
         | _ \<Rightarrow> 0)
      else if c AND 0xF8 = 0xF0 then
        (case p of
           p1 # p2 # p3 # _ \<Rightarrow>
             if p1 AND 0xC0 \<noteq> 0x80 then 0
             else if p2 AND 0xC0 \<noteq> 0x80 then 0
             else if p3 AND 0xC0 \<noteq> 0x80 then 0
             else let cp = cp4 c p1 p2 p3 in
               if cp < 0x10000 \<or> cp > 0x10FFFF then 0
               else 4
         | _ \<Rightarrow> 0)
      else 0)"

definition ax_validate_utf8 :: "byte list \<Rightarrow> bool" where
  "ax_validate_utf8 data = utf8_scan ax_utf8_step data"

fun ax_contains_forbidden_control :: "byte list \<Rightarrow> bool" where
  "ax_contains_forbidden_control [] = False"
| "ax_contains_forbidden_control (c # p) =
     (if c < 0x20 \<and> c \<noteq> 0x0A then True
      else if c = 0x7F then True
      else ax_contains_forbidden_control p)"

text \<open>
  The normalisation loop: destination bytes stored so far, \<open>di\<close>, and the source
  bytes not yet consumed (\<open>src[si..]\<close>).
\<close>

fun normalise_loop ::
    "size_t \<Rightarrow> byte list \<Rightarrow> size_t \<Rightarrow> byte list \<Rightarrow> (byte list \<times> size_t \<times> byte list) option" where
  "normalise_loop dst_size dst di [] = Some (dst, di, [])"
| "normalise_loop dst_size dst di (c # s) =
     (if di < dst_size - 1 then
        (if c = 0x0D then
           (case s of
              d # s' \<Rightarrow>
                if d = 0x0A then
                  do { dst' \<leftarrow> store_at dst_size dst di 0x0A; normalise_loop dst_size dst' (di + 1) s' }
                else
                  do { dst' \<leftarrow> store_at dst_size dst di 0x0A; normalise_loop dst_size dst' (di + 1) s }
            | [] \<Rightarrow>
                do { dst' \<leftarrow> store_at dst_size dst di 0x0A; normalise_loop dst_size dst' (di + 1) s })
         else
           do { dst' \<leftarrow> store_at dst_size dst di c; normalise_loop dst_size dst' (di + 1) s })
      else Some (dst, di, c # s))"

definition ax_normalise_line_endings :: "size_t \<Rightarrow> byte list \<Rightarrow> (int \<times> byte list) option" where
  "ax_normalise_line_endings dst_size src =
     do {
       (dst, di, rest) \<leftarrow> normalise_loop dst_size [] 0 src;
       if rest \<noteq> [] then Some (AX_ERR_BUFFER, dst)
       else do {
         dst' \<leftarrow> store_at dst_size dst di 0;
         Some (int_of_size di, dst')
       }
     }"

fun ax_nfc_step :: "byte list \<Rightarrow> nat" where
  "ax_nfc_step [] = 0"
| "ax_nfc_step (c # p) =
     (if c < 0x80 then 1
      else if c AND 0xE0 = 0xC0 then
        (case p of
           p1 # _ \<Rightarrow>
             let cp = cp2 c p1 in
             if 0x0300 \<le> cp \<and> cp \<le> 0x036F then 0 else 2
         | _ \<Rightarrow> 0)
      else if c AND 0xF0 = 0xE0 then
        (case p of
           p1 # p2 # _ \<Rightarrow>
             let cp = cp3 c p1 p2 in
             if (0x1DC0 \<le> cp \<and> cp \<le> 0x1DFF) \<or>
                (0x20D0 \<le> cp \<and> cp \<le> 0x20FF) \<or>
                (0xFE20 \<le> cp \<and> cp \<le> 0xFE2F) then 0 else 3
         | _ \<Rightarrow> 0)
      else if c AND 0xF8 = 0xF0 then 4
      else 0)"

definition ax_is_nfc :: "byte list \<Rightarrow> bool" where
  "ax_is_nfc data = utf8_scan ax_nfc_step data"

definition ax_validate_encoding :: "byte list \<Rightarrow> int" where
  "ax_validate_encoding data =
     (if \<not> ax_validate_utf8 data then AX_ERR_ENCODING
      else if \<not> ax_is_nfc data then AX_ERR_ENCODING
      else AX_OK)"

text \<open>Return value, destination buffer and fault flags of \<open>ax_validate_and_normalise\<close>.\<close>

definition ax_validate_and_normalise ::
    "size_t \<Rightarrow> byte list \<Rightarrow> 'ct ax_l3_fault_flags_t
      \<Rightarrow> (int \<times> byte list \<times> 'ct ax_l3_fault_flags_t) option" where
  "ax_validate_and_normalise dst_size src faults =
     (if \<not> ax_validate_utf8 src then
        Some (AX_ERR_ENCODING, [], faults\<lparr>f_encoding := 1\<rparr>)
      else do {
        (result, dst) \<leftarrow> ax_normalise_line_endings dst_size src;
        if result < 0 then
          Some (result, dst, faults\<lparr>f_size := 1\<rparr>)
        else if ax_contains_forbidden_control (take (nat result) dst) then
          Some (AX_ERR_ENCODING, dst, faults\<lparr>f_encoding := 1\<rparr>)
        else if \<not> ax_is_nfc (take (nat result) dst) then
          Some (AX_ERR_ENCODING, dst, faults\<lparr>f_encoding := 1\<rparr>)
        else Some (result, dst, faults)
      })"

section \<open>Specification: RFC 3629\<close>

definition is_scalar :: "nat \<Rightarrow> bool" where
  "is_scalar cp \<longleftrightarrow> cp < 0xD800 \<or> 0xDFFF < cp \<and> cp \<le> 0x10FFFF"

definition utf8_encode :: "nat \<Rightarrow> byte list" where
  "utf8_encode cp =
     (if cp < 0x80 then [of_nat cp]
      else if cp < 0x800 then [of_nat (192 + cp div 64), of_nat (128 + cp mod 64)]
      else if cp < 0x10000 then
        [of_nat (224 + cp div 4096), of_nat (128 + cp div 64 mod 64), of_nat (128 + cp mod 64)]
      else
        [of_nat (240 + cp div 262144), of_nat (128 + cp div 4096 mod 64),
         of_nat (128 + cp div 64 mod 64), of_nat (128 + cp mod 64)])"

definition utf8_text :: "byte list \<Rightarrow> bool" where
  "utf8_text bs \<longleftrightarrow> (\<exists>cps. (\<forall>cp\<in>set cps. is_scalar cp) \<and> bs = concat (map utf8_encode cps))"

section \<open>Bytes of the encoding\<close>

lemma high_masks: "(0x80 :: byte) = NOT (mask 7)" "(0xC0 :: byte) = NOT (mask 6)" "(0xE0 :: byte) = NOT (mask 5)"
  "(0xF0 :: byte) = NOT (mask 4)" "(0xF8 :: byte) = NOT (mask 3)"
  by (simp_all add: mask_eq_exp_minus_1)

lemma low_masks: "(0x3F :: byte) = mask 6" "(0x1F :: byte) = mask 5" "(0x0F :: byte) = mask 4"
  "(0x07 :: byte) = mask 3"
  by (simp_all add: mask_eq_exp_minus_1)

lemma byte_less_numeral [byte_facts]:
  "c < (0x80 :: byte) \<longleftrightarrow> unat c < 128" "c < (0x20 :: byte) \<longleftrightarrow> unat c < 32"
  by (simp_all add: word_less_nat_alt)

lemma lead_masks [byte_facts]:
  "c AND 0xE0 = (0xC0 :: byte) \<longleftrightarrow> 192 \<le> unat c \<and> unat c < 224"
  "c AND 0xF0 = (0xE0 :: byte) \<longleftrightarrow> 224 \<le> unat c \<and> unat c < 240"
  "c AND 0xF8 = (0xF0 :: byte) \<longleftrightarrow> 240 \<le> unat c \<and> unat c < 248"
  "c AND 0xC0 = (0x80 :: byte) \<longleftrightarrow> 128 \<le> unat c \<and> unat c < 192"
proof -
  note h = unat_and_high [of c, where k = 5, folded high_masks] unat_and_high [of c, where k = 4, folded high_masks]
    unat_and_high [of c, where k = 3, folded high_masks] unat_and_high [of c, where k = 6, folded high_masks]
  show "c AND 0xE0 = (0xC0 :: byte) \<longleftrightarrow> 192 \<le> unat c \<and> unat c < 224" 
    unfolding byte_eq_iff h(1) by simp linarith
  show "c AND 0xF0 = (0xE0 :: byte) \<longleftrightarrow> 224 \<le> unat c \<and> unat c < 240" 
    unfolding byte_eq_iff h(2) by simp linarith
  show "c AND 0xF8 = (0xF0 :: byte) \<longleftrightarrow> 240 \<le> unat c \<and> unat c < 248" 
    unfolding byte_eq_iff h(3) by simp linarith
  show "c AND 0xC0 = (0x80 :: byte) \<longleftrightarrow> 128 \<le> unat c \<and> unat c < 192" 
    unfolding byte_eq_iff h(4) by simp linarith
qed

lemma overlong2_mask [byte_facts]: 
  "c AND 0x1E = (0 :: byte) \<longleftrightarrow> unat c mod 32 < 2"
proof -
  have eq: "(0x1E :: byte) = mask 5 AND NOT (mask 1)" by (simp add: mask_eq_exp_minus_1)
  have "unat (c AND 0x1E) = unat c mod 32 div 2 * 2"
    unfolding eq and.assoc [symmetric] unat_and_high unat_and_low by simp
  then show ?thesis unfolding byte_eq_iff by simp linarith
qed

lemma payload_masks [byte_facts]:
  "unat (c AND 0x3F :: byte) = unat c mod 64" "unat (c AND 0x1F :: byte) = unat c mod 32"
  "unat (c AND 0x0F :: byte) = unat c mod 16" "unat (c AND 0x07 :: byte) = unat c mod 8"
  unfolding low_masks unat_and_low by simp_all

lemma cp2_eq [byte_facts]: "cp2 c p1 = unat c mod 32 * 64 + unat p1 mod 64"
  unfolding cp2_def payload_masks using or_shift [of "unat p1 mod 64" 6] by simp

lemma cp3_eq [byte_facts]: "cp3 c p1 p2 = unat c mod 16 * 4096 + unat p1 mod 64 * 64 + unat p2 mod 64"
proof -
  have "push_bit 6 (unat p1 mod 64) OR unat p2 mod 64 = unat p1 mod 64 * 64 + unat p2 mod 64"
    using or_shift [of "unat p2 mod 64" 6] by simp
  then show ?thesis
    unfolding cp3_def payload_masks
    using or_shift [of "unat p1 mod 64 * 64 + unat p2 mod 64" 12] by (simp add: or.assoc)
qed

lemma cp4_eq [byte_facts]: "cp4 c p1 p2 p3 = 
    unat c mod 8 * 262144 + unat p1 mod 64 * 4096 + unat p2 mod 64 * 64 + unat p3 mod 64"
proof -
  have "push_bit 6 (unat p2 mod 64) OR unat p3 mod 64 = unat p2 mod 64 * 64 + unat p3 mod 64"
    using or_shift [of "unat p3 mod 64" 6] by simp
  moreover have "push_bit 12 (unat p1 mod 64) OR (unat p2 mod 64 * 64 + unat p3 mod 64) = 
     unat p1 mod 64 * 4096 + unat p2 mod 64 * 64 + unat p3 mod 64"
    using or_shift [of "unat p2 mod 64 * 64 + unat p3 mod 64" 12] by simp
  moreover have "unat p1 mod 64 * 4096 + unat p2 mod 64 * 64 + unat p3 mod 64 < 2 ^ 18"
  proof -
    have b: "x mod 64 < 64" for x :: nat by simp
    show ?thesis using b [of "unat p1"] b [of "unat p2"] b [of "unat p3"] by simp
  qed
  ultimately show ?thesis
    unfolding cp4_def payload_masks or.assoc
    using or_shift [of "unat p1 mod 64 * 4096 + unat p2 mod 64 * 64 + unat p3 mod 64" 18] by simp
qed

abbreviation cont :: "byte \<Rightarrow> bool" where
  "cont b \<equiv> 128 \<le> unat b \<and> unat b < 192"

lemma mod_window: "k * m \<le> n \<Longrightarrow> n < k * m + m \<Longrightarrow> n mod m = n - k * (m :: nat)"
  by (auto dest!: le_Suc_ex)

lemma mod_windows:
  "128 \<le> n \<Longrightarrow> n < 192 \<Longrightarrow> n mod 64 = n - (128 :: nat)"
  "192 \<le> n \<Longrightarrow> n < 224 \<Longrightarrow> n mod 32 = n - (192 :: nat)"
  "224 \<le> n \<Longrightarrow> n < 240 \<Longrightarrow> n mod 16 = n - (224 :: nat)"
  "240 \<le> n \<Longrightarrow> n < 248 \<Longrightarrow> n mod 8 = n - (240 :: nat)"
  using mod_window [of 2 64 n] mod_window [of 6 32 n] mod_window [of 14 16 n]
    mod_window [of 30 8 n] by simp_all

text \<open>Six-bit groups of a code point.\<close>

lemma groups_of:
  fixes x y z w :: nat
  assumes "y < 64" "z < 64" "w < 64"
  shows "(x * 4096 + y * 64 + z) div 4096 = x" "(x * 4096 + y * 64 + z) div 64 mod 64 = y"
    "(x * 4096 + y * 64 + z) mod 64 = z"
    "(x * 262144 + y * 4096 + z * 64 + w) div 262144 = x"
    "(x * 262144 + y * 4096 + z * 64 + w) div 4096 mod 64 = y"
    "(x * 262144 + y * 4096 + z * 64 + w) div 64 mod 64 = z"
    "(x * 262144 + y * 4096 + z * 64 + w) mod 64 = w"
proof -
  have field: "(q * m + r) div m = q" "(q * m + r) mod m = r" if "r < m" for q m r :: nat
    using that by simp_all
  have e3: "x * 4096 + y * 64 + z = x * 4096 + (y * 64 + z)"
    "x * 4096 + y * 64 + z = (x * 64 + y) * 64 + z" by simp_all
  have e4: "x * 262144 + y * 4096 + z * 64 + w = x * 262144 + (y * 4096 + z * 64 + w)"
    "x * 262144 + y * 4096 + z * 64 + w = (x * 64 + y) * 4096 + (z * 64 + w)"
    "x * 262144 + y * 4096 + z * 64 + w = (x * 4096 + y * 64 + z) * 64 + w" by simp_all
  show "(x * 4096 + y * 64 + z) div 4096 = x"
    unfolding e3(1) using assms by (intro field) simp
  show "(x * 4096 + y * 64 + z) div 64 mod 64 = y" "(x * 4096 + y * 64 + z) mod 64 = z"
    unfolding e3(2) using assms by (simp_all only: field)
  show "(x * 262144 + y * 4096 + z * 64 + w) div 262144 = x"
    unfolding e4(1) using assms by (intro field) simp
  have "z * 64 + w < 4096" using assms by simp
  then show "(x * 262144 + y * 4096 + z * 64 + w) div 4096 mod 64 = y"
    unfolding e4(2) using assms by (simp only: field)
  show "(x * 262144 + y * 4096 + z * 64 + w) div 64 mod 64 = z"
    "(x * 262144 + y * 4096 + z * 64 + w) mod 64 = w"
    unfolding e4(3) using assms by (simp_all only: field e3(2))
qed

lemma groups_join:
  "cp div 4096 * 4096 + cp div 64 mod 64 * 64 + cp mod 64 = (cp :: nat)"
  "cp div 262144 * 262144 + cp div 4096 mod 64 * 4096 + cp div 64 mod 64 * 64 + cp mod 64 = (cp :: nat)"
proof -
  have d: "cp div 4096 = cp div 64 div 64" "cp div 262144 = cp div 64 div 64 div 64"
    by (simp_all flip: div_mult2_eq)
  note m = div_mult_mod_eq [of cp 64] div_mult_mod_eq [of "cp div 64" 64]
    div_mult_mod_eq [of "cp div 64 div 64" 64]
  show "cp div 4096 * 4096 + cp div 64 mod 64 * 64 + cp mod 64 = cp"
    unfolding d using m by linarith
  show "cp div 262144 * 262144 + cp div 4096 mod 64 * 4096 + cp div 64 mod 64 * 64 + cp mod 64 = cp"
    unfolding d using m by linarith
qed

lemma byte_offset:
  assumes "k \<le> unat c"
  obtains x where "unat c = k + x" "c = of_nat (k + x)"
proof
  show e: "unat c = k + (unat c - k)" using assms by simp
  show "c = of_nat (k + (unat c - k))" unfolding e [symmetric] by simp
qed

lemma encode1: "unat c < 128 \<Longrightarrow> utf8_encode (unat c) = [c] \<and> is_scalar (unat c)"
  by (simp add: utf8_encode_def is_scalar_def)

lemma encode2:
  assumes "194 \<le> unat c" "unat c < 224" "cont p1"
  shows "utf8_encode (cp2 c p1) = [c, p1] \<and> is_scalar (cp2 c p1)"
proof -
  obtain x where x: "unat c = 192 + x" "c = of_nat (192 + x)" using assms byte_offset [of 192 c] by auto
  obtain y where y: "unat p1 = 128 + y" "p1 = of_nat (128 + y)" using assms byte_offset by blast
  have cp: "cp2 c p1 = x * 64 + y" "x < 32" "2 \<le> x" "y < 64"
    using assms x y by (simp_all add: cp2_eq mod_windows)
  then show ?thesis by (simp add: utf8_encode_def is_scalar_def x(2) y(2))
qed

lemma encode3:
  assumes "224 \<le> unat c" "unat c < 240" "cont p1" "cont p2"
    and "0x800 \<le> cp3 c p1 p2" "\<not> (0xD800 \<le> cp3 c p1 p2 \<and> cp3 c p1 p2 \<le> 0xDFFF)"
  shows "utf8_encode (cp3 c p1 p2) = [c, p1, p2] \<and> is_scalar (cp3 c p1 p2)"
proof -
  obtain x where x: "unat c = 224 + x" "c = of_nat (224 + x)" using assms byte_offset by blast
  obtain y where y: "unat p1 = 128 + y" "p1 = of_nat (128 + y)" using assms byte_offset by blast
  obtain z where z: "unat p2 = 128 + z" "p2 = of_nat (128 + z)" using assms byte_offset by blast
  have cp: "cp3 c p1 p2 = x * 4096 + y * 64 + z" and b: "x < 16" "y < 64" "z < 64"
    using assms x y z by (simp_all add: cp3_eq mod_windows)
  have "x * 4096 + y * 64 + z < 65536" using b by linarith
  then show ?thesis
    using assms(5,6) groups_of(1-3) [OF b(2,3,3), of x] unfolding cp by (auto simp: utf8_encode_def is_scalar_def x(2) y(2) z(2))
qed

lemma encode4:
  assumes "240 \<le> unat c" "unat c < 248" "cont p1" "cont p2" "cont p3"
    and "0x10000 \<le> cp4 c p1 p2 p3" "cp4 c p1 p2 p3 \<le> 0x10FFFF"
  shows "utf8_encode (cp4 c p1 p2 p3) = [c, p1, p2, p3] \<and> is_scalar (cp4 c p1 p2 p3)"
proof -
  obtain x where x: "unat c = 240 + x" "c = of_nat (240 + x)" using assms byte_offset by blast
  obtain y where y: "unat p1 = 128 + y" "p1 = of_nat (128 + y)" using assms byte_offset by blast
  obtain z where z: "unat p2 = 128 + z" "p2 = of_nat (128 + z)" using assms byte_offset by blast
  obtain w where w: "unat p3 = 128 + w" "p3 = of_nat (128 + w)" using assms byte_offset by blast
  have cp: "cp4 c p1 p2 p3 = x * 262144 + y * 4096 + z * 64 + w" and b: "x < 8" "y < 64" "z < 64" "w < 64"
    using assms x y z w by (simp_all add: cp4_eq mod_windows)
  show ?thesis
    using assms(6,7) groups_of(4-7) [OF b(2-4), of x] unfolding cp by (simp add: utf8_encode_def is_scalar_def x(2) y(2) z(2) w(2))
qed

text \<open>Every well-formed sequence is one of the four shapes.\<close>

lemma unat_of_nat_byte: "n < 256 \<Longrightarrow> unat (of_nat n :: byte) = n"
  by (simp add: unsigned_of_nat take_bit_nat_eq_self_iff)

lemma utf8_encode_cases:
  assumes "is_scalar cp"
  obtains (one) c where "utf8_encode cp = [c]" "unat c < 128" "cp = unat c"
  | (two) c p1 where "utf8_encode cp = [c, p1]" "194 \<le> unat c" "unat c < 224" "cont p1"
      "cp = cp2 c p1" "cp < 0x800"
  | (three) c p1 p2 where "utf8_encode cp = [c, p1, p2]" "224 \<le> unat c" "unat c < 240"
      "cont p1" "cont p2" "cp = cp3 c p1 p2" "0x800 \<le> cp"
  | (four) c p1 p2 p3 where "utf8_encode cp = [c, p1, p2, p3]" "240 \<le> unat c" "unat c < 248"
      "cont p1" "cont p2" "cont p3" "cp = cp4 c p1 p2 p3" "0x10000 \<le> cp"
proof -
  consider "cp < 0x80" | "0x80 \<le> cp" "cp < 0x800" | "0x800 \<le> cp" "cp < 0x10000"
    | "0x10000 \<le> cp" "cp \<le> 0x10FFFF"
    using assms unfolding is_scalar_def by linarith
  then show ?thesis
  proof cases
    case 1
    then show ?thesis
      by (intro one [of "of_nat cp"]) (simp_all add: utf8_encode_def unat_of_nat_byte)
  next
    case 2
    let ?c = "of_nat (192 + cp div 64) :: byte" and ?p1 = "of_nat (128 + cp mod 64) :: byte"
    have u: "unat ?c = 192 + cp div 64" "unat ?p1 = 128 + cp mod 64"
      using 2 by (intro unat_of_nat_byte; simp)+
    show ?thesis
      using 2 by (intro two [of ?c ?p1]) (simp_all only: u cp2_eq, simp_all add: utf8_encode_def mod_windows)
  next
    case 3
    let ?c = "of_nat (224 + cp div 4096) :: byte" and ?p1 = "of_nat (128 + cp div 64 mod 64) :: byte"
      and ?p2 = "of_nat (128 + cp mod 64) :: byte"
    have u: "unat ?c = 224 + cp div 4096" "unat ?p1 = 128 + cp div 64 mod 64" "unat ?p2 = 128 + cp mod 64"
      using 3 by (intro unat_of_nat_byte; simp)+
    show ?thesis
      using 3 by (intro three [of ?c ?p1 ?p2]) (simp_all only: u cp3_eq, simp_all add: utf8_encode_def mod_windows groups_join)
  next
    case 4
    let ?c = "of_nat (240 + cp div 262144) :: byte" and ?p1 = "of_nat (128 + cp div 4096 mod 64) :: byte"
      and ?p2 = "of_nat (128 + cp div 64 mod 64) :: byte" and ?p3 = "of_nat (128 + cp mod 64) :: byte"
    have u: "unat ?c = 240 + cp div 262144" "unat ?p1 = 128 + cp div 4096 mod 64"
       "unat ?p2 = 128 + cp div 64 mod 64" "unat ?p3 = 128 + cp mod 64"
      using 4 by (intro unat_of_nat_byte; simp)+
    show ?thesis
      using 4 by (intro four [of ?c ?p1 ?p2 ?p3]) (simp_all only: u cp4_eq, simp_all add: utf8_encode_def mod_windows groups_join)
  qed
qed

section \<open>Scanning UTF-8: the interface of a loop body\<close>

text \<open>
  A loop body that, on text that starts with the encoding of a scalar value,
  moves past it if the value is good and stops otherwise.
\<close>

locale utf8_filter =
  fixes step :: "byte list \<Rightarrow> nat" and good :: "nat \<Rightarrow> bool"
  assumes step_encode: "is_scalar cp \<Longrightarrow>
    step (utf8_encode cp @ r) = (if good cp then length (utf8_encode cp) else 0)"
begin

lemma scan_encode:
  assumes "is_scalar cp"
  shows "utf8_scan step (utf8_encode cp @ r) \<longleftrightarrow> good cp \<and> utf8_scan step r"
proof -
  obtain c p where p: "utf8_encode cp = c # p"
    using assms by (cases rule: utf8_encode_cases) auto
  show ?thesis using step_encode [OF assms, of r] by (simp add: p Let_def)
qed

lemma scan_encodes:
  "\<forall>cp\<in>set cps. is_scalar cp \<Longrightarrow>
    utf8_scan step (concat (map utf8_encode cps)) \<longleftrightarrow> (\<forall>cp\<in>set cps. good cp)"
  by (induction cps) (auto simp: scan_encode)

end

text \<open>
  A body that also moves on nothing else makes the loop a decision procedure
  for well-formed UTF-8.
\<close>

locale utf8_stepper = utf8_filter step "\<lambda>_. True" for step :: "byte list \<Rightarrow> nat" +
  assumes step_sound: "step bs \<noteq> 0 \<Longrightarrow>
    \<exists>cp r. is_scalar cp \<and> bs = utf8_encode cp @ r \<and> step bs = length (utf8_encode cp)"
begin

lemma scan_sound: "utf8_scan step bs \<Longrightarrow> utf8_text bs"
proof (induction bs rule: length_induct)
  case (1 bs)
  show ?case
  proof (cases bs)
    case Nil
    then show ?thesis by (auto simp: utf8_text_def intro: exI [of _ "[]"])
  next
    case (Cons c p)
    with "1.prems" have n: "step bs \<noteq> 0" and rest: "utf8_scan step (drop (step bs) bs)"
      by (auto simp: Let_def split: if_splits)
    obtain cp r where cp: "is_scalar cp" "bs = utf8_encode cp @ r" "step bs = length (utf8_encode cp)"
      using step_sound [OF n] by blast
    have "length r < length bs" "utf8_scan step r" using cp n rest by simp_all
    with "1.IH" have "utf8_text r" by blast
    then obtain cps where "\<forall>cp\<in>set cps. is_scalar cp" "r = concat (map utf8_encode cps)"
      by (auto simp: utf8_text_def)
    with cp have "(\<forall>cp\<in>set (cp # cps). is_scalar cp) \<and> bs = concat (map utf8_encode (cp # cps))"
      by simp
    then show ?thesis unfolding utf8_text_def by blast
  qed
qed

lemma scan_iff_text: "utf8_scan step bs \<longleftrightarrow> utf8_text bs"
  using scan_sound by (auto simp: utf8_text_def scan_encodes)

end

section \<open>The library's validators\<close>

lemma ax_utf8_step_sound:
  assumes "ax_utf8_step bs \<noteq> 0"
  shows "\<exists>cp r. is_scalar cp \<and> bs = utf8_encode cp @ r \<and> ax_utf8_step bs = length (utf8_encode cp)"
proof (cases bs)
  case Nil
  with assms show ?thesis by simp
next
  case (Cons c p)
  consider "unat c < 128" | "192 \<le> unat c" "unat c < 224" | "224 \<le> unat c" "unat c < 240"
    | "240 \<le> unat c" "unat c < 248" | "\<not> unat c < 128" "\<not> (192 \<le> unat c \<and> unat c < 224)"
      "\<not> (224 \<le> unat c \<and> unat c < 240)" "\<not> (240 \<le> unat c \<and> unat c < 248)"
    by blast
  then show ?thesis
  proof cases
    case 1
    with encode1 [of c] Cons show ?thesis
      by (intro exI [of _ "unat c"] exI [of _ p]) (simp add: byte_facts)
  next
    case 2
    with assms Cons obtain p1 r where p: "p = p1 # r" "cont p1" "2 \<le> unat c mod 32"
      by (auto simp: byte_facts split: list.splits if_splits)
    with 2 have "194 \<le> unat c" by (simp add: mod_windows)
    with encode2 [of c p1] p 2 Cons show ?thesis
      by (intro exI [of _ "cp2 c p1"] exI [of _ r]) (simp add: byte_facts)
  next
    case 3
    with assms Cons obtain p1 p2 r where p: "p = p1 # p2 # r" "cont p1" "cont p2"
      "0x800 \<le> cp3 c p1 p2" "\<not> (0xD800 \<le> cp3 c p1 p2 \<and> cp3 c p1 p2 \<le> 0xDFFF)"
      by (auto simp: lead_masks byte_less_numeral Let_def split: list.splits if_splits)
    with encode3 [of c p1 p2] 3 Cons show ?thesis
      by (intro exI [of _ "cp3 c p1 p2"] exI [of _ r]) (auto simp: lead_masks byte_less_numeral Let_def)
  next
    case 4
    with assms Cons obtain p1 p2 p3 r where p: "p = p1 # p2 # p3 # r" "cont p1" "cont p2" "cont p3"
      "0x10000 \<le> cp4 c p1 p2 p3" "cp4 c p1 p2 p3 \<le> 0x10FFFF"
      by (auto simp: lead_masks byte_less_numeral Let_def split: list.splits if_splits)
    with encode4 [of c p1 p2 p3] 4 Cons show ?thesis
      by (intro exI [of _ "cp4 c p1 p2 p3"] exI [of _ r]) (auto simp: lead_masks byte_less_numeral Let_def)
  next
    case 5
    with assms Cons show ?thesis by (simp add: byte_facts)
  qed
qed

lemma ax_utf8_step_complete:
  assumes "is_scalar cp"
  shows "ax_utf8_step (utf8_encode cp @ r) = length (utf8_encode cp)"
  using assms
proof (cases rule: utf8_encode_cases)
  case (one c)
  then show ?thesis by (simp add: byte_facts)
next
  case (two c p1)
  then show ?thesis by (simp add: byte_facts mod_windows)
next
  case (three c p1 p2)
  then show ?thesis
    using assms by (auto simp: lead_masks byte_less_numeral is_scalar_def Let_def)
next
  case (four c p1 p2 p3)
  then show ?thesis
    using assms by (simp add: lead_masks byte_less_numeral is_scalar_def)
qed

interpretation ax_utf8: utf8_stepper ax_utf8_step
  by unfold_locales (simp add: ax_utf8_step_complete, rule ax_utf8_step_sound)

text \<open>The blocks of combining marks the NFC check rejects.\<close>

definition combining :: "nat \<Rightarrow> bool" where
  "combining cp \<longleftrightarrow>
     (0x0300 \<le> cp \<and> cp \<le> 0x036F) \<or> (0x1DC0 \<le> cp \<and> cp \<le> 0x1DFF) \<or>
     (0x20D0 \<le> cp \<and> cp \<le> 0x20FF) \<or> (0xFE20 \<le> cp \<and> cp \<le> 0xFE2F)"

lemma ax_nfc_step_encode:
  assumes "is_scalar cp"
  shows "ax_nfc_step (utf8_encode cp @ r) = (if \<not> combining cp then length (utf8_encode cp) else 0)"
  using assms
proof (cases rule: utf8_encode_cases)
  case (one c)
  then show ?thesis by (simp add: byte_facts combining_def)
next
  case (two c p1)
  then show ?thesis by (simp add: lead_masks byte_less_numeral combining_def Let_def)
next
  case (three c p1 p2)
  then show ?thesis by (simp add: lead_masks byte_less_numeral combining_def Let_def)
next
  case (four c p1 p2 p3)
  then show ?thesis by (simp add: lead_masks byte_less_numeral combining_def)
qed

interpretation nfc: utf8_filter ax_nfc_step "\<lambda>cp. \<not> combining cp"
  by unfold_locales (rule ax_nfc_step_encode)

lemma utf8_encode_prefix_free:
  assumes "is_scalar a" "is_scalar b" "utf8_encode a @ x = utf8_encode b @ y"
  shows "a = b \<and> x = y"
  using assms(1)
proof (cases rule: utf8_encode_cases)
  case a: (one c)
  show ?thesis using assms(2) by (cases rule: utf8_encode_cases) (use a assms(3) in auto)
next
  case a: (two c p1)
  show ?thesis using assms(2) by (cases rule: utf8_encode_cases) (use a assms(3) in auto)
next
  case a: (three c p1 p2)
  show ?thesis using assms(2) by (cases rule: utf8_encode_cases) (use a assms(3) in auto)
next
  case a: (four c p1 p2 p3)
  show ?thesis using assms(2) by (cases rule: utf8_encode_cases) (use a assms(3) in auto)
qed

lemma utf8_encode_nonempty: "utf8_encode cp \<noteq> []"
  by (simp add: utf8_encode_def)

lemma utf8_decode_unique:
  assumes "\<forall>cp\<in>set a. is_scalar cp" "\<forall>cp\<in>set b. is_scalar cp"
    "concat (map utf8_encode a) = concat (map utf8_encode b)"
  shows "a = b"
  using assms
proof (induction a arbitrary: b)
  case Nil
  then show ?case by (cases b) (auto simp: utf8_encode_nonempty)
next
  case (Cons u a)
  show ?case
  proof (cases b)
    case Nil
    with Cons.prems show ?thesis by (simp add: utf8_encode_nonempty)
  next
    case b: (Cons v b')
    have "u = v \<and> concat (map utf8_encode a) = concat (map utf8_encode b')"
      using Cons.prems b by (intro utf8_encode_prefix_free) simp_all
    with Cons.IH [of b'] Cons.prems b show ?thesis by simp
  qed
qed

lemma utf8_text_Nil [simp]: "utf8_text []"
  unfolding utf8_text_def by (rule exI [of _ "[]"]) simp

lemma utf8_text_append:
  "utf8_text a \<Longrightarrow> utf8_text b \<Longrightarrow> utf8_text (a @ b)"
  unfolding utf8_text_def by (metis Un_iff concat_append map_append set_append)

text \<open>
  A byte below 128 in well-formed text is a character of its own: no multi-byte
  sequence contains one.
\<close>

lemma encode_ascii_byte:
  assumes "is_scalar cp" "c \<in> set (utf8_encode cp)" "unat c < 128"
  shows "utf8_encode cp = [c] \<and> cp = unat c"
  using assms(1) by (cases rule: utf8_encode_cases) (use assms(2,3) in auto)

section \<open>Line endings\<close>

text \<open>
  Specification: CR LF and lone CR become LF.  Over an arbitrary alphabet, so
  that it reads on bytes and on code points alike.
\<close>

fun norm_eol :: "'a \<Rightarrow> 'a \<Rightarrow> 'a list \<Rightarrow> 'a list" where
  "norm_eol cr lf [] = []"
| "norm_eol cr lf [x] = [if x = cr then lf else x]"
| "norm_eol cr lf (x # y # s) =
     (if x = cr then lf # norm_eol cr lf (if y = lf then s else y # s)
      else x # norm_eol cr lf (y # s))"

abbreviation lf_norm :: "byte list \<Rightarrow> byte list" where
  "lf_norm \<equiv> norm_eol 0x0D 0x0A"

lemma norm_eol_Cons: "x \<noteq> cr \<Longrightarrow> norm_eol cr lf (x # s) = x # norm_eol cr lf s"
  by (cases s) auto

lemma norm_eol_skip: "cr \<notin> set a \<Longrightarrow> norm_eol cr lf (a @ b) = a @ norm_eol cr lf b"
  by (induction a) (auto simp: norm_eol_Cons)

lemma norm_eol_id: "cr \<notin> set a \<Longrightarrow> norm_eol cr lf a = a"
  using norm_eol_skip [of cr a lf "[]"] by simp

lemma norm_eol_no_cr: "cr \<noteq> lf \<Longrightarrow> cr \<notin> set (norm_eol cr lf s)"
  by (induction cr lf s rule: norm_eol.induct) auto

lemma set_norm_eol: "set (norm_eol cr lf s) \<subseteq> insert lf (set s)"
  by (induction cr lf s rule: norm_eol.induct) auto

lemma length_norm_eol: "length (norm_eol cr lf s) \<le> length s"
  by (induction cr lf s rule: norm_eol.induct) (auto split: if_splits)

lemma norm_eol_eq_Nil [simp]: "norm_eol cr lf s = [] \<longleftrightarrow> s = []"
  by (cases "(cr, lf, s)" rule: norm_eol.cases) auto

lemma utf8_encode_CR_LF: "utf8_encode 13 = [0x0D]" "utf8_encode 10 = [0x0A]"
  by (simp_all add: utf8_encode_def)

lemma CR_notin_encode: "is_scalar cp \<Longrightarrow> cp \<noteq> 13 \<Longrightarrow> 0x0D \<notin> set (utf8_encode cp)"
  using encode_ascii_byte [of cp "0x0D"] by auto

lemma hd_encode_LF: "is_scalar cp \<Longrightarrow> utf8_encode cp = 0x0A # r \<longleftrightarrow> cp = 10 \<and> r = []"
  using encode_ascii_byte [of cp "0x0A"] by (auto simp: utf8_encode_CR_LF)

lemma norm_eol_encode:
  "\<forall>cp\<in>set cps. is_scalar cp \<Longrightarrow>
    lf_norm (concat (map utf8_encode cps)) = concat (map utf8_encode (norm_eol 13 10 cps))"
proof (induction "13 :: nat" "10 :: nat" cps rule: norm_eol.induct)
  case 1
  then show ?case by simp
next
  case (2 x)
  then show ?case
    by (cases "x = 13") (auto simp: utf8_encode_CR_LF norm_eol_id CR_notin_encode)
next
  case (3 x y s)
  show ?case
  proof (cases "x = 13")
    case False
    with 3 show ?thesis by (auto simp: norm_eol_skip CR_notin_encode)
  next
    case x: True
    show ?thesis
    proof (cases "y = 10")
      case True
      with x 3 show ?thesis by (simp add: utf8_encode_CR_LF)
    next
      case False
      obtain b r where b: "utf8_encode y = b # r" "b \<noteq> 0x0A"
        using False "3.prems" hd_encode_LF [of y] by (cases "utf8_encode y") (auto simp: utf8_encode_nonempty)
      with x False 3 show ?thesis by (simp add: utf8_encode_CR_LF)
    qed
  qed
qed

lemma utf8_text_lf_norm: "utf8_text s \<Longrightarrow> utf8_text (lf_norm s)"
proof -
  assume "utf8_text s"
  then obtain cps where cps: "\<forall>cp\<in>set cps. is_scalar cp" "s = concat (map utf8_encode cps)"
    by (auto simp: utf8_text_def)
  have "\<forall>cp\<in>set (norm_eol 13 10 cps). is_scalar cp"
    using cps(1) set_norm_eol [of 13 10 cps] by (auto simp: is_scalar_def)
  then show ?thesis
    unfolding utf8_text_def cps(2) norm_eol_encode [OF cps(1)] by blast
qed

section \<open>The bounded normalisation loop\<close>

text \<open>One iteration stores the next byte of the normalised text.\<close>

lemma normalise_loop_step:
  assumes "n \<noteq> 0" "unat di = length dst" "di < n - 1"
  obtains x t where
    "normalise_loop n dst di (c # s) = normalise_loop n (dst @ [x]) (di + 1) t"
    "lf_norm (c # s) = x # lf_norm t" "length t \<le> length s"
proof -
  have store: "store_at n dst di x = Some (dst @ [x])" for x
    using assms room_step [of n di] by (simp add: store_at_append)
  consider "c \<noteq> 0x0D" | "c = 0x0D" "s = []" | d s' where "c = 0x0D" "s = d # s'"
    by (cases s) auto
  then show ?thesis
  proof cases
    case 1
    then show ?thesis by (intro that [of c s]) (simp_all add: store norm_eol_Cons assms)
  next
    case 2
    then show ?thesis by (intro that [of "0x0A" "[]"]) (simp_all add: store assms)
  next
    case 3
    then show ?thesis
      by (intro that [of "0x0A" "if d = 0x0A then s' else s"]) (simp_all add: store assms)
  qed
qed

lemma normalise_loop_correct:
  assumes "n \<noteq> 0" "unat di = length dst" "length dst < unat n"
  shows "\<exists>di' rest.
    normalise_loop n dst di s = Some (dst @ take (unat n - 1 - length dst) (lf_norm s), di', rest) \<and>
    unat di' = length dst + min (unat n - 1 - length dst) (length (lf_norm s)) \<and>
    (rest = [] \<longleftrightarrow> length (lf_norm s) \<le> unat n - 1 - length dst)"
  using assms(2,3)
proof (induction s arbitrary: dst di rule: length_induct)
  case (1 s)
  consider "s = []" | c s' where "s = c # s'" "\<not> di < n - 1" | c s' where "s = c # s'" "di < n - 1"
    by (cases s) auto
  then show ?case
  proof cases
    case 1
    with "1.prems" show ?thesis by simp
  next
    case 2
    then have "length dst = unat n - 1"
      using assms(1) "1.prems" by (simp add: word_less_nat_alt unat_pred)
    with 2 "1.prems" show ?thesis by simp
  next
    case 3
    note room = room_step [OF assms(1) 3(2)]
    obtain x t where t: "normalise_loop n dst di s = normalise_loop n (dst @ [x]) (di + 1) t"
      "lf_norm s = x # lf_norm t" "length t \<le> length s'"
      using normalise_loop_step [OF assms(1) "1.prems"(1) 3(2)] unfolding 3(1) by blast
    have "length t < length s" "unat (di + 1) = length (dst @ [x])" "length (dst @ [x]) < unat n"
      using t(3) 3(1) room "1.prems" by simp_all
    from "1.IH" [rule_format, OF this]
    moreover have "unat n - 1 - length dst = Suc (unat n - 1 - length (dst @ [x]))"
      using room "1.prems" by simp
    ultimately show ?thesis unfolding t(1,2) by auto
  qed
qed

lemma normalise_correct:
  assumes "n \<noteq> 0"
  shows "ax_normalise_line_endings n s = Some
    (if length (lf_norm s) < unat n
     then (int_of_size (of_nat (length (lf_norm s))), lf_norm s @ [0])
     else (AX_ERR_BUFFER, take (unat n - 1) (lf_norm s)))"
proof -
  have pos: "0 < unat n" using assms by (simp add: unat_gt_0)
  obtain di rest where loop: "normalise_loop n [] 0 s = Some (take (unat n - 1) (lf_norm s), di, rest)"
    and di: "unat di = min (unat n - 1) (length (lf_norm s))"
    and rest: "rest = [] \<longleftrightarrow> length (lf_norm s) \<le> unat n - 1"
    using normalise_loop_correct [of n 0 "[]" s] assms pos by auto
  show ?thesis
  proof (cases "length (lf_norm s) < unat n")
    case True
    with di have u: "unat di = length (lf_norm s)" by simp
    have "di = of_nat (length (lf_norm s))" unfolding u [symmetric] by simp
    with True loop rest u show ?thesis
      by (simp add: ax_normalise_line_endings_def store_at_append word_less_nat_alt)
  next
    case False
    with rest pos have "rest \<noteq> []" by linarith
    with False loop show ?thesis by (simp add: ax_normalise_line_endings_def)
  qed
qed

section \<open>What the combined validator accepts\<close>

definition plain_cp :: "nat \<Rightarrow> bool" where
  "plain_cp cp \<longleftrightarrow> is_scalar cp \<and> \<not> combining cp \<and> (cp = 0x0A \<or> 0x20 \<le> cp) \<and> cp \<noteq> 0x7F"

definition clean_text :: "byte list \<Rightarrow> bool" where
  "clean_text t \<longleftrightarrow> (\<exists>cps. (\<forall>cp\<in>set cps. plain_cp cp) \<and> t = concat (map utf8_encode cps))"

definition nfc_text :: "byte list \<Rightarrow> bool" where
  "nfc_text t \<longleftrightarrow> (\<exists>cps. (\<forall>cp\<in>set cps. is_scalar cp \<and> \<not> combining cp) \<and> t = concat (map utf8_encode cps))"

lemma forbidden_control_iff:
  "ax_contains_forbidden_control t \<longleftrightarrow>
     (\<exists>c\<in>set t. (unat c < 32 \<and> unat c \<noteq> 10) \<or> unat c = 127)"
proof (induction t)
  case (Cons c t)
  have "c = 0x0A \<longleftrightarrow> unat c = 10" "c = 0x7F \<longleftrightarrow> unat c = 127"
    by (simp_all add: byte_eq_iff)
  with Cons show ?case by (auto simp: byte_less_numeral)
qed simp

lemma forbidden_control_encode:
  assumes "is_scalar cp"
  shows "ax_contains_forbidden_control (utf8_encode cp) \<longleftrightarrow> (cp < 0x20 \<and> cp \<noteq> 0x0A) \<or> cp = 0x7F"
  using assms by (cases rule: utf8_encode_cases) (auto simp: forbidden_control_iff cp2_eq mod_windows)

lemma forbidden_control_append [simp]:
  "ax_contains_forbidden_control (a @ b) \<longleftrightarrow>
     ax_contains_forbidden_control a \<or> ax_contains_forbidden_control b"
  by (induction a) auto

lemma forbidden_control_encodes:
  "\<forall>cp\<in>set cps. is_scalar cp \<Longrightarrow>
    ax_contains_forbidden_control (concat (map utf8_encode cps)) \<longleftrightarrow>
      (\<exists>cp\<in>set cps. (cp < 0x20 \<and> cp \<noteq> 0x0A) \<or> cp = 0x7F)"
  by (induction cps) (auto simp: forbidden_control_encode)

lemma validate_utf8_iff: "ax_validate_utf8 t \<longleftrightarrow> utf8_text t"
  unfolding ax_validate_utf8_def by (rule ax_utf8.scan_iff_text)

lemma nfc_text_iff: "nfc_text t \<longleftrightarrow> utf8_text t \<and> ax_is_nfc t"
proof
  assume "nfc_text t"
  then show "utf8_text t \<and> ax_is_nfc t"
    unfolding nfc_text_def utf8_text_def ax_is_nfc_def using nfc.scan_encodes by blast
next
  assume *: "utf8_text t \<and> ax_is_nfc t"
  then obtain cps where cps: "\<forall>cp\<in>set cps. is_scalar cp" "t = concat (map utf8_encode cps)"
    by (auto simp: utf8_text_def)
  with * show "nfc_text t"
    unfolding nfc_text_def ax_is_nfc_def by (auto simp: nfc.scan_encodes)
qed

lemma clean_text_iff:
  "clean_text t \<longleftrightarrow> utf8_text t \<and> \<not> ax_contains_forbidden_control t \<and> ax_is_nfc t"
proof
  assume "clean_text t"
  then obtain cps where cps: "\<forall>cp\<in>set cps. plain_cp cp" "t = concat (map utf8_encode cps)"
    by (auto simp: clean_text_def)
  then have sc: "\<forall>cp\<in>set cps. is_scalar cp" by (simp add: plain_cp_def)
  have "\<not> ax_contains_forbidden_control t"
    using cps by (auto simp: forbidden_control_encodes [OF sc] plain_cp_def)
  moreover have "ax_is_nfc t"
    using cps by (auto simp: ax_is_nfc_def nfc.scan_encodes [OF sc] plain_cp_def)
  ultimately show "utf8_text t \<and> \<not> ax_contains_forbidden_control t \<and> ax_is_nfc t"
    using sc cps(2) unfolding utf8_text_def by blast
next
  assume *: "utf8_text t \<and> \<not> ax_contains_forbidden_control t \<and> ax_is_nfc t"
  then obtain cps where sc: "\<forall>cp\<in>set cps. is_scalar cp" and t: "t = concat (map utf8_encode cps)"
    by (auto simp: utf8_text_def)
  have "\<forall>cp\<in>set cps. plain_cp cp"
    using * sc unfolding t ax_is_nfc_def nfc.scan_encodes [OF sc] forbidden_control_encodes [OF sc]
    by (auto simp: plain_cp_def)
  then show "clean_text t" using t unfolding clean_text_def by blast
qed

lemma clean_text_nfc: "clean_text t \<Longrightarrow> nfc_text t"
  by (simp add: clean_text_iff nfc_text_iff)

lemma clean_text_bytes:
  assumes "clean_text t" "c \<in> set t"
  shows "c \<noteq> 0" "c \<noteq> 0x0D" "c \<noteq> 0x7F"
  using assms by (auto simp: clean_text_iff forbidden_control_iff)

lemma validate_encoding_iff: "ax_validate_encoding t = (if nfc_text t then AX_OK else AX_ERR_ENCODING)"
  by (auto simp: ax_validate_encoding_def nfc_text_iff validate_utf8_iff)

text \<open>
  The whole of \<open>ax_validate_and_normalise\<close> for a destination that exists and a
  source whose length is an \<open>int\<close>.
\<close>

lemma validate_and_normalise_eq:
  assumes "n \<noteq> 0" "length src < 2 ^ 31"
  shows "ax_validate_and_normalise n src f = Some
    (if \<not> utf8_text src then (AX_ERR_ENCODING, [], f\<lparr>f_encoding := 1\<rparr>)
     else if unat n \<le> length (lf_norm src) then
       (AX_ERR_BUFFER, take (unat n - 1) (lf_norm src), f\<lparr>f_size := 1\<rparr>)
     else if clean_text (lf_norm src) then (int (length (lf_norm src)), lf_norm src @ [0], f)
     else (AX_ERR_ENCODING, lf_norm src @ [0], f\<lparr>f_encoding := 1\<rparr>))"
proof -
  have len: "length (lf_norm src) < 2 ^ 31"
    using assms(2) length_norm_eol [of "0x0D" "0x0A" src] by linarith
  then have "unat (of_nat (length (lf_norm src)) :: size_t) = length (lf_norm src)"
    by (intro unat_of_nat_size) simp
  with len have "int_of_size (of_nat (length (lf_norm src))) = int (length (lf_norm src))"
    by simp
  then show ?thesis
    using utf8_text_lf_norm [of src]
    by (simp add: ax_validate_and_normalise_def validate_utf8_iff normalise_correct [OF assms(1)]
        clean_text_iff rc_defs del: int_of_size_small)
qed

lemma norm_eol_prefix:
  assumes "norm_eol cr lf s = a @ r" "lf \<notin> set a"
  shows "\<exists>s'. s = a @ s' \<and> norm_eol cr lf s' = r"
  using assms
proof (induction a arbitrary: s)
  case (Cons x a)
  then obtain y t where s: "s = y # t" by (cases s) auto
  have "y \<noteq> cr"
    using Cons.prems s by (cases t) auto
  with Cons s show ?case by (auto simp: norm_eol_Cons)
qed simp

lemma norm_eol_at_lf:
  assumes "norm_eol cr lf s = lf # r"
  shows "\<exists>e s'. s = e @ s' \<and> norm_eol cr lf s' = r \<and> e \<in> {[lf], [cr], [cr, lf]}"
proof (cases s)
  case (Cons x t)
  show ?thesis
  proof (cases "x = cr")
    case False
    with assms Cons show ?thesis by (intro exI [of _ "[lf]"] exI [of _ t]) (simp add: norm_eol_Cons)
  next
    case True
    show ?thesis
    proof (cases t)
      case Nil
      with assms Cons True show ?thesis by auto
    next
      case t: (Cons y u)
      show ?thesis
      proof (cases "y = lf")
        case True
        with assms Cons t \<open>x = cr\<close> show ?thesis by (intro exI [of _ "[cr, lf]"] exI [of _ u]) simp
      next
        case False
        with assms Cons t \<open>x = cr\<close> show ?thesis by (intro exI [of _ "[cr]"] exI [of _ t]) simp
      qed
    qed
  qed
qed (use assms in simp)

lemma utf8_text_eols: "utf8_text [0x0A]" "utf8_text [0x0D]" "utf8_text [0x0D, 0x0A]"
proof -
  have sc: "is_scalar 10" "is_scalar 13" by (simp_all add: is_scalar_def)
  then show "utf8_text [0x0A]" "utf8_text [0x0D]" "utf8_text [0x0D, 0x0A]"
    unfolding utf8_text_def
    by (intro exI [of _ "[10]"], simp add: utf8_encode_CR_LF)
      (intro exI [of _ "[13]"], simp add: utf8_encode_CR_LF sc,
       intro exI [of _ "[13, 10]"], simp add: utf8_encode_CR_LF sc)
qed

lemma lf_norm_encodes_utf8:
  "lf_norm s = concat (map utf8_encode cps) \<Longrightarrow> \<forall>cp\<in>set cps. is_scalar cp \<Longrightarrow> utf8_text s"
proof (induction cps arbitrary: s)
  case Nil
  then show ?case by simp
next
  case (Cons cp cps)
  show ?case
  proof (cases "cp = 10")
    case True
    then obtain e s' where "s = e @ s'" "lf_norm s' = concat (map utf8_encode cps)" "e \<in> {[0x0A], [0x0D], [0x0D, 0x0A]}"
      using Cons.prems(1) norm_eol_at_lf [of "0x0D" "0x0A" s] by (auto simp: utf8_encode_CR_LF)
    with Cons utf8_text_eols show ?thesis by (auto intro: utf8_text_append)
  next
    case False
    then have "0x0A \<notin> set (utf8_encode cp)"
      using Cons.prems(2) encode_ascii_byte [of cp "0x0A"] by auto
    then obtain s' where "s = utf8_encode cp @ s'" "lf_norm s' = concat (map utf8_encode cps)"
      using Cons.prems(1) norm_eol_prefix [of "0x0D" "0x0A" s "utf8_encode cp"] by auto
    moreover have "utf8_text (utf8_encode cp)"
      using Cons.prems(2) unfolding utf8_text_def by (intro exI [of _ "[cp]"]) simp
    ultimately show ?thesis using Cons by (auto intro: utf8_text_append)
  qed
qed

lemma utf8_text_lf_norm_iff: "utf8_text (lf_norm s) \<longleftrightarrow> utf8_text s"
  using utf8_text_lf_norm lf_norm_encodes_utf8 unfolding utf8_text_def by blast

section \<open>Properties\<close>

text \<open>
  C23: \<open>ax_validate_utf8\<close> accepts exactly the well-formed UTF-8 of RFC 3629: a byte
  string is accepted if and only if it is the encoding of a sequence of Unicode
  scalar values (no surrogates, nothing above U+10FFFF, shortest forms only),
  and that sequence is then unique.
\<close>

theorem utf8_validation_correct:
  "ax_validate_utf8 data \<longleftrightarrow>
     (\<exists>!cps. list_all is_scalar cps \<and> data = concat (map utf8_encode cps))"
proof -
  have "utf8_text data \<longleftrightarrow> (\<exists>!cps. list_all is_scalar cps \<and> data = concat (map utf8_encode cps))"
    unfolding utf8_text_def list_all_iff using utf8_decode_unique by metis
  then show ?thesis by (simp add: validate_utf8_iff)
qed

text \<open>
  \<open>ax_validate_encoding\<close> returns \<open>AX_OK\<close> exactly for UTF-8 text none of whose
  scalar values lies in the combining blocks the NFC check knows, and
  \<open>AX_ERR_ENCODING\<close> for everything else.  (It does not look at control
  characters.)
\<close>

theorem encoding_validation_spec:
  "ax_validate_encoding data = (if nfc_text data then AX_OK else AX_ERR_ENCODING)"
  by (rule validate_encoding_iff)

text \<open>
  \<open>ax_normalise_line_endings\<close> is undefined (it stores outside the buffer)
  exactly for a destination of size 0; otherwise it produces the text with every
  CR LF and lone CR replaced by LF, NUL-terminated, if this fits, and
  \<open>AX_ERR_BUFFER\<close> with nothing beyond the buffer written if it does not.
\<close>

theorem normalise_line_endings_spec:
  "ax_normalise_line_endings n src =
     (if n = 0 then None
      else Some (if length (lf_norm src) < unat n
        then (int_of_size (of_nat (length (lf_norm src))), lf_norm src @ [0])
        else (AX_ERR_BUFFER, take (unat n - 1) (lf_norm src))))"
proof (cases "n = 0")
  case True
  have "store_at 0 dst 0 c = None" for dst c by (simp add: store_at_def)
  with True show ?thesis
    by (cases src) (auto simp: ax_normalise_line_endings_def word_gt_0 split: list.split)
qed (simp add: normalise_correct)

text \<open>
  C24: \<open>ax_validate_and_normalise\<close>, for a destination that exists and a source of
  less than 2 GiB, returns the length of the normalised text exactly when the
  source is UTF-8, the normalised text fits with its NUL, and it consists of
  plain scalar values only; each failure has its own code and raises its flag.
\<close>

theorem validate_and_normalise_spec:
  assumes "n \<noteq> 0" "length src < 2 ^ 31"
  shows "ax_validate_and_normalise n src f = Some
    (if \<not> utf8_text src then (AX_ERR_ENCODING, [], f\<lparr>f_encoding := 1\<rparr>)
     else if unat n \<le> length (lf_norm src) then
       (AX_ERR_BUFFER, take (unat n - 1) (lf_norm src), f\<lparr>f_size := 1\<rparr>)
     else if clean_text (lf_norm src) then (int (length (lf_norm src)), lf_norm src @ [0], f)
     else (AX_ERR_ENCODING, lf_norm src @ [0], f\<lparr>f_encoding := 1\<rparr>))"
  using assms by (rule validate_and_normalise_eq)

theorem validate_and_normalise_spec_witness:
  "ax_validate_and_normalise 16 [0x61, 0x0D, 0x0A, 0x62] (ax_l3_fault_init ()) =
     Some (3, [0x61, 0x0A, 0x62, 0], ax_l3_fault_init ())"
proof -
  have u: "utf8_text [0x61, 0x0D, 0x0A, 0x62]" unfolding validate_utf8_iff [symmetric] by code_simp
  have c: "clean_text [0x61, 0x0A, 0x62]" unfolding clean_text_iff validate_utf8_iff [symmetric] by code_simp
  show ?thesis
    using validate_and_normalise_spec [of 16 "[0x61, 0x0D, 0x0A, 0x62]" "ax_l3_fault_init ()"] u c by simp
qed

text \<open>
  Normalisation is idempotent and leaves no CR, so a normalised text is its own
  canonical form; and it neither creates nor hides an encoding error.
\<close>

theorem normal_form:
  "ax_validate_utf8 (lf_norm src) = ax_validate_utf8 src \<and> lf_norm (lf_norm src) = lf_norm src \<and> 0x0D \<notin> set (lf_norm src)"
proof -
  have "(0x0D :: byte) \<noteq> 0x0A" by simp
  note no_cr = norm_eol_no_cr [OF this, of src]
  then show ?thesis using norm_eol_id [OF no_cr] by (simp add: validate_utf8_iff utf8_text_lf_norm_iff)
qed

end
