(* ===== verification/Canonical.thy ===== *)
theory Canonical
  imports L3Types
begin

text \<open>
  \<open>src/canonical.c\<close>: the bounded writer, number and hash formatting, string
  escaping and the canonical JSON of parameters and observation records.

  A write context is the record \<open>write_ctx_t\<close>; each write may be undefined
  (\<open>None\<close>) when it would store outside the buffer.  The specification is the
  text itself: \<open>obs_text\<close> is the canonical JSON as a concatenation, and the
  refinement lemmas say that the writer produces exactly this text if it and
  its NUL fit and reports \<open>AX_ERR_BUFFER\<close> otherwise.
\<close>

section \<open>Model: the writer\<close>

record write_ctx_t =
  w_buf :: "byte list"
  w_size :: size_t
  w_pos :: size_t
  w_overflow :: bool

definition write_init :: "size_t \<Rightarrow> write_ctx_t" where
  "write_init sz = \<lparr>w_buf = [], w_size = sz, w_pos = 0, w_overflow = False\<rparr>"

definition write_char :: "write_ctx_t \<Rightarrow> byte \<Rightarrow> write_ctx_t option" where
  "write_char ctx c =
     (if w_pos ctx < w_size ctx - 1 then
        do {
          b \<leftarrow> store_at (w_size ctx) (w_buf ctx) (w_pos ctx) c;
          Some (ctx\<lparr>w_buf := b, w_pos := w_pos ctx + 1\<rparr>)
        }
      else Some (ctx\<lparr>w_overflow := True\<rparr>))"

fun write_str :: "write_ctx_t \<Rightarrow> byte list \<Rightarrow> write_ctx_t option" where
  "write_str ctx [] = Some ctx"
| "write_str ctx (c # s) =
     (if c = 0 then Some ctx
      else do { ctx' \<leftarrow> write_char ctx c; write_str ctx' s })"

definition write_finish :: "write_ctx_t \<Rightarrow> (int \<times> byte list) option" where
  "write_finish ctx =
     (if w_overflow ctx then Some (AX_ERR_BUFFER, w_buf ctx)
      else do {
        b \<leftarrow> store_at (w_size ctx) (w_buf ctx) (w_pos ctx) 0;
        Some (int_of_size (w_pos ctx), b)
      })"

section \<open>Model: numbers and hashes\<close>

text \<open>Digits, least significant first, into the local array \<open>temp[24]\<close>.\<close>

function digit_loop :: "byte list \<Rightarrow> u64 \<Rightarrow> byte list option" where
  "digit_loop temp v =
     (if v > 0 then
        do {
          temp' \<leftarrow> store_at 24 temp (of_nat (length temp)) (48 + ucast (v mod 10));
          digit_loop temp' (v div 10)
        }
      else Some temp)"
  by pat_completeness auto
termination
proof (relation "measure (\<lambda>(_, v). unat v)")
  fix temp :: "byte list" and v :: u64 and temp' :: "byte list"
  assume "0 < v"
  then have "unat v div 10 < unat v" by (simp add: word_less_nat_alt)
  then show "((temp', v div 10), (temp, v)) \<in> measure (\<lambda>(_, v). unat v)"
    by (simp add: unat_div)
qed simp

declare digit_loop.simps [simp del]

text \<open>Storing a run of bytes at the end of what has been stored.\<close>

fun store_all :: "size_t \<Rightarrow> byte list \<Rightarrow> byte list \<Rightarrow> byte list option" where
  "store_all n dst [] = Some dst"
| "store_all n dst (c # s) =
     do { dst' \<leftarrow> store_at n dst (of_nat (length dst)) c; store_all n dst' s }"

definition ax_format_int64 :: "size_t \<Rightarrow> i64 \<Rightarrow> (int \<times> byte list) option" where
  "ax_format_int64 dst_size value =
     (let neg = sint value < 0;
          uval = (if neg then - (value + 1) + 1 else value)
      in do {
        temp \<leftarrow> (if uval = 0 then store_at 24 [] 0 48 else digit_loop [] uval);
        temp' \<leftarrow> (if neg then store_at 24 temp (of_nat (length temp)) 45 else Some temp);
        if of_nat (length temp') \<ge> dst_size then Some (AX_ERR_BUFFER, [])
        else do {
          dst \<leftarrow> store_all dst_size [] (rev temp');
          dst' \<leftarrow> store_at dst_size dst (of_nat (length dst)) 0;
          Some (int (length temp'), dst')
        }
      })"

definition ax_format_uint64 :: "size_t \<Rightarrow> u64 \<Rightarrow> (int \<times> byte list) option" where
  "ax_format_uint64 dst_size value =
     do {
       temp \<leftarrow> (if value = 0 then store_at 24 [] 0 48 else digit_loop [] value);
       if of_nat (length temp) \<ge> dst_size then Some (AX_ERR_BUFFER, [])
       else do {
         dst \<leftarrow> store_all dst_size [] (rev temp);
         dst' \<leftarrow> store_at dst_size dst (of_nat (length dst)) 0;
         Some (int (length temp), dst')
       }
     }"

definition ax_format_q16 :: "size_t \<Rightarrow> i32 \<Rightarrow> (int \<times> byte list) option" where
  "ax_format_q16 dst_size value = ax_format_int64 dst_size (scast value)"

definition hexdigit :: "byte \<Rightarrow> byte" where
  "hexdigit n = str ''0123456789abcdef'' ! unat n"

fun hex_loop :: "size_t \<Rightarrow> byte list \<Rightarrow> size_t \<Rightarrow> byte list \<Rightarrow> byte list option" where
  "hex_loop dst_size dst i [] = Some dst"
| "hex_loop dst_size dst i (h # hs) =
     do {
       dst1 \<leftarrow> store_at dst_size dst (i * 2 + 0) (hexdigit (drop_bit 4 h AND 0x0F));
       dst2 \<leftarrow> store_at dst_size dst1 (i * 2 + 1) (hexdigit (h AND 0x0F));
       hex_loop dst_size dst2 (i + 1) hs
     }"

definition ax_format_hash_hex :: "size_t \<Rightarrow> byte list \<Rightarrow> (int \<times> byte list) option" where
  "ax_format_hash_hex dst_size hash =
     (let hash_len = of_nat (length hash) :: size_t in
      if dst_size < hash_len * 2 + 1 then Some (AX_ERR_BUFFER, [])
      else do {
        dst \<leftarrow> hex_loop dst_size [] 0 hash;
        dst' \<leftarrow> store_at dst_size dst (hash_len * 2) 0;
        Some (int_of_size (hash_len * 2), dst')
      })"

section \<open>Model: escaping, parameters, record\<close>

fun write_escaped :: "write_ctx_t \<Rightarrow> byte list \<Rightarrow> write_ctx_t option" where
  "write_escaped ctx [] = Some ctx"
| "write_escaped ctx (c # s) =
     do {
       ctx' \<leftarrow>
         (if c = 0x22 then write_str ctx [0x5C, 0x22]
          else if c = 0x5C then write_str ctx [0x5C, 0x5C]
          else if c < 0x20 then
            write_str ctx [0x5C, 0x75, 0x30, 0x30,
              hexdigit (drop_bit 4 c AND 0x0F), hexdigit (c AND 0x0F), 0]
          else write_char ctx c);
       write_escaped ctx' s
     }"

definition ax_string_escape :: "size_t \<Rightarrow> byte list \<Rightarrow> (int \<times> byte list) option" where
  "ax_string_escape dst_size src =
     do { ctx \<leftarrow> write_escaped (write_init dst_size) src; write_finish ctx }"

definition ax_params_canonicalise :: "size_t \<Rightarrow> ax_oracle_params_t \<Rightarrow> (int \<times> byte list) option" where
  \<open>ax_params_canonicalise dst_size p =
     do {
       ctx \<leftarrow> write_char (write_init dst_size) 0x7B;
       ctx \<leftarrow> write_str ctx (str ''"max_tokens":'');
       ctx \<leftarrow> (if ax_params_max_tokens_is_null p then write_str ctx (str ''null'')
              else do { (_, num_buf) \<leftarrow> ax_format_int64 24 (scast (p_max_tokens p));
                        write_str ctx num_buf });
       ctx \<leftarrow> write_str ctx (str '',"seed":'');
       ctx \<leftarrow> (if ax_params_seed_is_null p then write_str ctx (str ''null'')
              else do { (_, num_buf) \<leftarrow> ax_format_int64 24 (p_seed p);
                        write_str ctx num_buf });
       ctx \<leftarrow> write_str ctx (str '',"temperature":'');
       ctx \<leftarrow> (if ax_params_temperature_is_null p then write_str ctx (str ''null'')
              else do { (_, num_buf) \<leftarrow> ax_format_q16 24 (p_temperature p);
                        write_str ctx num_buf });
       ctx \<leftarrow> write_str ctx (str '',"top_p":'');
       ctx \<leftarrow> (if ax_params_top_p_is_null p then write_str ctx (str ''null'')
              else do { (_, num_buf) \<leftarrow> ax_format_q16 24 (p_top_p p);
                        write_str ctx num_buf });
       ctx \<leftarrow> write_char ctx 0x7D;
       write_finish ctx
     }\<close>

definition write_completion_state ::
    "write_ctx_t \<Rightarrow> ax_completion_state_t \<Rightarrow> write_ctx_t option" where
  \<open>write_completion_state ctx state =
     (if state = AX_COMPLETION_COMPLETE then write_str ctx (str ''"COMPLETE"'')
      else if state = AX_COMPLETION_TRUNCATED then write_str ctx (str ''"TRUNCATED"'')
      else if state = AX_COMPLETION_ERROR then write_str ctx (str ''"ERROR"'')
      else write_str ctx (str ''"UNKNOWN"''))\<close>

definition write_failure_type :: "write_ctx_t \<Rightarrow> ax_failure_type_t \<Rightarrow> write_ctx_t option" where
  \<open>write_failure_type ctx ftype =
     (if ftype = AX_FAILURE_NULL then write_str ctx (str ''null'')
      else if ftype = AX_FAILURE_TIMEOUT then write_str ctx (str ''"TIMEOUT"'')
      else if ftype = AX_FAILURE_INVALID_OUTPUT then write_str ctx (str ''"INVALID_OUTPUT"'')
      else if ftype = AX_FAILURE_TRANSPORT_ERROR then write_str ctx (str ''"TRANSPORT_ERROR"'')
      else write_str ctx (str ''"UNKNOWN"''))\<close>

text \<open>
  \<open>ax_obs_canonicalise\<close>.  The early returns on a failed formatting step are the
  \<open>if\<close>s with \<open>AX_ERR_BUFFER\<close>; the destination then holds what was written before.
\<close>

definition ax_obs_canonicalise ::
    "size_t \<Rightarrow> ax_obs_record_t \<Rightarrow> bool \<Rightarrow> (int \<times> byte list) option" where
  \<open>ax_obs_canonicalise dst_size obs include_hash =
     do {
       ctx \<leftarrow> write_char (write_init dst_size) 0x7B;
       ctx \<leftarrow> write_str ctx (str ''"completion_state":'');
       ctx \<leftarrow> write_completion_state ctx (completion_state obs);
       ctx \<leftarrow> write_str ctx (str '',"failure_type":'');
       ctx \<leftarrow> write_failure_type ctx (failure_type obs);
       ctx \<leftarrow> write_str ctx (str '',"input_hash":"'');
       (rc, hash_hex) \<leftarrow> ax_format_hash_hex (of_nat AX_HASH_HEX_SIZE) (input_hash obs);
       if rc < 0 then Some (AX_ERR_BUFFER, w_buf ctx) else do {
       ctx \<leftarrow> write_str ctx hash_hex;
       ctx \<leftarrow> write_char ctx 0x22;
       ctx \<leftarrow> write_str ctx (str '',"ledger_seq":'');
       (rc, num_buf) \<leftarrow> ax_format_uint64 24 (ledger_seq obs);
       if rc < 0 then Some (AX_ERR_BUFFER, w_buf ctx) else do {
       ctx \<leftarrow> write_str ctx num_buf;
       ctx \<leftarrow> write_str ctx (str '',"model_id":"'');
       ctx \<leftarrow> (case model_id obs of Some s \<Rightarrow> write_escaped ctx (c_str s) | None \<Rightarrow> Some ctx);
       ctx \<leftarrow> write_char ctx 0x22;
       ctx \<leftarrow> write_str ctx (str '',"obs_hash":"'');
       ctx \<leftarrow> (if include_hash \<and> c_str (obs_hash obs) \<noteq> [] then write_str ctx (obs_hash obs)
              else Some ctx);
       ctx \<leftarrow> write_char ctx 0x22;
       ctx \<leftarrow> write_str ctx (str '',"oracle_id":"'');
       ctx \<leftarrow> (case oracle_id obs of Some s \<Rightarrow> write_escaped ctx (c_str s) | None \<Rightarrow> Some ctx);
       ctx \<leftarrow> write_char ctx 0x22;
       ctx \<leftarrow> write_str ctx (str '',"output":"'');
       ctx \<leftarrow> (case obs_output obs of Some s \<Rightarrow> write_escaped ctx (c_str s) | None \<Rightarrow> Some ctx);
       ctx \<leftarrow> write_char ctx 0x22;
       ctx \<leftarrow> write_str ctx (str '',"output_size":'');
       (rc, num_buf) \<leftarrow> ax_format_uint64 24 (output_size obs);
       if rc < 0 then Some (AX_ERR_BUFFER, w_buf ctx) else do {
       ctx \<leftarrow> write_str ctx num_buf;
       ctx \<leftarrow> write_str ctx (str '',"params":'');
       (rc, params_buf) \<leftarrow> ax_params_canonicalise (of_nat AX_PARAMS_BUFFER_SIZE) (params obs);
       if rc < 0 then Some (AX_ERR_BUFFER, w_buf ctx) else do {
       ctx \<leftarrow> write_str ctx params_buf;
       ctx \<leftarrow> write_str ctx (str '',"schema_version":"'');
       ctx \<leftarrow> (case schema_version obs of Some s \<Rightarrow> write_str ctx s | None \<Rightarrow> Some ctx);
       ctx \<leftarrow> write_char ctx 0x22;
       ctx \<leftarrow> write_char ctx 0x7D;
       write_finish ctx
       }}}}
     }\<close>

section \<open>What the writer does\<close>

text \<open>The context after the text \<open>t\<close> has been requested of a buffer of \<open>n\<close> bytes.\<close>

definition wctx :: "size_t \<Rightarrow> byte list \<Rightarrow> write_ctx_t" where
  "wctx n t = \<lparr>w_buf = take (unat n - 1) t, w_size = n,
     w_pos = of_nat (min (length t) (unat n - 1)), w_overflow = (unat n - 1 < length t)\<rparr>"

definition wst :: "size_t \<Rightarrow> byte list \<Rightarrow> write_ctx_t option" where
  "wst n t = (if n = 0 \<and> t \<noteq> [] then None else Some (wctx n t))"

lemma write_init_wctx [sink_eqs]: "write_init n = wctx n []"
  by (simp add: write_init_def wctx_def)

lemma unat_wpos: "unat (of_nat (min (length t) (unat n - 1)) :: size_t) = min (length t) (unat n - 1)"
  for n :: size_t
  by (rule unat_of_nat_size) (use unat_size_less [of n] in auto)

lemma write_char_wctx [sink_eqs]:
  assumes "n \<noteq> 0"
  shows "write_char (wctx n t) c = Some (wctx n (t @ [c]))"
proof (cases "length t < unat n - 1")
  case True
  then have guard: "of_nat (length t) < n - 1" "of_nat (length t) < n" "unat (of_nat (length t) :: size_t) = length t"
    using unat_wpos [of t n] assms by (simp_all add: word_less_nat_alt unat_pred)
  with True guard show ?thesis
    by (simp add: write_char_def wctx_def min_def store_at_append)
next
  case False
  then have "\<not> w_pos (wctx n t) < n - 1"
    using unat_wpos [of t n] assms by (simp add: wctx_def word_less_nat_alt unat_pred)
  with False show ?thesis by (simp add: write_char_def) (simp add: wctx_def)
qed

lemma write_char_zero: "write_char (wctx 0 []) c = None"
  by (simp add: write_char_def wctx_def store_at_def word_gt_0)

lemma write_str_wctx [sink_eqs]: "n \<noteq> 0 \<Longrightarrow> write_str (wctx n t) s = Some (wctx n (t @ c_str s))"
  by (induction s arbitrary: t) (simp_all add: write_char_wctx)

lemma write_finish_wctx [sink_eqs]:
  assumes "n \<noteq> 0"
  shows "write_finish (wctx n t) = Some
    (if length t < unat n then (int_of_size (of_nat (length t)), t @ [0])
     else (AX_ERR_BUFFER, take (unat n - 1) t))"
proof -
  have pos: "0 < unat n" using assms by (simp add: unat_gt_0)
  show ?thesis
  proof (cases "length t < unat n")
    case True
    then have "min (length t) (unat n - 1) = length t" by simp
    moreover from this have "unat (of_nat (length t) :: size_t) = length t"
      using unat_wpos [of t n] by simp
    ultimately show ?thesis
      using True by (simp add: write_finish_def wctx_def store_at_append word_less_nat_alt)
  next
    case False
    with pos have "unat n - 1 < length t" by linarith
    with False show ?thesis by (simp add: write_finish_def wctx_def)
  qed
qed

interpretation writer: text_sink "\<lambda>w s. w \<bind> (\<lambda>ctx. write_str ctx s)" "wst n"
proof
  fix s t :: "byte list"
  assume s: "0 \<notin> set s"
  show "wst n t \<bind> (\<lambda>ctx. write_str ctx s) = wst n (t @ s)"
  proof (cases "n = 0")
    case False
    with s show ?thesis by (simp add: wst_def write_str_wctx)
  next
    case True
    with s show ?thesis by (cases s) (auto simp: wst_def write_char_zero)
  qed
qed

section \<open>Numbers\<close>

definition dec_int :: "int \<Rightarrow> byte list" where
  "dec_int i = (if i < 0 then 45 # dec (nat (- i)) else dec (nat i))"

lemma unat_nonneg: "0 \<le> sint v \<Longrightarrow> unat v = nat (sint v)" for v :: i64
proof -
  assume "0 \<le> sint v"
  moreover have "sint v < 2 ^ 63" using sint_lt [of v] by simp
  ultimately have "uint v = sint v"
    unfolding uint_sint [of v] by (intro take_bit_int_eq_self) simp_all
  then show ?thesis by (simp add: unat_eq_nat_uint)
qed

lemma unat_neg: "sint v < 0 \<Longrightarrow> unat (- v) = nat (- sint v)" for v :: i64
proof -
  assume neg: "sint v < 0"
  have "- (2 ^ 63) \<le> sint v" using sint_ge [of v] by simp
  with neg have "take_bit 64 (- sint v) = - sint v"
    by (intro take_bit_int_eq_self) simp_all
  moreover have "- v = of_int (- sint v)" by simp
  then have "uint (- v) = take_bit 64 (- sint v)"
    by (simp only: unsigned_of_int) simp
  ultimately show ?thesis by (simp add: unat_eq_nat_uint)
qed

lemma digit_byte: "48 + ucast (v mod 10 :: u64) = (48 + of_nat (unat v mod 10) :: byte)"
proof -
  have "unat v mod 10 = unat (v mod 10 :: u64)" by (simp add: unat_mod)
  then show ?thesis by (simp only: of_nat_unat)
qed

lemma digit_loop_correct:
  assumes "v \<noteq> 0" "length temp + length (dec (unat v)) \<le> 24"
  shows "digit_loop temp v = Some (temp @ rev (dec (unat v)))"
  using assms
proof (induction temp v rule: digit_loop.induct)
  case (1 temp v)
  let ?d = "48 + of_nat (unat v mod 10) :: byte"
  have v: "0 < v" using "1.prems" by (simp add: word_gt_0)
  have "length temp < 24" using "1.prems"(2) by (cases "dec (unat v)") auto
  then have st: "store_at 24 temp (of_nat (length temp)) ?d = Some (temp @ [?d])"
    by (intro store_at_append) (simp_all add: unat_of_nat_size word_less_nat_alt)
  show ?case
  proof (cases "unat v < 10")
    case True
    then have "unat (v div 10) = 0" by (simp add: unat_div)
    then have "v div 10 = 0" by (simp add: unat_0_iff)
    with True v st show ?thesis
      by (simp add: digit_loop.simps [of temp v] digit_loop.simps [of _ 0] digit_byte dec.simps [of "unat v"])
  next
    case False
    then have "unat (v div 10) \<noteq> 0" by (simp add: unat_div)
    then have nz: "v div 10 \<noteq> 0" by (metis unat_0)
    have d: "dec (unat v) = dec (unat (v div 10)) @ [?d]"
      using False by (simp add: dec.simps [of "unat v"] unat_div)
    have "digit_loop (temp @ [?d]) (v div 10) = Some ((temp @ [?d]) @ rev (dec (unat (v div 10))))"
      using "1.prems"(2) nz v st by (intro "1.IH") (simp_all add: d digit_byte)
    with v st show ?thesis by (simp add: digit_loop.simps [of temp v] digit_byte d)
  qed
qed

lemma digits_correct:
  "(if v = 0 then store_at 24 [] 0 48 else digit_loop [] v) = Some (rev (dec (unat v)))"
  using digit_loop_correct [of v "[]"] length_dec_u64 [of v]
  by (auto simp: store_at_append word_less_nat_alt dec.simps [of 0])

lemma store_all_correct:
  "length dst + length s \<le> unat n \<Longrightarrow> store_all n dst s = Some (dst @ s)"
proof (induction s arbitrary: dst)
  case (Cons c s)
  then have "unat (of_nat (length dst) :: size_t) = length dst"
    using unat_size_less [of n] by (intro unat_of_nat_size) simp
  with Cons.prems have "store_at n dst (of_nat (length dst)) c = Some (dst @ [c])"
    by (intro store_at_append) (simp_all add: word_less_nat_alt)
  with Cons show ?case by simp
qed simp

text \<open>The tail the two formatters share: size check, reversal, NUL.\<close>

lemma emit_digits:
  assumes "length t \<le> 24"
  shows "(if n \<le> of_nat (length (rev t)) then Some (AX_ERR_BUFFER, [])
    else do {
      dst \<leftarrow> store_all n [] (rev (rev t));
      dst' \<leftarrow> store_at n dst (of_nat (length dst)) 0;
      Some (int (length (rev t)), dst')
    }) = Some (if length t < unat n then (int (length t), t @ [0]) else (AX_ERR_BUFFER, []))"
proof -
  have u: "unat (of_nat (length t) :: size_t) = length t"
    using assms by (simp add: unat_of_nat_size)
  then show ?thesis
    by (simp add: store_all_correct store_at_append word_less_nat_alt word_le_nat_alt)
qed

lemma format_uint64_eq:
  "ax_format_uint64 n v = Some
    (if length (dec (unat v)) < unat n then (int (length (dec (unat v))), dec (unat v) @ [0])
     else (AX_ERR_BUFFER, []))"
  unfolding ax_format_uint64_def digits_correct bind.bind_lunit
  using length_dec_u64 [of v] by (intro emit_digits) simp

lemma length_dec_int: "length (dec_int (sint (v :: i64))) \<le> 21"
proof (cases "sint v < 0")
  case True
  then show ?thesis using length_dec_u64 [of "- v"] by (simp add: dec_int_def unat_neg)
next
  case False
  then show ?thesis using length_dec_u64 [of v] by (simp add: dec_int_def unat_nonneg)
qed

lemma format_int64_eq:
  "ax_format_int64 n v = Some
    (if length (dec_int (sint v)) < unat n then (int (length (dec_int (sint v))), dec_int (sint v) @ [0])
     else (AX_ERR_BUFFER, []))"
proof (cases "sint v < 0")
  case True
  have eq: "- (v + 1) + 1 = - v" by simp
  have t: "dec_int (sint v) = 45 # dec (unat (- v))" using True by (simp add: dec_int_def unat_neg)
  have "length (dec (unat (- v))) < 24" using length_dec_u64 [of "- v"] by simp
  then have st: "store_at 24 (rev (dec (unat (- v)))) (of_nat (length (rev (dec (unat (- v)))))) 45 =
      Some (rev (45 # dec (unat (- v))))"
    by (simp add: store_at_append unat_of_nat_size word_less_nat_alt)
  show ?thesis
    unfolding ax_format_int64_def Let_def eq if_P [OF True] digits_correct bind.bind_lunit st t [symmetric]
    using length_dec_int [of v] by (intro emit_digits) simp
next
  case False
  have t: "dec_int (sint v) = dec (unat v)" using False by (simp add: dec_int_def unat_nonneg)
  show ?thesis
    unfolding ax_format_int64_def Let_def if_not_P [OF False] digits_correct bind.bind_lunit t [symmetric]
    using length_dec_int [of v] by (intro emit_digits) simp
qed

section \<open>Hexadecimal text\<close>

definition hex_byte :: "byte \<Rightarrow> byte list" where
  "hex_byte h = [hexdigit (drop_bit 4 h AND 0x0F), hexdigit (h AND 0x0F)]"

definition hex_text :: "byte list \<Rightarrow> byte list" where
  "hex_text bs = concat (map hex_byte bs)"

lemma length_hex_text [simp]: "length (hex_text bs) = 2 * length bs"
  by (induction bs) (simp_all add: hex_text_def hex_byte_def)

lemma high_nibble_less: "unat (h :: byte) div 16 < 16"
  using unat_byte_less [of h] by linarith

lemma unat_nibbles: "unat (drop_bit 4 h AND 0x0F :: byte) = unat h div 16" "unat (h AND 0x0F :: byte) = unat h mod 16"
proof -
  have m: "(0x0F :: byte) = mask 4" by (simp add: mask_eq_exp_minus_1)
  show "unat (h AND 0x0F) = unat h mod 16" unfolding m unat_and_low by simp
  have "unat (drop_bit 4 h AND 0x0F) = unat (drop_bit 4 h) mod 16" unfolding m unat_and_low by simp
  also have "unat (drop_bit 4 h) = drop_bit 4 (unat h)" by (rule unat_drop_bit_eq)
  also have "drop_bit 4 (unat h) = unat h div 16" by (simp add: drop_bit_eq_div)
  finally show "unat (drop_bit 4 h AND 0x0F) = unat h div 16"
    using high_nibble_less [of h] by simp
qed

lemma hexdigits: "str ''0123456789abcdef'' =
    [48, 49, 50, 51, 52, 53, 54, 55, 56, 57, 97, 98, 99, 100, 101, 102]"
  by (simp add: str_def)

lemma distinct_hexdigits: "distinct (str ''0123456789abcdef'')" "length (str ''0123456789abcdef'') = 16"
  by (simp_all add: hexdigits)

lemma hexdigit_eq_iff: "unat a < 16 \<Longrightarrow> unat b < 16 \<Longrightarrow> hexdigit a = hexdigit b \<longleftrightarrow> a = b"
  unfolding hexdigit_def using nth_eq_iff_index_eq [OF distinct_hexdigits(1), of "unat a" "unat b"]
  by (auto simp: distinct_hexdigits(2) dest: unsigned_word_eqI)

lemma hexdigit_in: "unat a < 16 \<Longrightarrow> hexdigit a \<in> set (str ''0123456789abcdef'')"
  unfolding hexdigit_def by (rule nth_mem) (simp add: distinct_hexdigits)

lemma hex_byte_eq_iff [simp]: "hex_byte a = hex_byte b \<longleftrightarrow> a = b"
proof
  assume "hex_byte a = hex_byte b"
  then have "drop_bit 4 a AND 0x0F = (drop_bit 4 b AND 0x0F)" "a AND 0x0F = (b AND 0x0F)"
    by (simp_all add: hex_byte_def hexdigit_eq_iff unat_nibbles high_nibble_less)
  then have "unat a div 16 = unat b div 16" "unat a mod 16 = unat b mod 16"
    by (metis unat_nibbles)+
  then show "a = b" unfolding byte_eq_iff by (metis div_mult_mod_eq)
qed simp

lemma hex_byte_chars: "set (hex_byte h) \<subseteq> set (str ''0123456789abcdef'')"
  using hexdigit_in by (simp add: hex_byte_def unat_nibbles high_nibble_less)

lemma hex_text_chars:
  assumes "c \<in> set (hex_text bs)"
  shows "48 \<le> unat c \<and> unat c < 103"
proof -
  obtain h where "c \<in> set (hex_byte h)" using assms by (auto simp: hex_text_def)
  then have "c \<in> set (str ''0123456789abcdef'')" using hex_byte_chars by blast
  then show ?thesis unfolding hexdigits by auto
qed

lemma zero_notin_hex_text [simp]: "0 \<notin> set (hex_text bs)"
  using hex_text_chars [of 0 bs] by auto

lemma hex_text_Cons: "hex_text (h # hs) = hex_byte h @ hex_text hs"
  by (simp add: hex_text_def)

lemma hex_text_inject [simp]: "hex_text a = hex_text b \<longleftrightarrow> a = b"
proof
  show "hex_text a = hex_text b \<Longrightarrow> a = b"
  proof (induction a arbitrary: b)
    case Nil
    then show ?case by (metis length_hex_text length_0_conv mult_is_0 zero_neq_numeral)
  next
    case (Cons x a)
    from Cons.prems have "length (x # a) = length b" by (metis length_hex_text mult_cancel1 zero_neq_numeral)
    then obtain y b' where b: "b = y # b'" by (cases b) auto
    have "length (hex_byte x) = length (hex_byte y)" by (simp add: hex_byte_def)
    with Cons b show ?case by (simp add: hex_text_Cons)
  qed
qed simp

lemma hex_loop_correct:
  assumes "length dst = 2 * k" "2 * (k + length hs) < unat n"
  shows "hex_loop n dst (of_nat k) hs = Some (dst @ hex_text hs)"
  using assms
proof (induction hs arbitrary: dst k)
  case (Cons h hs)
  have lt: "2 * (k + length hs) + 2 < 2 ^ 64" using Cons.prems(2) unat_size_less [of n] by simp
  have i: "of_nat k * 2 + 0 = (of_nat (2 * k) :: size_t)" "of_nat k * 2 + 1 = (of_nat (2 * k + 1) :: size_t)"
    by simp_all
  have u: "unat (of_nat (2 * k) :: size_t) = 2 * k" "unat (of_nat (2 * k + 1) :: size_t) = 2 * k + 1"
    using lt by (intro unat_of_nat_size; simp)+
  have s: "store_at n dst (of_nat (2 * k)) a = Some (dst @ [a])"
    "store_at n (dst @ [a]) (of_nat (2 * k + 1)) b = Some (dst @ [a, b])" for a b
    using Cons.prems u by (simp_all add: store_at_append word_less_nat_alt del: of_nat_mult of_nat_add)
  have "hex_loop n (dst @ hex_byte h) (of_nat (Suc k)) hs = Some ((dst @ hex_byte h) @ hex_text hs)"
    using Cons.prems by (intro Cons.IH) (simp_all add: hex_byte_def)
  then show ?case
    by (simp only: hex_loop.simps i s bind.bind_lunit)
      (simp add: hex_text_def hex_byte_def add.commute)
qed (simp add: hex_text_def)

lemma format_hash_hex_eq:
  assumes "length hash < 2 ^ 30"
  shows "ax_format_hash_hex n hash = Some
    (if 2 * length hash < unat n then (int (2 * length hash), hex_text hash @ [0])
     else (AX_ERR_BUFFER, []))"
proof -
  have e: "of_nat (length hash) * 2 + 1 = (of_nat (2 * length hash + 1) :: size_t)"
    "of_nat (length hash) * 2 = (of_nat (2 * length hash) :: size_t)" by simp_all
  have u: "unat (of_nat (2 * length hash + 1) :: size_t) = 2 * length hash + 1"
    "unat (of_nat (2 * length hash) :: size_t) = 2 * length hash"
    using assms by (intro unat_of_nat_size; simp)+
  have i: "int_of_size (of_nat (2 * length hash)) = int (2 * length hash)"
    using assms u by simp
  have g: "n < of_nat (2 * length hash + 1) \<longleftrightarrow> \<not> 2 * length hash < unat n"
    unfolding word_less_nat_alt u by linarith
  show ?thesis
  proof (cases "2 * length hash < unat n")
    case True
    then have "store_at n (hex_text hash) (of_nat (2 * length hash)) 0 = Some (hex_text hash @ [0])"
      using u by (intro store_at_append) (simp_all add: word_less_nat_alt)
    with True hex_loop_correct [of "[]" 0 hash n] g show ?thesis
      unfolding ax_format_hash_hex_def Let_def e i by (simp add: add.commute del: of_nat_mult of_nat_add)
  next
    case False
    with g show ?thesis unfolding ax_format_hash_hex_def Let_def e by (simp add: add.commute)
  qed
qed

section \<open>Escaping\<close>

definition esc_byte :: "byte \<Rightarrow> byte list" where
  "esc_byte c =
     (if c = 0x22 then [0x5C, 0x22]
      else if c = 0x5C then [0x5C, 0x5C]
      else if c < 0x20 then [0x5C, 0x75, 0x30, 0x30] @ hex_byte c
      else [c])"

definition escape :: "byte list \<Rightarrow> byte list" where
  "escape s = concat (map esc_byte s)"

lemma zero_notin_hex_byte [simp]: "0 \<notin> set (hex_byte h)"
  using zero_notin_hex_text [of "[h]"] by (simp add: hex_text_def)

lemma hex_byte_append_inject: "hex_byte a @ x = hex_byte b @ y \<Longrightarrow> a = b"
  by (simp add: hex_byte_def) (metis hex_byte_def hex_byte_eq_iff)

lemma esc_byte_prefix_free: "esc_byte a @ x = esc_byte b @ y \<Longrightarrow> a = b"
  by (auto simp: esc_byte_def dest: hex_byte_append_inject split: if_splits)

interpretation canon: escaping_sink "\<lambda>w s. w \<bind> (\<lambda>ctx. write_str ctx s)" "wst n" esc_byte
proof
  fix c :: byte
  show "0 \<notin> set (esc_byte c)" by (auto simp: esc_byte_def)
  show "esc_byte c \<noteq> [] \<and> hd (esc_byte c) \<noteq> 0x22" by (simp add: esc_byte_def)
qed (rule esc_byte_prefix_free)

lemma write_str_nul: "write_str ctx (s @ [0]) = write_str ctx s"
  by (induction s arbitrary: ctx) auto

lemma write_str_single: "\<not> c < 0x20 \<Longrightarrow> write_str ctx [c] = write_char ctx c"
  by (cases "c = 0") auto

lemma write_escaped_foldl:
  "write_escaped ctx s = foldl (\<lambda>w c. w \<bind> (\<lambda>ctx. write_str ctx (esc_byte c))) (Some ctx) s"
proof (induction s arbitrary: ctx)
  case (Cons c s)
  have none: "foldl (\<lambda>w c. w \<bind> (\<lambda>ctx. write_str ctx (esc_byte c))) None s = None"
    by (induction s) auto
  have one: "(if c = 0x22 then write_str ctx [0x5C, 0x22]
      else if c = 0x5C then write_str ctx [0x5C, 0x5C]
      else if c < 0x20 then write_str ctx [0x5C, 0x75, 0x30, 0x30,
          hexdigit (drop_bit 4 c AND 0x0F), hexdigit (c AND 0x0F), 0]
      else write_char ctx c) = write_str ctx (esc_byte c)"
    using write_str_nul [of ctx "[0x5C, 0x75, 0x30, 0x30] @ hex_byte c"]
    by (auto simp: esc_byte_def hex_byte_def write_str_single simp del: write_str.simps(2))
  show ?case
    by (simp only: write_escaped.simps one foldl.simps bind.bind_lunit Cons.IH)
      (cases "write_str ctx (esc_byte c)"; simp add: none)
qed simp

lemma write_escaped_wctx [sink_eqs]:
  assumes "n \<noteq> 0"
  shows "write_escaped (wctx n t) s = Some (wctx n (t @ escape s))"
  using canon.put_escaped [of n t s] assms by (simp add: write_escaped_foldl wst_def escape_def)

section \<open>The canonical text\<close>

definition opt_text :: "byte list option \<Rightarrow> byte list" where
  "opt_text p = (case p of Some s \<Rightarrow> c_str s | None \<Rightarrow> [])"

definition param_text :: "bool \<Rightarrow> int \<Rightarrow> byte list" where
  "param_text null v = (if null then str ''null'' else dec_int v)"

definition params_text :: "ax_oracle_params_t \<Rightarrow> byte list" where
  \<open>params_text p =
     str ''{"max_tokens":'' @ param_text (ax_params_max_tokens_is_null p) (sint (p_max_tokens p)) @
     str '',"seed":'' @ param_text (ax_params_seed_is_null p) (sint (p_seed p)) @
     str '',"temperature":'' @ param_text (ax_params_temperature_is_null p) (sint (p_temperature p)) @
     str '',"top_p":'' @ param_text (ax_params_top_p_is_null p) (sint (p_top_p p)) @
     str ''}''\<close>

definition completion_text :: "ax_completion_state_t \<Rightarrow> byte list" where
  \<open>completion_text s =
     (if s = AX_COMPLETION_COMPLETE then str ''"COMPLETE"''
      else if s = AX_COMPLETION_TRUNCATED then str ''"TRUNCATED"''
      else if s = AX_COMPLETION_ERROR then str ''"ERROR"''
      else str ''"UNKNOWN"'')\<close>

definition failure_text :: "ax_failure_type_t \<Rightarrow> byte list" where
  \<open>failure_text f =
     (if f = AX_FAILURE_NULL then str ''null''
      else if f = AX_FAILURE_TIMEOUT then str ''"TIMEOUT"''
      else if f = AX_FAILURE_INVALID_OUTPUT then str ''"INVALID_OUTPUT"''
      else if f = AX_FAILURE_TRANSPORT_ERROR then str ''"TRANSPORT_ERROR"''
      else str ''"UNKNOWN"'')\<close>

definition obs_text :: "ax_obs_record_t \<Rightarrow> bool \<Rightarrow> byte list" where
  \<open>obs_text obs h =
     str ''{"completion_state":'' @ completion_text (completion_state obs) @
     str '',"failure_type":'' @ failure_text (failure_type obs) @
     str '',"input_hash":"'' @ hex_text (input_hash obs) @
     str ''","ledger_seq":'' @ dec (unat (ledger_seq obs)) @
     str '',"model_id":"'' @ escape (opt_text (model_id obs)) @
     str ''","obs_hash":"'' @ (if h then c_str (obs_hash obs) else []) @
     str ''","oracle_id":"'' @ escape (opt_text (oracle_id obs)) @
     str ''","output":"'' @ escape (opt_text (obs_output obs)) @
     str ''","output_size":'' @ dec (unat (output_size obs)) @
     str '',"params":'' @ params_text (params obs) @
     str '',"schema_version":"'' @ opt_text (schema_version obs) @
     str ''"}''\<close>

lemma no_nul_dec [simp]: "0 \<notin> set (dec n)"
  using dec_digits [of 0 n] by auto

lemma no_nul_dec_int [simp]: "0 \<notin> set (dec_int i)"
  by (simp add: dec_int_def)

lemma sint_scast_i32: "sint (scast (v :: i32) :: i64) = sint v"
  by (simp add: sint_up_scast is_up)

lemma length_param: "length (param_text b (sint (v :: i64))) \<le> 21"
  using length_dec_int [of v] by (simp add: param_text_def)

lemma length_params_text: "length (params_text p) \<le> 135"
  using length_param [of "ax_params_max_tokens_is_null p" "scast (p_max_tokens p)"]
    length_param [of "ax_params_seed_is_null p" "p_seed p"]
    length_param [of "ax_params_temperature_is_null p" "scast (p_temperature p)"]
    length_param [of "ax_params_top_p_is_null p" "scast (p_top_p p)"]
  by (simp add: params_text_def sint_scast_i32)

lemma canonical_ints:
  "length t \<le> k \<Longrightarrow> k < 2 ^ 31 \<Longrightarrow> int_of_size (of_nat (length t)) = int (length t)"
  using unat_of_nat_size [of "length t"] by simp

lemma write_param_wctx:
  assumes "n \<noteq> 0"
  shows "(if b then write_str (wctx n t) (str ''null'')
     else do { (_, num_buf) \<leftarrow> ax_format_int64 24 v; write_str (wctx n t) num_buf }) =
    Some (wctx n (t @ param_text b (sint v)))"
  using length_dec_int [of v] assms by (simp add: format_int64_eq write_str_wctx param_text_def)

lemma write_param_q16_wctx:
  assumes "n \<noteq> 0"
  shows "(if b then write_str (wctx n t) (str ''null'')
     else do { (_, num_buf) \<leftarrow> ax_format_q16 24 v; write_str (wctx n t) num_buf }) =
    Some (wctx n (t @ param_text b (sint v)))"
  unfolding ax_format_q16_def write_param_wctx [OF assms] by (simp add: sint_scast_i32)

lemma params_canonicalise_eq:
  assumes "n \<noteq> 0"
  shows "ax_params_canonicalise n p = Some
    (if length (params_text p) < unat n then (int (length (params_text p)), params_text p @ [0])
     else (AX_ERR_BUFFER, take (unat n - 1) (params_text p)))"
  using assms canonical_ints [OF length_params_text [of p]]
  by (simp add: ax_params_canonicalise_def sink_eqs write_param_wctx write_param_q16_wctx
      sint_scast_i32 params_text_def str_def)

lemma write_completion_wctx [sink_eqs]:
  "n \<noteq> 0 \<Longrightarrow> write_completion_state (wctx n t) s = Some (wctx n (t @ completion_text s))"
  by (simp add: write_completion_state_def completion_text_def write_str_wctx)

lemma write_failure_wctx [sink_eqs]:
  "n \<noteq> 0 \<Longrightarrow> write_failure_type (wctx n t) f = Some (wctx n (t @ failure_text f))"
  by (simp add: write_failure_type_def failure_text_def write_str_wctx)

lemma write_opt_escaped_wctx [sink_eqs]:
  "n \<noteq> 0 \<Longrightarrow> (case p of None \<Rightarrow> Some (wctx n t) | Some s \<Rightarrow> write_escaped (wctx n t) (c_str s)) =
     Some (wctx n (t @ escape (opt_text p)))"
  by (cases p) (simp_all add: opt_text_def escape_def write_escaped_wctx)

lemma write_opt_wctx [sink_eqs]:
  "n \<noteq> 0 \<Longrightarrow> (case p of None \<Rightarrow> Some (wctx n t) | Some s \<Rightarrow> write_str (wctx n t) s) =
     Some (wctx n (t @ opt_text p))"
  by (cases p) (simp_all add: opt_text_def write_str_wctx)

lemma write_hash_wctx [sink_eqs]:
  "n \<noteq> 0 \<Longrightarrow> (if h \<and> c_str b \<noteq> [] then write_str (wctx n t) b else Some (wctx n t)) =
     Some (wctx n (t @ (if h then c_str b else [])))"
  by (auto simp: write_str_wctx)

lemma format_uint64_24: "ax_format_uint64 24 v = Some (int (length (dec (unat v))), dec (unat v) @ [0])"
  using length_dec_u64 [of v] by (simp add: format_uint64_eq)

lemma params_canonicalise_256:
  "ax_params_canonicalise (of_nat AX_PARAMS_BUFFER_SIZE) p = Some (int (length (params_text p)), params_text p @ [0])"
  using length_params_text [of p] by (simp add: params_canonicalise_eq limit_defs)

lemma format_hash_hex_65:
  "length h = AX_HASH_SIZE \<Longrightarrow> ax_format_hash_hex (of_nat AX_HASH_HEX_SIZE) h = Some (64, hex_text h @ [0])"
  by (simp add: format_hash_hex_eq limit_defs)

lemma no_nul_params_text [simp]: "0 \<notin> set (params_text p)"
  by (auto simp: params_text_def param_text_def str_def)

lemma obs_canonicalise_eq:
  assumes "n \<noteq> 0" "length (input_hash obs) = AX_HASH_SIZE"
  shows "ax_obs_canonicalise n obs h = Some
    (if length (obs_text obs h) < unat n
     then (int_of_size (of_nat (length (obs_text obs h))), obs_text obs h @ [0])
     else (AX_ERR_BUFFER, take (unat n - 1) (obs_text obs h)))"
  using assms
  by (simp add: ax_obs_canonicalise_def sink_eqs format_hash_hex_65 format_uint64_24 params_canonicalise_256
      obs_text_def str_def)

section \<open>The canonical text determines the record\<close>

text \<open>
  Two values are separated by the delimiter \<open>d\<close> if a text that starts with one
  of them and goes on with \<open>d\<close> can be read in one way only.
\<close>

definition separated :: "byte \<Rightarrow> byte list \<Rightarrow> byte list \<Rightarrow> bool" where
  "separated d v v' \<longleftrightarrow> (\<forall>x y. v @ d # x = v' @ d # y \<longrightarrow> v = v' \<and> x = y)"

fun joined :: "(byte list \<times> byte \<times> byte list) list \<Rightarrow> byte list" where
  "joined [] = []"
| "joined ((v, d, l) # r) = v @ d # l @ joined r"

lemma separated_notin: "d \<notin> set v \<Longrightarrow> d \<notin> set v' \<Longrightarrow> separated d v v'"
  using delimited_unique unfolding separated_def by metis

lemma separated_escape: "separated 0x22 (escape s) (escape s')"
  unfolding separated_def escape_def using canon.escaped_unique by blast

lemma joined_unique:
  assumes "list_all2 (\<lambda>(v, d, l) (v', d', l'). d = d' \<and> l = l' \<and> separated d v v') xs ys"
    and "joined xs @ t = joined ys @ t'"
  shows "map fst xs = map fst ys \<and> t = t'"
  using assms
proof (induction xs ys rule: list_all2_induct)
  case (Cons x xs y ys)
  obtain v d l v' where x: "x = (v, d, l)" and y: "y = (v', d, l)" and s: "separated d v v'"
    using Cons.hyps(1) by (cases x; cases y) auto
  from Cons.prems have "v @ d # l @ joined xs @ t = v' @ d # l @ joined ys @ t'"
    by (simp add: x y)
  then have "v = v' \<and> l @ joined xs @ t = l @ joined ys @ t'"
    using s unfolding separated_def by blast
  with Cons.IH show ?case by (simp add: x y)
qed simp

definition obs_fields :: "ax_obs_record_t \<Rightarrow> (byte list \<times> byte \<times> byte list) list" where
  \<open>obs_fields r =
     [(completion_text (completion_state r), 0x2C, str ''"failure_type":''),
      (failure_text (failure_type r), 0x2C, str ''"input_hash":"''),
      (hex_text (input_hash r), 0x22, str '',"ledger_seq":''),
      (dec (unat (ledger_seq r)), 0x2C, str ''"model_id":"''),
      (escape (opt_text (model_id r)), 0x22, str '',"obs_hash":"","oracle_id":"''),
      (escape (opt_text (oracle_id r)), 0x22, str '',"output":"''),
      (escape (opt_text (obs_output r)), 0x22, str '',"output_size":''),
      (dec (unat (output_size r)), 0x2C, str ''"params":{"max_tokens":''),
      (param_text (ax_params_max_tokens_is_null (params r)) (sint (p_max_tokens (params r))), 0x2C, str ''"seed":''),
      (param_text (ax_params_seed_is_null (params r)) (sint (p_seed (params r))), 0x2C, str ''"temperature":''),
      (param_text (ax_params_temperature_is_null (params r)) (sint (p_temperature (params r))), 0x2C, str ''"top_p":''),
      (param_text (ax_params_top_p_is_null (params r)) (sint (p_top_p (params r))), 0x7D, str '',"schema_version":"'')]\<close>

lemma obs_text_fields:
  \<open>obs_text r False =
     str ''{"completion_state":'' @ joined (obs_fields r) @ opt_text (schema_version r) @ str ''"}''\<close>
  by (simp add: obs_text_def obs_fields_def params_text_def str_def)

lemma completion_text_chars: "0x2C \<notin> set (completion_text s)"
  by (simp add: completion_text_def str_def)

lemma failure_text_chars: "0x2C \<notin> set (failure_text s)"
  by (simp add: failure_text_def str_def)

lemma hex_text_quote: "0x22 \<notin> set (hex_text bs)"
  using hex_text_chars [of "0x22" bs] by auto

lemma dec_comma: "0x2C \<notin> set (dec n)"
  using dec_digits [of "0x2C" n] by auto

lemma param_text_chars: "0x2C \<notin> set (param_text b v)" "0x7D \<notin> set (param_text b v)"
  using dec_digits [of "0x7D"] by (auto simp: param_text_def dec_int_def str_def dec_comma)

lemmas field_chars = completion_text_chars failure_text_chars hex_text_quote dec_comma param_text_chars

lemma obs_fields_separated:
  "list_all2 (\<lambda>(v, d, l) (v', d', l'). d = d' \<and> l = l' \<and> separated d v v') (obs_fields a) (obs_fields b)"
  unfolding obs_fields_def by (simp add: separated_notin separated_escape field_chars)

lemma dec_not_minus: "45 # x \<noteq> dec n"
  using dec_digits [of 45 n] by (cases "dec n") auto

lemma dec_int_inject [simp]: "dec_int a = dec_int b \<longleftrightarrow> a = b"
  by (auto simp: dec_int_def dec_not_minus dec_not_minus [THEN not_sym])

lemma dec_int_not_null: "dec_int v \<noteq> str ''null''"
  using dec_digits [of "hd (dec (nat v))" "nat v"] by (cases "dec (nat v)") (auto simp: dec_int_def str_def)

lemma param_text_inject:
  assumes "param_text (a = k) (sint a) = param_text (b = k) (sint b)"
  shows "a = (b :: 'a :: len word)"
  using assms by (auto simp: param_text_def dec_int_not_null dec_int_not_null [THEN not_sym] dest: signed_word_eqI split: if_splits)

definition known_states :: "ax_obs_record_t \<Rightarrow> bool" where
  "known_states r \<longleftrightarrow>
     completion_state r \<in> {AX_COMPLETION_COMPLETE, AX_COMPLETION_TRUNCATED, AX_COMPLETION_ERROR} \<and>
     failure_type r \<in> {AX_FAILURE_NULL, AX_FAILURE_TIMEOUT, AX_FAILURE_INVALID_OUTPUT, AX_FAILURE_TRANSPORT_ERROR}"

text \<open>Two records with the same content: equal in every field but the hash, strings compared as C strings.\<close>

definition same_content :: "ax_obs_record_t \<Rightarrow> ax_obs_record_t \<Rightarrow> bool" where
  "same_content a b \<longleftrightarrow>
     completion_state a = completion_state b \<and> failure_type a = failure_type b \<and>
     input_hash a = input_hash b \<and> ledger_seq a = ledger_seq b \<and>
     opt_text (model_id a) = opt_text (model_id b) \<and> opt_text (oracle_id a) = opt_text (oracle_id b) \<and>
     opt_text (obs_output a) = opt_text (obs_output b) \<and> output_size a = output_size b \<and>
     params a = params b \<and> opt_text (schema_version a) = opt_text (schema_version b)"

lemma state_texts_inject:
  assumes "known_states a" "known_states b"
  shows "completion_text (completion_state a) = completion_text (completion_state b) \<longleftrightarrow>
      completion_state a = completion_state b"
    and "failure_text (failure_type a) = failure_text (failure_type b) \<longleftrightarrow> failure_type a = failure_type b"
  using assms by (auto simp: known_states_def completion_text_def failure_text_def enum_defs str_def)

lemma escape_inject [simp]: "escape a = escape b \<longleftrightarrow> a = b"
  using canon.escaped_inject unfolding escape_def by blast

lemma params_inject:
  assumes "param_text (ax_params_max_tokens_is_null p) (sint (p_max_tokens p)) =
      param_text (ax_params_max_tokens_is_null q) (sint (p_max_tokens q))"
    and "param_text (ax_params_seed_is_null p) (sint (p_seed p)) =
      param_text (ax_params_seed_is_null q) (sint (p_seed q))"
    and "param_text (ax_params_temperature_is_null p) (sint (p_temperature p)) =
      param_text (ax_params_temperature_is_null q) (sint (p_temperature q))"
    and "param_text (ax_params_top_p_is_null p) (sint (p_top_p p)) =
      param_text (ax_params_top_p_is_null q) (sint (p_top_p q))"
  shows "p = q"
proof -
  note assms [unfolded ax_params_max_tokens_is_null_def ax_params_seed_is_null_def
        ax_params_temperature_is_null_def ax_params_top_p_is_null_def, THEN param_text_inject]
  then show ?thesis by simp
qed

lemma obs_text_inject:
  assumes "known_states a" "known_states b" "obs_text a False = obs_text b False"
  shows "same_content a b"
proof -
  let ?tail = "\<lambda>r. opt_text (schema_version r) @ str [CHR 0x22, CHR 0x7D]"
  have "joined (obs_fields a) @ ?tail a = joined (obs_fields b) @ ?tail b"
    using assms(3) unfolding obs_text_fields same_append_eq .
  then have fields: "map fst (obs_fields a) = map fst (obs_fields b)" and tail: "?tail a = ?tail b"
    using joined_unique [OF obs_fields_separated] by blast+
  have "params a = params b"
    by (rule params_inject; use fields in \<open>simp only: obs_fields_def list.map fst_conv list.inject\<close>)
  with fields tail show ?thesis
    by (simp only: obs_fields_def list.map fst_conv list.inject same_content_def append_same_eq
        state_texts_inject [OF assms(1,2)] hex_text_inject dec_inject escape_inject
        word_unat_eq_iff [symmetric] simp_thms)
qed

section \<open>Properties\<close>

definition sample_record :: ax_obs_record_t where
  "sample_record =
     \<lparr>completion_state = AX_COMPLETION_COMPLETE, failure_type = AX_FAILURE_NULL,
      input_hash = replicate AX_HASH_SIZE 0, ledger_seq = 7, model_id = Some (str ''m''), obs_hash = [],
      oracle_id = Some (str ''o''), obs_output = Some (str ''hi''), output_size = 2,
      params = \<lparr>p_max_tokens = 5, p_seed = -1, p_temperature = 0x80000000, p_top_p = 0x80000000\<rparr>,
      schema_version = Some AX_OBS_SCHEMA_VERSION\<rparr>"

lemma sample_record_facts:
  "length (input_hash sample_record) = AX_HASH_SIZE" "known_states sample_record"
  "length (obs_text sample_record False) < 512"
proof -
  show "length (input_hash sample_record) = AX_HASH_SIZE" "known_states sample_record"
    by (simp_all add: sample_record_def known_states_def)
  show "length (obs_text sample_record False) < 512"
    using length_params_text [of "params sample_record"]
    by (simp add: obs_text_def sample_record_def completion_text_def failure_text_def enum_defs limit_defs
        dec.simps opt_text_def escape_def esc_byte_def str_def AX_OBS_SCHEMA_VERSION_def)
qed

text \<open>
  C21: \<open>ax_obs_canonicalise\<close> refines the canonical text: for a non-empty buffer and a
  32-byte input hash it never stores out of bounds, writes exactly \<open>obs_text\<close>
  and a NUL if they fit, and otherwise reports \<open>AX_ERR_BUFFER\<close> with a prefix of
  that text in the buffer.
\<close>

theorem obs_canonicalise_refines:
  assumes "n \<noteq> 0" "length (input_hash obs) = AX_HASH_SIZE"
  shows "ax_obs_canonicalise n obs h = Some
    (if length (obs_text obs h) < unat n
     then (int_of_size (of_nat (length (obs_text obs h))), obs_text obs h @ [0])
     else (AX_ERR_BUFFER, take (unat n - 1) (obs_text obs h)))"
  using assms by (rule obs_canonicalise_eq)

theorem obs_canonicalise_refines_witness:
  "ax_obs_canonicalise 512 sample_record False =
     Some (int_of_size (of_nat (length (obs_text sample_record False))), obs_text sample_record False @ [0])"
  using obs_canonicalise_refines [of 512 sample_record False] sample_record_facts by simp

text \<open>
  C22: The canonical form determines the record: if the canonical JSON (without hash)
  of two records with declared enumeration values comes out the same, the
  records agree in every field - in the parameters value by value, null
  included, and in the strings as C strings.
\<close>

theorem canonical_form_injective:
  assumes "known_states a" "known_states b"
    and "length (input_hash a) = AX_HASH_SIZE" "length (input_hash b) = AX_HASH_SIZE" "n \<noteq> 0"
    and "ax_obs_canonicalise n a False = Some (k, t)" "k \<noteq> AX_ERR_BUFFER"
    and "ax_obs_canonicalise n b False = Some (l, t)" "l \<noteq> AX_ERR_BUFFER"
  shows "same_content a b"
proof -
  have "t = obs_text a False @ [0]" "t = obs_text b False @ [0]"
    using assms(6-9) unfolding obs_canonicalise_eq [OF assms(5,3)] obs_canonicalise_eq [OF assms(5,4)]
    by (auto split: if_splits)
  then show ?thesis using assms(1,2) by (intro obs_text_inject) simp_all
qed

theorem canonical_form_injective_witness:
  "same_content sample_record (sample_record\<lparr>obs_hash := str ''00''\<rparr>)"
proof -
  let ?b = "sample_record\<lparr>obs_hash := str ''00''\<rparr>"
  let ?k = "int (length (obs_text sample_record False))" and ?t = "obs_text sample_record False @ [0]"
  have "obs_text ?b False = obs_text sample_record False" by (simp add: obs_text_def)
  moreover have "known_states ?b" "length (input_hash ?b) = AX_HASH_SIZE"
    using sample_record_facts by (simp_all add: known_states_def)
  moreover have "int_of_size (of_nat (length (obs_text sample_record False))) = ?k"
    using sample_record_facts(3) by (intro canonical_ints [of _ 512]) simp_all
  moreover have "?k \<noteq> AX_ERR_BUFFER" by (simp add: rc_defs)
  ultimately show ?thesis
    using sample_record_facts canonical_form_injective [of sample_record ?b 512 ?k ?t ?k]
      obs_canonicalise_eq [of 512 sample_record False] obs_canonicalise_eq [of 512 ?b False] by simp
qed

text \<open>
  The formatters are exact for every 64-bit value, \<open>INT64_MIN\<close> included: the
  shortest decimal numeral if it fits with its NUL, else \<open>AX_ERR_BUFFER\<close>; their
  24-byte scratch array never overflows.
\<close>

theorem format_integers_spec:
  "ax_format_int64 n v = Some
     (if length (dec_int (sint v)) < unat n then (int (length (dec_int (sint v))), dec_int (sint v) @ [0])
      else (AX_ERR_BUFFER, [])) \<and>
   ax_format_uint64 n w = Some
     (if length (dec (unat w)) < unat n then (int (length (dec (unat w))), dec (unat w) @ [0])
      else (AX_ERR_BUFFER, []))"
  using format_int64_eq format_uint64_eq by blast

text \<open>
  \<open>ax_format_hash_hex\<close> writes two lower-case digits per byte and a NUL exactly if
  the buffer holds them, and different hashes of one length give different text.
\<close>

theorem format_hash_hex_spec:
  assumes "length a < 2 ^ 30"
  shows "ax_format_hash_hex n a = Some
    (if 2 * length a < unat n then (int (2 * length a), hex_text a @ [0]) else (AX_ERR_BUFFER, [])) \<and>
    (hex_text a = hex_text b) = (a = b)"
  using format_hash_hex_eq [OF assms, of n] by simp

theorem format_hash_hex_spec_witness:
  "ax_format_hash_hex 5 [0xAB, 0x01] = Some (4, str ''ab01'' @ [0])"
  using format_hash_hex_spec [of "[0xAB, 0x01]" 5]
  by (simp add: hex_text_def hex_byte_def hexdigit_def str_def)

text \<open>
  \<open>ax_params_canonicalise\<close> writes the canonical parameter object of at most 135
  bytes, so that the 256-byte buffer it is given inside a record always
  suffices.
\<close>

theorem params_canonicalise_spec:
  assumes "n \<noteq> 0"
  shows "ax_params_canonicalise n p = Some
    (if length (params_text p) < unat n then (int (length (params_text p)), params_text p @ [0])
     else (AX_ERR_BUFFER, take (unat n - 1) (params_text p))) \<and>
    length (params_text p) < AX_PARAMS_BUFFER_SIZE"
  using params_canonicalise_eq [OF assms] length_params_text [of p] by (simp add: limit_defs)

theorem params_canonicalise_spec_witness:
  "ax_params_canonicalise 256 (params sample_record) =
     Some (int (length (params_text (params sample_record))), params_text (params sample_record) @ [0])"
  using params_canonicalise_spec [of 256 "params sample_record"] by (simp add: limit_defs)

text \<open>
  \<open>ax_string_escape\<close> produces the escaped text and a NUL if they fit and
  \<open>AX_ERR_BUFFER\<close> otherwise; the escaped text contains no NUL, and no two strings
  escape to the same text.
\<close>

theorem string_escape_spec:
  assumes "n \<noteq> 0"
  shows "ax_string_escape n s = Some
    (if length (escape s) < unat n then (int_of_size (of_nat (length (escape s))), escape s @ [0])
     else (AX_ERR_BUFFER, take (unat n - 1) (escape s))) \<and>
    0 \<notin> set (escape s) \<and> (escape s = escape s') = (s = s')"
  using assms canon.escaped_no_nul [of s]
  by (simp add: ax_string_escape_def sink_eqs escape_def [symmetric])

theorem string_escape_spec_witness:
  "ax_string_escape 16 [0x61, 0x22, 0x0A] =
     Some (9, [0x61, 0x5C, 0x22, 0x5C, 0x75, 0x30, 0x30, 0x30, 0x61, 0])"
  using string_escape_spec [of 16 "[0x61, 0x22, 0x0A]"]
  by (simp add: escape_def esc_byte_def hex_byte_def hexdigit_def str_def)

end
