(* ===== verification/Obs.thy ===== *)
theory Obs
  imports Encoding Canonical
begin

text \<open>
  \<open>src/hash.c\<close>, \<open>src/obs.c\<close> and \<open>src/admission.c\<close>: hashing, admission and
  validation of observation records, and the helpers that fill in a raw input.

  The cryptographic substrate (\<open>axilog_sha256\<close>, \<open>axilog_commit\<close> and the
  operations of \<open>ct_fault_flags_t\<close>) is installed separately; it is the record
  \<open>substrate\<close>, an argument of every definition that calls it.  What the code
  relies on is that both functions fill exactly the 32 bytes of their output
  array: \<open>digests_32\<close>.

  A \<open>const char *\<close> that is read as a C string is the list of the bytes it
  points to, with the end of the list standing for the terminating NUL; one
  that comes with a length is a list of readable bytes, and reading past its end is
  undefined (\<open>None\<close>).
\<close>

section \<open>The substrate\<close>

record 'ct substrate =
  axilog_sha256 :: "byte list \<Rightarrow> byte list"
  axilog_commit :: "byte list \<Rightarrow> byte list \<Rightarrow> 'ct \<Rightarrow> byte list \<times> 'ct"
  ct_fault_init :: 'ct
  ct_fault_any :: "'ct \<Rightarrow> int"

definition digests_32 :: "'ct substrate \<Rightarrow> bool" where
  "digests_32 S \<longleftrightarrow> (\<forall>b. length (axilog_sha256 S b) = AX_HASH_SIZE) \<and>
     (\<forall>t b f. length (fst (axilog_commit S t b f)) = AX_HASH_SIZE)"

definition read_bytes :: "byte list \<Rightarrow> size_t \<Rightarrow> byte list option" where
  "read_bytes p n = (if unat n \<le> length p then Some (take (unat n) p) else None)"

section \<open>Model: \<open>hash.c\<close>\<close>

definition ax_compute_input_hash :: "'ct substrate \<Rightarrow> byte list \<Rightarrow> size_t \<Rightarrow> byte list option" where
  "ax_compute_input_hash S input input_len =
     do { b \<leftarrow> read_bytes input input_len; Some (axilog_sha256 S b) }"

definition ax_obs_compute_hash :: "'ct substrate \<Rightarrow> ax_obs_record_t \<Rightarrow> (int \<times> ax_obs_record_t) option" where
  "ax_obs_compute_hash S obs =
     do {
       let obs = obs\<lparr>obs_hash := []\<rparr>;
       (len, canonical_buf) \<leftarrow> ax_obs_canonicalise (of_nat AX_CANONICAL_BUFFER_SIZE) obs False;
       if len < 0 then Some (AX_ERR_BUFFER, obs)
       else do {
         let (hash, faults) =
           axilog_commit S (str ''AX:OBS:v1'') (take (nat len) canonical_buf) (ct_fault_init S);
         if ct_fault_any S faults \<noteq> 0 then Some (AX_ERR_HASH, obs)
         else do {
           (_, hex) \<leftarrow> ax_format_hash_hex (of_nat AX_HASH_HEX_SIZE) hash;
           Some (AX_OK, obs\<lparr>obs_hash := c_str hex\<rparr>)
         }
       }
     }"

section \<open>Model: \<open>obs.c\<close>\<close>

definition ax_obs_init :: ax_obs_record_t where
  "ax_obs_init =
     \<lparr>completion_state = AX_COMPLETION_COMPLETE, failure_type = AX_FAILURE_NULL,
      input_hash = replicate AX_HASH_SIZE 0, ledger_seq = 0, model_id = None, obs_hash = [],
      oracle_id = None, obs_output = None, output_size = 0,
      params = ax_oracle_params_init_null, schema_version = Some AX_OBS_SCHEMA_VERSION\<rparr>"

fun id_len_loop :: "size_t \<Rightarrow> size_t \<Rightarrow> byte list \<Rightarrow> bool" where
  "id_len_loop i limit [] = (\<not> i \<le> limit)"
| "id_len_loop i limit (c # s) =
     (if i \<le> limit then if c = 0 then False else id_len_loop (i + 1) limit s else True)"

definition id_too_long :: "byte list option \<Rightarrow> size_t \<Rightarrow> bool" where
  "id_too_long s limit = (case s of None \<Rightarrow> False | Some s \<Rightarrow> id_len_loop 0 limit s)"

fun id_has_control :: "byte list \<Rightarrow> bool" where
  "id_has_control [] = False"
| "id_has_control (c # s) = (if c < 0x20 \<or> c = 0x7F then True else id_has_control s)"

definition id_is_well_formed :: "byte list option \<Rightarrow> bool" where
  "id_is_well_formed s =
     (case s of None \<Rightarrow> False
      | Some s \<Rightarrow>
          if c_str s = [] then False
          else if id_has_control (c_str s) then False
          else ax_validate_utf8 (c_str s))"

definition state_pair_is_permitted :: "ax_completion_state_t \<Rightarrow> ax_failure_type_t \<Rightarrow> bool" where
  "state_pair_is_permitted s f =
     (if s = AX_COMPLETION_COMPLETE \<or> s = AX_COMPLETION_TRUNCATED then f = AX_FAILURE_NULL
      else if s = AX_COMPLETION_ERROR then
        f = AX_FAILURE_TIMEOUT \<or> f = AX_FAILURE_INVALID_OUTPUT \<or> f = AX_FAILURE_TRANSPORT_ERROR
      else False)"

definition input_is_schema_valid :: "ax_obs_input_t \<Rightarrow> bool" where
  "input_is_schema_valid i =
     (if \<not> id_is_well_formed (in_model_id i) \<or> \<not> id_is_well_formed (in_oracle_id i) then False
      else if \<not> state_pair_is_permitted (in_completion_state i) (in_failure_type i) then False
      else if in_completion_state i = AX_COMPLETION_ERROR \<and> of_nat AX_MAX_OUTPUT_BYTES < in_output_len i
      then False
      else if in_input i = None \<and> 0 < in_input_len i then False
      else if in_output i = None \<and> 0 < in_output_len i then False
      else True)"

definition ax_obs_identifier_check :: "byte list option \<Rightarrow> size_t \<Rightarrow> int" where
  "ax_obs_identifier_check ident max_bytes =
     (if id_too_long ident max_bytes then AX_ERR_SIZE
      else if \<not> id_is_well_formed ident then AX_ERR_SCHEMA
      else AX_OK)"

text \<open>What \<open>ax_obs_admit\<close> leaves behind: return code, record, output buffer, context, flags.\<close>

record 'ct admit_result =
  a_rc :: int
  a_out :: ax_obs_record_t
  a_buf :: "byte list"
  a_ctx :: ax_admission_ctx_t
  a_faults :: "'ct ax_l3_fault_flags_t"

definition mark_error :: "ax_obs_record_t \<Rightarrow> ax_obs_record_t" where
  "mark_error r = r\<lparr>completion_state := AX_COMPLETION_ERROR, failure_type := AX_FAILURE_INVALID_OUTPUT\<rparr>"

text \<open>
  The output section of \<open>ax_obs_admit\<close>: \<open>Inl\<close> is its early return, with the
  return code, record, buffer and flags.
\<close>

definition admit_output ::
    "size_t \<Rightarrow> ax_obs_input_t \<Rightarrow> ax_obs_record_t \<Rightarrow> 'ct ax_l3_fault_flags_t \<Rightarrow>
     ((int \<times> ax_obs_record_t \<times> byte list \<times> 'ct ax_l3_fault_flags_t) +
      (ax_obs_record_t \<times> byte list \<times> 'ct ax_l3_fault_flags_t)) option" where
  "admit_output output_buf_size i out faults =
     (case in_output i of
        Some src \<Rightarrow>
          if 0 < in_output_len i then do {
            let len = in_output_len i;
            let len_to_process = (if of_nat AX_MAX_OUTPUT_BYTES < len then of_nat AX_MAX_OUTPUT_BYTES else len);
            b \<leftarrow> read_bytes src len_to_process;
            (normalised_len, buf, faults) \<leftarrow> ax_validate_and_normalise output_buf_size b faults;
            if normalised_len < 0 then Some (Inl (normalised_len, mark_error out, buf, faults))
            else do {
              let out = out\<lparr>obs_output := Some buf\<rparr>;
              let out = (if completion_state out \<noteq> AX_COMPLETION_TRUNCATED
                         then out\<lparr>output_size := of_int normalised_len\<rparr> else out);
              Some (Inr (out, buf, faults))
            }
          }
          else Some (Inr (out\<lparr>obs_output := Some [], output_size := 0\<rparr>, [], faults))
      | None \<Rightarrow> Some (Inr (out\<lparr>obs_output := Some [], output_size := 0\<rparr>, [], faults)))"

text \<open>The fields taken over from the input, with the input hash.\<close>

definition admit_fields :: "'ct substrate \<Rightarrow> ax_obs_input_t \<Rightarrow> ax_obs_record_t \<Rightarrow> ax_obs_record_t option" where
  "admit_fields S i out =
     do {
       let out = (if completion_state out = AX_COMPLETION_COMPLETE
                  then out\<lparr>completion_state := in_completion_state i\<rparr> else out);
       let out = (if failure_type out = AX_FAILURE_NULL
                  then out\<lparr>failure_type := in_failure_type i\<rparr> else out);
       h \<leftarrow> (case in_input i of
               Some input \<Rightarrow> if 0 < in_input_len i then ax_compute_input_hash S input (in_input_len i)
                             else Some (replicate AX_HASH_SIZE 0)
             | None \<Rightarrow> Some (replicate AX_HASH_SIZE 0));
       Some (out\<lparr>input_hash := h, ledger_seq := in_ledger_seq i, model_id := in_model_id i,
                 oracle_id := in_oracle_id i, params := in_params i,
                 schema_version := Some AX_OBS_SCHEMA_VERSION\<rparr>)
     }"

text \<open>The observation hash, the size limit on the complete record and the context update.\<close>

definition admit_seal ::
    "'ct substrate \<Rightarrow> ax_obs_input_t \<Rightarrow> ax_admission_ctx_t \<Rightarrow> ax_obs_record_t \<Rightarrow> byte list \<Rightarrow>
     'ct ax_l3_fault_flags_t \<Rightarrow> 'ct admit_result option" where
  "admit_seal S i ctx out buf faults =
     do {
       (result, out) \<leftarrow> ax_obs_compute_hash S out;
       if result \<noteq> AX_OK then
         Some \<lparr>a_rc = result, a_out = out, a_buf = buf, a_ctx = ctx, a_faults = faults\<lparr>f_protocol := 1\<rparr>\<rparr>
       else do {
         (len, record_buf) \<leftarrow> ax_obs_canonicalise (of_nat (AX_MAX_OBS_BYTES + 1)) out True;
         if len < 0 then
           Some \<lparr>a_rc = AX_ERR_SIZE, a_out = (mark_error out)\<lparr>obs_hash := []\<rparr>, a_buf = buf, a_ctx = ctx,
                 a_faults = faults\<lparr>f_size := 1\<rparr>\<rparr>
         else
           Some \<lparr>a_rc = AX_OK, a_out = out, a_buf = buf,
                 a_ctx = ctx\<lparr>last_ledger_seq := in_ledger_seq i, initialized := True\<rparr>,
                 a_faults = faults\<rparr>
       }
     }"

definition ax_obs_admit ::
    "'ct substrate \<Rightarrow> size_t \<Rightarrow> ax_obs_input_t \<Rightarrow> ax_admission_ctx_t \<Rightarrow> 'ct ax_l3_fault_flags_t \<Rightarrow>
     'ct admit_result option" where
  "ax_obs_admit S output_buf_size i ctx faults =
     (let out = ax_obs_init in
      if initialized ctx \<and> in_ledger_seq i \<le> last_ledger_seq ctx then
        Some \<lparr>a_rc = AX_ERR_ORDERING, a_out = mark_error out, a_buf = [], a_ctx = ctx,
              a_faults = faults\<lparr>f_ordering := 1\<rparr>\<rparr>
      else if id_too_long (in_model_id i) (of_nat AX_MAX_MODEL_ID_BYTES) \<or>
              id_too_long (in_oracle_id i) (of_nat AX_MAX_ORACLE_ID_BYTES) then
        Some \<lparr>a_rc = AX_ERR_SIZE, a_out = mark_error out, a_buf = [], a_ctx = ctx,
              a_faults = faults\<lparr>f_size := 1\<rparr>\<rparr>
      else if \<not> input_is_schema_valid i then
        Some \<lparr>a_rc = AX_ERR_SCHEMA, a_out = mark_error out, a_buf = [], a_ctx = ctx,
              a_faults = faults\<lparr>f_schema := 1\<rparr>\<rparr>
      else
        (let over = of_nat AX_MAX_OUTPUT_BYTES < in_output_len i;
             faults = (if over then faults\<lparr>f_size := 1\<rparr> else faults);
             out = (if over then out\<lparr>completion_state := AX_COMPLETION_TRUNCATED, output_size := in_output_len i\<rparr>
                    else out)
         in do {
           r \<leftarrow> admit_output output_buf_size i out faults;
           case r of
             Inl (rc, out, buf, faults) \<Rightarrow>
               Some \<lparr>a_rc = rc, a_out = out, a_buf = buf, a_ctx = ctx, a_faults = faults\<rparr>
           | Inr (out, buf, faults) \<Rightarrow> do {
               out \<leftarrow> admit_fields S i out;
               admit_seal S i ctx out buf faults
             }
         }))"

text \<open>The output checks of \<open>ax_obs_validate\<close>: \<open>Some\<close> is an early return.\<close>

definition strlen :: "byte list \<Rightarrow> size_t" where
  "strlen s = of_nat (length (c_str s))"

definition validate_output ::
    "ax_obs_record_t \<Rightarrow> 'ct ax_l3_fault_flags_t \<Rightarrow> (int \<times> 'ct ax_l3_fault_flags_t) option" where
  "validate_output obs faults =
     (case obs_output obs of
        None \<Rightarrow> None
      | Some out \<Rightarrow>
          let enc_result = ax_validate_encoding (c_str out); actual_len = strlen out in
          if 0 < output_size obs \<and> enc_result \<noteq> AX_OK
          then Some (enc_result, faults\<lparr>f_encoding := 1\<rparr>)
          else if completion_state obs = AX_COMPLETION_TRUNCATED then
            if output_size obs < actual_len then Some (AX_ERR_SCHEMA, faults\<lparr>f_schema := 1\<rparr>)
            else None
          else if actual_len \<noteq> output_size obs then Some (AX_ERR_SCHEMA, faults\<lparr>f_schema := 1\<rparr>)
          else None)"

definition ax_obs_validate ::
    "'ct substrate \<Rightarrow> ax_obs_record_t \<Rightarrow> 'ct ax_l3_fault_flags_t \<Rightarrow>
     (int \<times> 'ct ax_l3_fault_flags_t) option" where
  "ax_obs_validate S obs faults =
     (if schema_version obs = None \<or> c_str (the (schema_version obs)) \<noteq> AX_OBS_SCHEMA_VERSION then
        Some (AX_ERR_SCHEMA, faults\<lparr>f_schema := 1\<rparr>)
      else
        case validate_output obs faults of
           Some early \<Rightarrow> Some early
         | None \<Rightarrow> do {
             (len, canonical_buf) \<leftarrow>
               ax_obs_canonicalise (of_nat AX_CANONICAL_BUFFER_SIZE) (obs\<lparr>obs_hash := []\<rparr>) False;
             if len < 0 then Some (AX_ERR_BUFFER, faults\<lparr>f_protocol := 1\<rparr>)
             else do {
               let (recomputed_hash, val_faults) =
                 axilog_commit S (str ''AX:OBS:v1'') (take (nat len) canonical_buf) (ct_fault_init S);
               if ct_fault_any S val_faults \<noteq> 0 then Some (AX_ERR_HASH, faults\<lparr>f_protocol := 1\<rparr>)
               else do {
                 (_, recomputed_hex) \<leftarrow> ax_format_hash_hex (of_nat AX_HASH_HEX_SIZE) recomputed_hash;
                 if c_str recomputed_hex \<noteq> c_str (obs_hash obs)
                 then Some (AX_ERR_HASH, faults\<lparr>f_protocol := 1\<rparr>)
                 else Some (AX_OK, faults)
               }
             }
           })"

section \<open>Model: \<open>admission.c\<close>\<close>

definition ax_obs_input_init :: ax_obs_input_t where
  "ax_obs_input_init =
     \<lparr>in_completion_state = AX_COMPLETION_COMPLETE, in_failure_type = AX_FAILURE_NULL,
      in_input = None, in_input_len = 0, in_ledger_seq = 0, in_model_id = None,
      in_oracle_id = None, in_output = None, in_output_len = 0,
      in_params = ax_oracle_params_init_null\<rparr>"

definition ax_obs_input_set_complete ::
    "u64 \<Rightarrow> byte list option \<Rightarrow> byte list option \<Rightarrow> byte list option \<Rightarrow> size_t \<Rightarrow>
     byte list option \<Rightarrow> size_t \<Rightarrow> ax_oracle_params_t option \<Rightarrow> ax_obs_input_t" where
  "ax_obs_input_set_complete seq oracle model input input_len out output_len ps =
     (let i = ax_obs_input_init
          \<lparr>in_completion_state := AX_COMPLETION_COMPLETE, in_failure_type := AX_FAILURE_NULL,
           in_ledger_seq := seq, in_oracle_id := oracle, in_model_id := model,
           in_input := input, in_input_len := input_len, in_output := out, in_output_len := output_len\<rparr>
      in case ps of Some p \<Rightarrow> i\<lparr>in_params := p\<rparr> | None \<Rightarrow> i)"

definition ax_obs_input_set_timeout ::
    "u64 \<Rightarrow> byte list option \<Rightarrow> byte list option \<Rightarrow> byte list option \<Rightarrow> size_t \<Rightarrow> ax_obs_input_t" where
  "ax_obs_input_set_timeout seq oracle model input input_len =
     ax_obs_input_init
       \<lparr>in_completion_state := AX_COMPLETION_ERROR, in_failure_type := AX_FAILURE_TIMEOUT,
        in_ledger_seq := seq, in_oracle_id := oracle, in_model_id := model,
        in_input := input, in_input_len := input_len, in_output := None, in_output_len := 0\<rparr>"

definition ax_obs_input_set_transport_error ::
    "u64 \<Rightarrow> byte list option \<Rightarrow> byte list option \<Rightarrow> byte list option \<Rightarrow> size_t \<Rightarrow> ax_obs_input_t" where
  "ax_obs_input_set_transport_error seq oracle model input input_len =
     ax_obs_input_init
       \<lparr>in_completion_state := AX_COMPLETION_ERROR, in_failure_type := AX_FAILURE_TRANSPORT_ERROR,
        in_ledger_seq := seq, in_oracle_id := oracle, in_model_id := model,
        in_input := input, in_input_len := input_len, in_output := None, in_output_len := 0\<rparr>"

definition ax_obs_input_set_invalid_output ::
    "u64 \<Rightarrow> byte list option \<Rightarrow> byte list option \<Rightarrow> byte list option \<Rightarrow> size_t \<Rightarrow>
     byte list option \<Rightarrow> size_t \<Rightarrow> ax_obs_input_t" where
  "ax_obs_input_set_invalid_output seq oracle model input input_len out output_len =
     ax_obs_input_init
       \<lparr>in_completion_state := AX_COMPLETION_ERROR, in_failure_type := AX_FAILURE_INVALID_OUTPUT,
        in_ledger_seq := seq, in_oracle_id := oracle, in_model_id := model,
        in_input := input, in_input_len := input_len, in_output := out, in_output_len := output_len\<rparr>"

text \<open>
  The derivation hash: both pieces are copied into a stack buffer of
  \<open>AX_HASH_HEX_SIZE + AX_MAX_OBS_BYTES\<close> bytes with no check of their lengths;
  \<open>None\<close> is an overflow of that buffer.
\<close>

definition ax_compute_derivation_hash ::
    "'ct substrate \<Rightarrow> ax_obs_record_t \<Rightarrow> byte list option \<Rightarrow> size_t \<Rightarrow> byte list option" where
  "ax_compute_derivation_hash S prev_obs derivation deriv_len =
     (let cap = AX_HASH_HEX_SIZE + AX_MAX_OBS_BYTES;
          buf = c_str (obs_hash prev_obs)
      in if cap < length buf then None
      else case derivation of
        Some d \<Rightarrow>
          if 0 < deriv_len then do {
            b \<leftarrow> read_bytes d deriv_len;
            if cap < length buf + length b then None else Some (axilog_sha256 S (buf @ b))
          }
          else Some (axilog_sha256 S buf)
      | None \<Rightarrow> Some (axilog_sha256 S buf))"

section \<open>Hashing\<close>

definition commit_text :: "'ct substrate \<Rightarrow> byte list \<Rightarrow> byte list" where
  "commit_text S t = fst (axilog_commit S AX_OBS_SCHEMA_VERSION t (ct_fault_init S))"

definition commit_faults :: "'ct substrate \<Rightarrow> byte list \<Rightarrow> bool" where
  "commit_faults S t \<longleftrightarrow> ct_fault_any S (snd (axilog_commit S AX_OBS_SCHEMA_VERSION t (ct_fault_init S))) \<noteq> 0"

lemma length_commit_text: "digests_32 S \<Longrightarrow> length (commit_text S t) = AX_HASH_SIZE"
  by (simp add: digests_32_def commit_text_def)

lemma obs_text_without_hash [simp]: "obs_text (r\<lparr>obs_hash := h\<rparr>) False = obs_text r False"
  by (simp add: obs_text_def)

lemma obs_canonicalise_131072:
  assumes "length (input_hash r) = AX_HASH_SIZE"
  shows "ax_obs_canonicalise (of_nat AX_CANONICAL_BUFFER_SIZE) r h = Some
    (if length (obs_text r h) < AX_CANONICAL_BUFFER_SIZE
     then (int (length (obs_text r h)), obs_text r h @ [0])
     else (AX_ERR_BUFFER, take (AX_CANONICAL_BUFFER_SIZE - 1) (obs_text r h)))"
proof -
  have "unat (of_nat AX_CANONICAL_BUFFER_SIZE :: size_t) = AX_CANONICAL_BUFFER_SIZE"
    "of_nat AX_CANONICAL_BUFFER_SIZE \<noteq> (0 :: size_t)"
    by (simp_all add: limit_defs)
  then show ?thesis
    using obs_canonicalise_eq [of "of_nat AX_CANONICAL_BUFFER_SIZE" r h] assms
      canonical_ints [of "obs_text r h" AX_CANONICAL_BUFFER_SIZE]
    by (simp add: limit_defs)
qed

lemma obs_canonicalise_65537:
  assumes "length (input_hash r) = AX_HASH_SIZE"
  shows "\<exists>b. ax_obs_canonicalise (of_nat (AX_MAX_OBS_BYTES + 1)) r h = Some
    (if length (obs_text r h) \<le> AX_MAX_OBS_BYTES then int (length (obs_text r h)) else AX_ERR_BUFFER, b)"
proof -
  have "unat (of_nat (AX_MAX_OBS_BYTES + 1) :: size_t) = AX_MAX_OBS_BYTES + 1"
    "of_nat (AX_MAX_OBS_BYTES + 1) \<noteq> (0 :: size_t)"
    by (simp_all add: limit_defs)
  then show ?thesis
    using obs_canonicalise_eq [of "of_nat (AX_MAX_OBS_BYTES + 1)" r h] assms
      canonical_ints [of "obs_text r h" AX_MAX_OBS_BYTES]
    by (auto simp: limit_defs)
qed

lemma compute_hash_eq:
  assumes "digests_32 S" "length (input_hash r) = AX_HASH_SIZE"
  shows "ax_obs_compute_hash S r = Some
    (if AX_CANONICAL_BUFFER_SIZE \<le> length (obs_text r False) then (AX_ERR_BUFFER, r\<lparr>obs_hash := []\<rparr>)
     else if commit_faults S (obs_text r False) then (AX_ERR_HASH, r\<lparr>obs_hash := []\<rparr>)
     else (AX_OK, r\<lparr>obs_hash := hex_text (commit_text S (obs_text r False))\<rparr>))"
proof -
  have "length (fst (axilog_commit S AX_OBS_SCHEMA_VERSION t f)) = AX_HASH_SIZE" for t f
    using assms(1) by (simp add: digests_32_def)
  note hex = format_hash_hex_65 [OF this]
  show ?thesis
    unfolding ax_obs_compute_hash_def AX_OBS_SCHEMA_VERSION_def [symmetric] Let_def
    using assms(2) by (simp add: obs_canonicalise_131072 commit_faults_def commit_text_def hex rc_defs split_beta)
qed

section \<open>Identifiers\<close>

lemma id_len_loop_iff:
  assumes "unat limit < 2 ^ 64 - 1" "unat i \<le> Suc (unat limit)"
  shows "id_len_loop i limit s \<longleftrightarrow> unat limit < unat i + length (c_str s)"
  using assms(2)
proof (induction s arbitrary: i)
  case Nil
  then show ?case by (auto simp: word_le_nat_alt)
next
  case (Cons c s)
  show ?case
  proof (cases "i \<le> limit")
    case True
    then have "unat (i + 1) = Suc (unat i)"
      using assms(1) by (simp add: unat_word_ariths word_le_nat_alt)
    with True Cons.IH [of "i + 1"] show ?thesis by (simp add: word_le_nat_alt)
  next
    case False
    with Cons.prems have "unat i = Suc (unat limit)" by (simp add: word_le_nat_alt)
    with False show ?thesis by simp
  qed
qed

lemma id_too_long_iff:
  "unat limit < 2 ^ 64 - 1 \<Longrightarrow> id_too_long p limit \<longleftrightarrow> unat limit < length (opt_text p)"
  by (cases p) (simp_all add: id_too_long_def opt_text_def id_len_loop_iff)

definition plain_id_cp :: "nat \<Rightarrow> bool" where
  "plain_id_cp cp \<longleftrightarrow> is_scalar cp \<and> 0x20 \<le> cp \<and> cp \<noteq> 0x7F"

definition id_text :: "byte list \<Rightarrow> bool" where
  "id_text t \<longleftrightarrow> t \<noteq> [] \<and> (\<exists>cps. (\<forall>cp\<in>set cps. plain_id_cp cp) \<and> t = concat (map utf8_encode cps))"

lemma id_has_control_iff: "id_has_control s \<longleftrightarrow> ax_contains_forbidden_control s \<or> 0x0A \<in> set s"
  by (induction s) (auto simp: word_less_nat_alt)

lemma LF_in_encodes:
  "\<forall>cp\<in>set cps. is_scalar cp \<Longrightarrow> 0x0A \<in> set (concat (map utf8_encode cps)) \<longleftrightarrow> 10 \<in> set cps"
proof (induction cps)
  case (Cons cp cps)
  then have "0x0A \<in> set (utf8_encode cp) \<longleftrightarrow> cp = 10"
    using encode_ascii_byte [of cp "0x0A"] by (auto simp: utf8_encode_CR_LF)
  with Cons show ?case by auto
qed simp

lemma id_well_formed_iff: "id_is_well_formed p \<longleftrightarrow> id_text (opt_text p)"
proof (cases p)
  case (Some s)
  have "id_text (c_str s) \<longleftrightarrow> c_str s \<noteq> [] \<and> \<not> id_has_control (c_str s) \<and> utf8_text (c_str s)"
  proof
    assume "id_text (c_str s)"
    then obtain cps where cps: "\<forall>cp\<in>set cps. plain_id_cp cp" "c_str s = concat (map utf8_encode cps)" "c_str s \<noteq> []"
      by (auto simp: id_text_def)
    then have sc: "\<forall>cp\<in>set cps. is_scalar cp" by (simp add: plain_id_cp_def)
    from cps(1) have "\<not> id_has_control (concat (map utf8_encode cps))"
      unfolding id_has_control_iff forbidden_control_encodes [OF sc] LF_in_encodes [OF sc]
      by (force simp: plain_id_cp_def)
    with cps sc show "c_str s \<noteq> [] \<and> \<not> id_has_control (c_str s) \<and> utf8_text (c_str s)"
      unfolding utf8_text_def by metis
  next
    assume *: "c_str s \<noteq> [] \<and> \<not> id_has_control (c_str s) \<and> utf8_text (c_str s)"
    then obtain cps where sc: "\<forall>cp\<in>set cps. is_scalar cp" and t: "c_str s = concat (map utf8_encode cps)"
      by (auto simp: utf8_text_def)
    have "\<forall>cp\<in>set cps. plain_id_cp cp"
      using * sc unfolding t id_has_control_iff forbidden_control_encodes [OF sc] LF_in_encodes [OF sc]
      unfolding plain_id_cp_def by (metis not_le)
    with * t show "id_text (c_str s)" unfolding id_text_def by blast
  qed
  with Some show ?thesis by (simp add: id_is_well_formed_def opt_text_def validate_utf8_iff)
qed (simp add: id_is_well_formed_def opt_text_def id_text_def)

section \<open>Admission\<close>

text \<open>
  The admission rules as one ordered list of reasons to reject.  \<open>out_src\<close> is the
  part of the raw output that is looked at, \<open>obs_of\<close> the record an accepted input
  becomes, before its hash is filled in.
\<close>

definition readable :: "ax_obs_input_t \<Rightarrow> bool" where
  "readable i \<longleftrightarrow>
     (case in_output i of None \<Rightarrow> True | Some p \<Rightarrow> unat (in_output_len i) \<le> length p) \<and>
     (case in_input i of None \<Rightarrow> True | Some p \<Rightarrow> unat (in_input_len i) \<le> length p)"

definition over_limit :: "ax_obs_input_t \<Rightarrow> bool" where
  "over_limit i \<longleftrightarrow> AX_MAX_OUTPUT_BYTES < unat (in_output_len i)"

definition out_src :: "ax_obs_input_t \<Rightarrow> byte list" where
  "out_src i = (case in_output i of None \<Rightarrow> []
     | Some p \<Rightarrow> take (min AX_MAX_OUTPUT_BYTES (unat (in_output_len i))) p)"

definition input_digest :: "'ct substrate \<Rightarrow> ax_obs_input_t \<Rightarrow> byte list" where
  "input_digest S i = (case in_input i of
     Some p \<Rightarrow> if 0 < in_input_len i then axilog_sha256 S (take (unat (in_input_len i)) p) else replicate AX_HASH_SIZE 0
   | None \<Rightarrow> replicate AX_HASH_SIZE 0)"

definition obs_of :: "'ct substrate \<Rightarrow> ax_obs_input_t \<Rightarrow> ax_obs_record_t" where
  "obs_of S i =
     \<lparr>completion_state = (if over_limit i then AX_COMPLETION_TRUNCATED else in_completion_state i),
      failure_type = in_failure_type i, input_hash = input_digest S i,
      ledger_seq = in_ledger_seq i, model_id = in_model_id i, obs_hash = [],
      oracle_id = in_oracle_id i,
      obs_output = Some (if out_src i = [] then [] else lf_norm (out_src i) @ [0]),
      output_size = (if over_limit i then in_output_len i else of_nat (length (lf_norm (out_src i)))),
      params = in_params i, schema_version = Some AX_OBS_SCHEMA_VERSION\<rparr>"

definition hashed :: "'ct substrate \<Rightarrow> ax_obs_record_t \<Rightarrow> ax_obs_record_t" where
  "hashed S r = r\<lparr>obs_hash := hex_text (commit_text S (obs_text r False))\<rparr>"

definition admit_code :: "'ct substrate \<Rightarrow> size_t \<Rightarrow> ax_obs_input_t \<Rightarrow> ax_admission_ctx_t \<Rightarrow> int" where
  "admit_code S n i ctx =
     (if initialized ctx \<and> in_ledger_seq i \<le> last_ledger_seq ctx then AX_ERR_ORDERING
      else if AX_MAX_MODEL_ID_BYTES < length (opt_text (in_model_id i)) \<or>
              AX_MAX_ORACLE_ID_BYTES < length (opt_text (in_oracle_id i)) then AX_ERR_SIZE
      else if \<not> input_is_schema_valid i then AX_ERR_SCHEMA
      else if \<not> utf8_text (out_src i) then AX_ERR_ENCODING
      else if unat n \<le> length (lf_norm (out_src i)) then AX_ERR_BUFFER
      else if \<not> clean_text (lf_norm (out_src i)) then AX_ERR_ENCODING
      else if AX_CANONICAL_BUFFER_SIZE \<le> length (obs_text (obs_of S i) False) then AX_ERR_BUFFER
      else if commit_faults S (obs_text (obs_of S i) False) then AX_ERR_HASH
      else if AX_MAX_OBS_BYTES < length (obs_text (hashed S (obs_of S i)) True) then AX_ERR_SIZE
      else AX_OK)"

lemma over_limit_word: "of_nat AX_MAX_OUTPUT_BYTES < in_output_len i \<longleftrightarrow> over_limit i"
  by (simp add: over_limit_def word_less_nat_alt limit_defs)

lemma length_out_src: "length (out_src i) \<le> AX_MAX_OUTPUT_BYTES"
  by (auto simp: out_src_def min_def split: option.splits)

lemma clean_text_Nil [simp]: "clean_text []"
  unfolding clean_text_def by (rule exI [of _ "[]"]) simp

text \<open>The output section, when there is an output to look at.\<close>

text \<open>The record after the output section: the normalised text, and its length unless it was cut.\<close>

definition output_stored :: "ax_obs_input_t \<Rightarrow> ax_obs_record_t \<Rightarrow> ax_obs_record_t" where
  "output_stored i out =
     (if out_src i = [] then out\<lparr>obs_output := Some [], output_size := 0\<rparr>
      else out\<lparr>obs_output := Some (lf_norm (out_src i) @ [0]),
        output_size := (if completion_state out \<noteq> AX_COMPLETION_TRUNCATED then of_nat (length (lf_norm (out_src i))) else output_size out)\<rparr>)"

lemma admit_output_eq:
  assumes "n \<noteq> 0" "readable i" "in_output i = None \<longrightarrow> in_output_len i = 0"
  shows "admit_output n i out f = Some
    (if out_src i = [] then Inr (output_stored i out, [], f)
     else if \<not> utf8_text (out_src i) then Inl (AX_ERR_ENCODING, mark_error out, [], f\<lparr>f_encoding := 1\<rparr>)
     else if unat n \<le> length (lf_norm (out_src i)) then
       Inl (AX_ERR_BUFFER, mark_error out, take (unat n - 1) (lf_norm (out_src i)), f\<lparr>f_size := 1\<rparr>)
     else if clean_text (lf_norm (out_src i)) then
       Inr (output_stored i out, lf_norm (out_src i) @ [0], f)
     else Inl (AX_ERR_ENCODING, mark_error out, lf_norm (out_src i) @ [0], f\<lparr>f_encoding := 1\<rparr>))"
proof (cases "in_output i")
  case None
  then show ?thesis by (simp add: admit_output_def out_src_def output_stored_def)
next
  case (Some p)
  show ?thesis
  proof (cases "in_output_len i = 0")
    case True
    with Some show ?thesis by (simp add: admit_output_def out_src_def output_stored_def)
  next
    case False
    let ?len = "if of_nat AX_MAX_OUTPUT_BYTES < in_output_len i then of_nat AX_MAX_OUTPUT_BYTES else in_output_len i"
    have u: "unat ?len = min AX_MAX_OUTPUT_BYTES (unat (in_output_len i))"
      by (simp add: word_less_nat_alt limit_defs)
    have pos: "0 < in_output_len i" "0 < unat (in_output_len i)"
      using False by (simp_all add: word_gt_0 unat_gt_0)
    have "unat (in_output_len i) \<le> length p" using assms(2) Some by (simp add: readable_def)
    then have rd: "read_bytes p ?len = Some (out_src i)"
      unfolding read_bytes_def u using Some by (simp add: out_src_def)
    have ne: "out_src i \<noteq> []"
      using Some pos \<open>unat (in_output_len i) \<le> length p\<close> by (auto simp: out_src_def limit_defs)
    have "length (out_src i) < 2 ^ 31" using length_out_src [of i] by (simp add: limit_defs)
    note vn = validate_and_normalise_eq [OF assms(1) this, of f]
    show ?thesis
      unfolding admit_output_def Some option.case if_P [OF pos(1)] Let_def rd bind.bind_lunit vn
      using ne by (simp add: rc_defs output_stored_def)
  qed
qed

lemma length_input_digest: "digests_32 S \<Longrightarrow> length (input_digest S i) = AX_HASH_SIZE"
  by (simp add: input_digest_def digests_32_def split: option.splits)

lemma input_digest_eq:
  "readable i \<Longrightarrow>
   (case in_input i of
      Some input \<Rightarrow> if 0 < in_input_len i then ax_compute_input_hash S input (in_input_len i)
                    else Some (replicate AX_HASH_SIZE 0)
    | None \<Rightarrow> Some (replicate AX_HASH_SIZE 0)) = Some (input_digest S i)"
  by (auto simp: readable_def ax_compute_input_hash_def read_bytes_def input_digest_def split: option.splits)


text \<open>Everything \<open>ax_obs_admit\<close> does, once no store or read is out of bounds.\<close>

definition flagged :: "'ct ax_l3_fault_flags_t \<Rightarrow> bool" where
  "flagged f \<longleftrightarrow> f_encoding f \<noteq> 0 \<or> f_schema f \<noteq> 0 \<or> f_ordering f \<noteq> 0 \<or> f_size f \<noteq> 0 \<or> f_protocol f \<noteq> 0"

definition admit_post ::
    "'ct substrate \<Rightarrow> ax_obs_input_t \<Rightarrow> ax_admission_ctx_t \<Rightarrow> 'ct ax_l3_fault_flags_t \<Rightarrow> 'ct admit_result \<Rightarrow> bool" where
  "admit_post S i ctx f r \<longleftrightarrow>
     (if a_rc r = AX_OK then
        a_out r = hashed S (obs_of S i) \<and>
        a_ctx r = \<lparr>last_ledger_seq = in_ledger_seq i, initialized = True\<rparr> \<and>
        a_faults r = (if over_limit i then f\<lparr>f_size := 1\<rparr> else f)
      else a_ctx r = ctx \<and> obs_hash (a_out r) = [] \<and> flagged (a_faults r))"

lemma schema_valid_null_output: "input_is_schema_valid i \<Longrightarrow> in_output i = None \<longrightarrow> in_output_len i = 0"
  by (auto simp: input_is_schema_valid_def word_gt_0 split: if_splits)

lemma schema_valid_over_limit:
  assumes "input_is_schema_valid i" "readable i" "over_limit i"
  shows "out_src i \<noteq> []"
proof -
  have "0 < unat (in_output_len i)" using assms(3) by (simp add: over_limit_def)
  moreover from this obtain p where "in_output i = Some p"
    using schema_valid_null_output [OF assms(1)] by (cases "in_output i") auto
  ultimately show ?thesis
    using assms(2) by (auto simp: readable_def out_src_def limit_defs)
qed

text \<open>Whatever the output section leaves, the fields copied over make it \<open>obs_of\<close>.\<close>

lemma admit_fields_eq:
  assumes "input_is_schema_valid i" "readable i"
    "out = (if over_limit i then ax_obs_init\<lparr>completion_state := AX_COMPLETION_TRUNCATED, output_size := in_output_len i\<rparr>
            else ax_obs_init)"
  shows "admit_fields S i (output_stored i out) = Some (obs_of S i)"
  using schema_valid_over_limit [OF assms(1,2)] unfolding assms(3) admit_fields_def
  by (auto simp: output_stored_def obs_of_def ax_obs_init_def enum_defs Let_def input_digest_eq [OF assms(2)])

lemma input_hash_obs_of [simp]: "input_hash (obs_of S i) = input_digest S i"
  by (simp add: obs_of_def)

lemma input_hash_hashed [simp]: "input_hash (hashed S r) = input_hash r"
  by (simp add: hashed_def)

text \<open>The result of the seal section; \<open>out\<close> is the record a size error leaves.\<close>

definition seal_result ::
    "'ct substrate \<Rightarrow> ax_obs_input_t \<Rightarrow> ax_admission_ctx_t \<Rightarrow> byte list \<Rightarrow> 'ct ax_l3_fault_flags_t \<Rightarrow> ax_obs_record_t \<Rightarrow> 'ct admit_result" where
  "seal_result S i ctx buf f out =
    (let t = obs_text (obs_of S i) False in
     if AX_CANONICAL_BUFFER_SIZE \<le> length t \<or> commit_faults S t then
       \<lparr>a_rc = (if AX_CANONICAL_BUFFER_SIZE \<le> length t then AX_ERR_BUFFER else AX_ERR_HASH),
        a_out = (obs_of S i)\<lparr>obs_hash := []\<rparr>, a_buf = buf, a_ctx = ctx, a_faults = f\<lparr>f_protocol := 1\<rparr>\<rparr>
     else if AX_MAX_OBS_BYTES < length (obs_text (hashed S (obs_of S i)) True) then
       \<lparr>a_rc = AX_ERR_SIZE, a_out = out\<lparr>obs_hash := []\<rparr>, a_buf = buf, a_ctx = ctx, a_faults = f\<lparr>f_size := 1\<rparr>\<rparr>
     else
       \<lparr>a_rc = AX_OK, a_out = hashed S (obs_of S i), a_buf = buf,
        a_ctx = \<lparr>last_ledger_seq = in_ledger_seq i, initialized = True\<rparr>, a_faults = f\<rparr>)"

lemma admit_seal_eq:
  assumes "digests_32 S"
  shows "\<exists>out. admit_seal S i ctx (obs_of S i) buf f = Some (seal_result S i ctx buf f out)"
proof -
  have len: "length (input_hash (hashed S (obs_of S i))) = AX_HASH_SIZE"
    "length (input_hash (obs_of S i)) = AX_HASH_SIZE"
    using assms by (simp_all add: length_input_digest)
  obtain b where c: "ax_obs_canonicalise (of_nat (AX_MAX_OBS_BYTES + 1)) (hashed S (obs_of S i)) True = Some
    (if length (obs_text (hashed S (obs_of S i)) True) \<le> AX_MAX_OBS_BYTES
     then int (length (obs_text (hashed S (obs_of S i)) True)) else AX_ERR_BUFFER, b)"
    using obs_canonicalise_65537 [OF len(1)] by blast
  show ?thesis
    unfolding admit_seal_def compute_hash_eq [OF assms len(2)] hashed_def [symmetric] seal_result_def
    using c by (auto simp: rc_defs Let_def)
qed

lemma admit_code_too_long:
  "id_too_long p (of_nat AX_MAX_MODEL_ID_BYTES) \<longleftrightarrow> AX_MAX_MODEL_ID_BYTES < length (opt_text p)"
  "id_too_long p (of_nat AX_MAX_ORACLE_ID_BYTES) \<longleftrightarrow> AX_MAX_ORACLE_ID_BYTES < length (opt_text p)"
  by (simp_all add: id_too_long_iff limit_defs)

lemma mark_error_hash [simp]: "obs_hash (mark_error r) = obs_hash r"
  by (simp add: mark_error_def)

text \<open>After the three input checks, the outcome is decided by the output text and the hash.\<close>

lemma admit_go:
  assumes "digests_32 S" "n \<noteq> 0" "readable i" "input_is_schema_valid i"
    and nord: "\<not> (initialized ctx \<and> in_ledger_seq i \<le> last_ledger_seq ctx)"
    and nlong: "\<not> (AX_MAX_MODEL_ID_BYTES < length (opt_text (in_model_id i)) \<or>
      AX_MAX_ORACLE_ID_BYTES < length (opt_text (in_oracle_id i)))"
  shows "\<exists>r. ax_obs_admit S n i ctx f = Some r \<and> a_rc r = admit_code S n i ctx \<and> admit_post S i ctx f r"
proof -
  define f' where "f' = (if over_limit i then f\<lparr>f_size := 1\<rparr> else f)"
  define out where "out = (if over_limit i
    then ax_obs_init\<lparr>completion_state := AX_COMPLETION_TRUNCATED, output_size := in_output_len i\<rparr> else ax_obs_init)"
  have hash: "obs_hash out = []" by (simp add: out_def ax_obs_init_def)
  note admit = ax_obs_admit_def [of S n i ctx f, unfolded Let_def over_limit_word admit_code_too_long
      if_not_P [OF nord] if_not_P [OF nlong], folded out_def f'_def]
  note output_eq = admit_output_eq [OF assms(2,3) schema_valid_null_output [OF assms(4)], of out f']
  note fields = admit_fields_eq [OF assms(4,3) out_def, of S]
  have nil: "utf8_text (out_src i) \<and> clean_text (lf_norm (out_src i)) \<and> length (lf_norm (out_src i)) < unat n"
    if "out_src i = []" using that assms(2) by (simp add: unat_gt_0)
  consider (bad) "out_src i \<noteq> []" "\<not> utf8_text (out_src i) \<or> unat n \<le> length (lf_norm (out_src i)) \<or>
      \<not> clean_text (lf_norm (out_src i))"
    | (good) "utf8_text (out_src i)" "clean_text (lf_norm (out_src i))" "length (lf_norm (out_src i)) < unat n"
    using nil not_le by blast
  then show ?thesis
  proof cases
    case bad
    then show ?thesis
      unfolding admit output_eq admit_code_def if_not_P [OF nord] if_not_P [OF nlong] using assms(4) hash
      by (auto simp: admit_post_def flagged_def rc_defs)
  next
    case good
    obtain buf where "admit_output n i out f' = Some (Inr (output_stored i out, buf, f'))"
      using good by (intro that [of "if out_src i = [] then [] else lf_norm (out_src i) @ [0]"]) (simp add: output_eq)
    then have "ax_obs_admit S n i ctx f = admit_seal S i ctx (obs_of S i) buf f'"
      unfolding admit using assms(4) by (simp add: fields)
    moreover obtain bad where "admit_seal S i ctx (obs_of S i) buf f' = Some (seal_result S i ctx buf f' bad)"
      using admit_seal_eq [OF assms(1)] by blast
    ultimately show ?thesis
      unfolding admit_code_def if_not_P [OF nord] if_not_P [OF nlong] using assms(4) good
      by (auto simp: seal_result_def Let_def admit_post_def flagged_def rc_defs f'_def)
  qed
qed

lemma admit_complete:
  assumes "digests_32 S" "n \<noteq> 0" "readable i"
  shows "\<exists>r. ax_obs_admit S n i ctx f = Some r \<and> a_rc r = admit_code S n i ctx \<and> admit_post S i ctx f r"
proof -
  let ?order = "initialized ctx \<and> in_ledger_seq i \<le> last_ledger_seq ctx"
  let ?long = "AX_MAX_MODEL_ID_BYTES < length (opt_text (in_model_id i)) \<or>
    AX_MAX_ORACLE_ID_BYTES < length (opt_text (in_oracle_id i))"
  note admit = ax_obs_admit_def [of S n i ctx f, unfolded Let_def admit_code_too_long]
  note defs = admit_code_def admit_post_def flagged_def rc_defs ax_obs_init_def
  consider ?order | "\<not> ?order" ?long | "\<not> ?order" "\<not> ?long" "\<not> input_is_schema_valid i"
    | "\<not> ?order" "\<not> ?long" "input_is_schema_valid i"
    by blast
  then show ?thesis
  proof cases
    case 1
    then show ?thesis unfolding admit by (simp add: defs)
  next
    case 2
    then show ?thesis unfolding admit by (simp add: defs)
  next
    case 3
    then show ?thesis unfolding admit by (simp add: defs)
  next
    case 4
    then show ?thesis using assms by (intro admit_go)
  qed
qed

section \<open>Admitted records\<close>

lemma admit_code_ok:
  assumes "admit_code S n i ctx = AX_OK"
  shows "\<not> (initialized ctx \<and> in_ledger_seq i \<le> last_ledger_seq ctx)"
    and "input_is_schema_valid i"
    and "length (opt_text (in_model_id i)) \<le> AX_MAX_MODEL_ID_BYTES"
    and "length (opt_text (in_oracle_id i)) \<le> AX_MAX_ORACLE_ID_BYTES"
    and "clean_text (lf_norm (out_src i))" "length (lf_norm (out_src i)) < unat n"
    and "length (obs_text (obs_of S i) False) < AX_CANONICAL_BUFFER_SIZE"
    and "\<not> commit_faults S (obs_text (obs_of S i) False)"
    and "length (obs_text (hashed S (obs_of S i)) True) \<le> AX_MAX_OBS_BYTES"
  using assms unfolding admit_code_def by (auto simp: err_not_ok not_le not_less split: if_splits)

lemma admit_result:
  assumes "digests_32 S" "n \<noteq> 0" "readable i" "ax_obs_admit S n i ctx f = Some r"
  shows "a_rc r = admit_code S n i ctx" "admit_post S i ctx f r"
  using admit_complete [OF assms(1-3), of ctx f] assms(4) by auto

lemma admit_ok_record:
  assumes "digests_32 S" "n \<noteq> 0" "readable i" "ax_obs_admit S n i ctx f = Some r" "a_rc r = AX_OK"
  shows "a_out r = hashed S (obs_of S i)" "admit_code S n i ctx = AX_OK"
  using admit_result [OF assms(1-4)] assms(5) by (simp_all add: admit_post_def)

lemma opt_text_obs_of:
  assumes "clean_text (lf_norm (out_src i))"
  shows "opt_text (obs_output (obs_of S i)) = lf_norm (out_src i)"
proof -
  have "0 \<notin> set (lf_norm (out_src i))" using clean_text_bytes(1) [OF assms] by blast
  then show ?thesis by (auto simp: obs_of_def opt_text_def)
qed

lemma unat_length_norm: "unat (of_nat (length (lf_norm (out_src i))) :: size_t) = length (lf_norm (out_src i))"
proof (rule unat_of_nat_size)
  have "length (lf_norm (out_src i)) \<le> AX_MAX_OUTPUT_BYTES"
    using length_norm_eol [of "0x0D" "0x0A" "out_src i"] length_out_src [of i] by linarith
  then show "length (lf_norm (out_src i)) < 2 ^ 64" by (simp add: limit_defs)
qed

lemma c_str_schema [simp]: "c_str AX_OBS_SCHEMA_VERSION = AX_OBS_SCHEMA_VERSION"
  by (simp add: AX_OBS_SCHEMA_VERSION_def)

text \<open>Validation depends on the output, the canonical text and the stored hash.\<close>

lemma validate_eq:
  assumes "digests_32 S" "length (input_hash r) = AX_HASH_SIZE"
    "schema_version r = Some s" "c_str s = AX_OBS_SCHEMA_VERSION" "validate_output r f = None"
  shows "ax_obs_validate S r f = Some
    (if AX_CANONICAL_BUFFER_SIZE \<le> length (obs_text r False) then (AX_ERR_BUFFER, f\<lparr>f_protocol := 1\<rparr>)
     else if commit_faults S (obs_text r False) \<or> hex_text (commit_text S (obs_text r False)) \<noteq> c_str (obs_hash r)
       then (AX_ERR_HASH, f\<lparr>f_protocol := 1\<rparr>)
     else (AX_OK, f))"
proof -
  have "length (fst (axilog_commit S AX_OBS_SCHEMA_VERSION t c)) = AX_HASH_SIZE" for t c
    using assms(1) by (simp add: digests_32_def)
  note hex = format_hash_hex_65 [OF this]
  show ?thesis
    unfolding ax_obs_validate_def AX_OBS_SCHEMA_VERSION_def [symmetric] Let_def
    using assms(2-5)
    by (simp add: obs_canonicalise_131072 commit_faults_def commit_text_def hex rc_defs split_beta)
qed

lemma validate_output_admitted:
  assumes "clean_text (lf_norm (out_src i))"
  shows "validate_output (hashed S (obs_of S i)) f = None"
proof -
  let ?o = "if out_src i = [] then [] else lf_norm (out_src i) @ [0]"
  have c: "c_str ?o = lf_norm (out_src i)"
    using opt_text_obs_of [OF assms, of undefined] by (simp add: obs_of_def opt_text_def)
  have enc: "ax_validate_encoding (lf_norm (out_src i)) = AX_OK"
    using clean_text_nfc [OF assms] by (simp add: validate_encoding_iff)
  have "\<not> in_output_len i < of_nat (length (lf_norm (out_src i)))" if "over_limit i"
    using that unat_length_norm [of i] length_norm_eol [of "0x0D" "0x0A" "out_src i"] length_out_src [of i]
    by (simp add: word_less_nat_alt over_limit_def)
  then show ?thesis
    unfolding validate_output_def
    by (simp add: hashed_def obs_of_def strlen_def c enc Let_def enum_defs)
qed

lemma admitted_validates:
  assumes "digests_32 S" "admit_code S n i ctx = AX_OK"
  shows "ax_obs_validate S (hashed S (obs_of S i)) f = Some (AX_OK, f)"
proof -
  have "ax_obs_validate S (hashed S (obs_of S i)) f = Some
    (if AX_CANONICAL_BUFFER_SIZE \<le> length (obs_text (hashed S (obs_of S i)) False) then (AX_ERR_BUFFER, f\<lparr>f_protocol := 1\<rparr>)
     else if commit_faults S (obs_text (hashed S (obs_of S i)) False) \<or>
        hex_text (commit_text S (obs_text (hashed S (obs_of S i)) False)) \<noteq> c_str (obs_hash (hashed S (obs_of S i)))
       then (AX_ERR_HASH, f\<lparr>f_protocol := 1\<rparr>)
     else (AX_OK, f))"
    by (rule validate_eq [OF assms(1), where s = AX_OBS_SCHEMA_VERSION])
      (simp_all add: length_input_digest [OF assms(1)] validate_output_admitted [OF admit_code_ok(5) [OF assms(2)]],
        simp add: hashed_def obs_of_def)
  then show ?thesis
    using admit_code_ok(7,8) [OF assms(2)] by (simp add: hashed_def)
qed

section \<open>Ordering\<close>

lemma compute_hash_seq:
  "ax_obs_compute_hash S r = Some (rc, r') \<Longrightarrow> ledger_seq r' = ledger_seq r"
  by (auto simp: ax_obs_compute_hash_def Let_def split: bind_splits if_splits prod.splits)

lemma admit_fields_seq: "admit_fields S i out = Some r \<Longrightarrow> ledger_seq r = in_ledger_seq i"
  by (auto simp: admit_fields_def Let_def split: bind_splits)

lemma admit_seal_ctx:
  "admit_seal S i ctx out buf f = Some r \<Longrightarrow>
    (if a_rc r = AX_OK then a_ctx r = ctx\<lparr>last_ledger_seq := in_ledger_seq i, initialized := True\<rparr> \<and>
       ledger_seq (a_out r) = ledger_seq out else a_ctx r = ctx)"
  by (auto simp: admit_seal_def rc_defs dest!: compute_hash_seq split: bind_splits if_splits)

lemma admit_output_error: "admit_output n i out f = Some (Inl (rc, x)) \<Longrightarrow> rc \<noteq> AX_OK"
  by (auto simp: admit_output_def Let_def rc_defs split: option.splits if_splits bind_splits)

text \<open>The context moves exactly when a record is admitted, and then to that record's number.\<close>

lemma admit_ctx:
  assumes "ax_obs_admit S n i ctx f = Some r"
  shows "if a_rc r = AX_OK then
      \<not> (initialized ctx \<and> in_ledger_seq i \<le> last_ledger_seq ctx) \<and>
      a_ctx r = ctx\<lparr>last_ledger_seq := in_ledger_seq i, initialized := True\<rparr> \<and>
      ledger_seq (a_out r) = in_ledger_seq i
    else a_ctx r = ctx"
  using assms
  by (auto simp: ax_obs_admit_def Let_def err_not_ok dest!: admit_output_error admit_seal_ctx admit_fields_seq
      split: if_splits bind_splits sum.splits)

text \<open>One admission as a step of a sequence guard.\<close>

definition admit_step ::
    "'ct substrate \<Rightarrow> size_t \<Rightarrow> 'ct ax_l3_fault_flags_t \<Rightarrow> ax_admission_ctx_t \<Rightarrow> ax_obs_input_t \<Rightarrow>
     ax_admission_ctx_t \<times> ax_obs_record_t option" where
  "admit_step S n f ctx i =
     (case ax_obs_admit S n i ctx f of
        None \<Rightarrow> (ctx, None)
      | Some r \<Rightarrow> (a_ctx r, if a_rc r = AX_OK then Some (a_out r) else None))"

definition ctx_seq :: "ax_admission_ctx_t \<Rightarrow> u64 option" where
  "ctx_seq ctx = (if initialized ctx then Some (last_ledger_seq ctx) else None)"

interpretation admission: sequence_guard "admit_step S n f" ctx_seq ledger_seq
  for S :: "'ct substrate" and n f
proof
  fix c i c' r
  assume "admit_step S n f c i = (c', Some r)"
  then obtain a where a: "ax_obs_admit S n i c f = Some a" "a_rc a = AX_OK" "c' = a_ctx a" "r = a_out a"
    by (auto simp: admit_step_def split: option.splits if_splits)
  with admit_ctx [OF a(1)] show "ctx_seq c' = Some (ledger_seq r) \<and> (\<forall>l. ctx_seq c = Some l \<longrightarrow> l < ledger_seq r)"
    by (auto simp: ctx_seq_def)
next
  fix c i c'
  assume "admit_step S n f c i = (c', None)"
  then show "ctx_seq c' = ctx_seq c"
    using admit_ctx [of S n i c f] by (auto simp: admit_step_def split: option.splits if_splits)
qed

section \<open>Line endings do not reach the record\<close>

definition with_output :: "ax_obs_input_t \<Rightarrow> byte list \<Rightarrow> ax_obs_input_t" where
  "with_output i s = i\<lparr>in_output := Some s, in_output_len := of_nat (length s)\<rparr>"

lemma with_output_simps [simp]:
  "in_completion_state (with_output i s) = in_completion_state i"
  "in_failure_type (with_output i s) = in_failure_type i"
  "in_input (with_output i s) = in_input i" "in_input_len (with_output i s) = in_input_len i"
  "in_ledger_seq (with_output i s) = in_ledger_seq i" "in_model_id (with_output i s) = in_model_id i"
  "in_oracle_id (with_output i s) = in_oracle_id i" "in_params (with_output i s) = in_params i"
  "in_output (with_output i s) = Some s" "input_digest S (with_output i s) = input_digest S i"
  by (simp_all add: with_output_def input_digest_def split: option.split)

lemma with_output_len:
  "length s \<le> AX_MAX_OUTPUT_BYTES \<Longrightarrow> unat (in_output_len (with_output i s)) = length s"
  by (simp add: with_output_def unat_of_nat_size limit_defs)

lemma with_output_facts:
  assumes "length s \<le> AX_MAX_OUTPUT_BYTES"
  shows "\<not> over_limit (with_output i s)" "out_src (with_output i s) = s"
    "readable (with_output i s) \<longleftrightarrow> (case in_input i of None \<Rightarrow> True | Some p \<Rightarrow> unat (in_input_len i) \<le> length p)"
  using with_output_len [OF assms, of i] assms
  by (simp_all add: over_limit_def out_src_def readable_def split: option.split)

lemma schema_valid_with_output:
  assumes "length s \<le> AX_MAX_OUTPUT_BYTES" "length t \<le> AX_MAX_OUTPUT_BYTES"
  shows "input_is_schema_valid (with_output i s) = input_is_schema_valid (with_output i t)"
proof -
  have "\<not> of_nat AX_MAX_OUTPUT_BYTES < in_output_len (with_output i u)" if "length u \<le> AX_MAX_OUTPUT_BYTES" for u
    using with_output_facts(1) [OF that] over_limit_word by blast
  with assms show ?thesis
    by (simp add: input_is_schema_valid_def)
qed

lemma obs_of_with_output:
  assumes "length s \<le> AX_MAX_OUTPUT_BYTES" "length t \<le> AX_MAX_OUTPUT_BYTES" "lf_norm s = lf_norm t"
  shows "obs_of S (with_output i s) = obs_of S (with_output i t)"
proof -
  have "s = [] \<longleftrightarrow> t = []" using assms(3) norm_eol_eq_Nil by metis
  then show ?thesis
    using assms by (simp add: obs_of_def with_output_facts)
qed

lemma admit_code_with_output:
  assumes "length s \<le> AX_MAX_OUTPUT_BYTES" "length t \<le> AX_MAX_OUTPUT_BYTES" "lf_norm s = lf_norm t"
  shows "admit_code S n (with_output i s) ctx = admit_code S n (with_output i t) ctx"
proof -
  have "utf8_text s = utf8_text t"
    using assms(3) utf8_text_lf_norm_iff [of s] utf8_text_lf_norm_iff [of t] by simp
  then show ?thesis
    unfolding admit_code_def obs_of_with_output [OF assms] schema_valid_with_output [OF assms(1,2)]
      with_output_simps with_output_facts [OF assms(1)] with_output_facts [OF assms(2)] assms(3)
    by simp
qed

section \<open>Tampering\<close>

lemma same_content_text: "same_content a b \<Longrightarrow> obs_text a False = obs_text b False"
  by (simp add: same_content_def obs_text_def)

lemma validate_ok:
  assumes "digests_32 S" "length (input_hash r) = AX_HASH_SIZE" "ax_obs_validate S r f = Some (AX_OK, f')"
  shows "c_str (obs_hash r) = hex_text (commit_text S (obs_text r False))"
    and "opt_text (schema_version r) = AX_OBS_SCHEMA_VERSION"
proof -
  obtain s where s: "schema_version r = Some s" "c_str s = AX_OBS_SCHEMA_VERSION"
    using assms(3) by (auto simp: ax_obs_validate_def err_not_ok split: if_splits)
  moreover have v: "validate_output r f = None"
  proof (rule ccontr)
    assume "validate_output r f \<noteq> None"
    then obtain rc g where e: "validate_output r f = Some (rc, g)" by auto
    then have "rc \<noteq> AX_OK" by (auto simp: validate_output_def Let_def err_not_ok split: option.splits if_splits)
    with e s assms(3) show False by (simp add: ax_obs_validate_def)
  qed
  ultimately show "c_str (obs_hash r) = hex_text (commit_text S (obs_text r False))"
    using assms(3) validate_eq [OF assms(1,2) s v] by (auto simp: err_not_ok split: if_splits)
  show "opt_text (schema_version r) = AX_OBS_SCHEMA_VERSION" using s by (simp add: opt_text_def)
qed

section \<open>Inputs and derivation\<close>

lemma length_hash_text: "digests_32 S \<Longrightarrow> length (obs_hash (hashed S r)) = 64"
  by (simp add: hashed_def length_commit_text AX_HASH_SIZE_def)

lemma derivation_eq:
  assumes "length (c_str (obs_hash r)) = 64" "unat n \<le> length d"
  shows "ax_compute_derivation_hash S r (Some d) n =
    (if unat n \<le> AX_MAX_OBS_BYTES + 1 then Some (axilog_sha256 S (c_str (obs_hash r) @ take (unat n) d)) else None)"
  using assms by (auto simp: ax_compute_derivation_hash_def read_bytes_def limit_defs word_gt_0 unat_gt_0 Let_def)

section \<open>Properties\<close>

text \<open>A substrate and an input on which the hypotheses below hold.\<close>

definition sample_substrate :: "unit substrate" where
  "sample_substrate =
     \<lparr>axilog_sha256 = \<lambda>b. replicate 32 1, axilog_commit = \<lambda>t b f. (replicate 32 2, f),
      ct_fault_init = (), ct_fault_any = \<lambda>_. 0\<rparr>"

definition sample_input :: ax_obs_input_t where
  "sample_input =
     ax_obs_input_set_complete 7 (Some (str ''o'')) (Some (str ''m'')) (Some (str ''q'')) 1
       (Some (str ''hi'')) 2 None"

lemma sample_input_fields:
  "in_output sample_input = Some [0x68, 0x69]" "in_output_len sample_input = 2" "in_input_len sample_input = 1"
  "in_input sample_input = Some [0x71]" "in_model_id sample_input = Some [0x6D]" "in_oracle_id sample_input = Some [0x6F]"
  "in_completion_state sample_input = AX_COMPLETION_COMPLETE" "in_failure_type sample_input = AX_FAILURE_NULL"
  "in_ledger_seq sample_input = 7" "in_params sample_input = ax_oracle_params_init_null"
  by (simp_all add: sample_input_def ax_obs_input_set_complete_def ax_obs_input_init_def str_def Let_def)

lemma sample_substrate_ok:
  "digests_32 sample_substrate" "\<not> commit_faults sample_substrate t" "readable sample_input"
  by (simp_all add: digests_32_def sample_substrate_def commit_faults_def readable_def sample_input_fields limit_defs)

lemma sample_src: "out_src sample_input = [0x68, 0x69]" "lf_norm [0x68, 0x69] = [0x68, 0x69]" "\<not> over_limit sample_input"
  by (simp_all add: out_src_def sample_input_fields limit_defs over_limit_def)

lemma sample_text_short:
  "length (obs_text (obs_of sample_substrate sample_input) False) < 512"
  "length (obs_text (hashed sample_substrate (obs_of sample_substrate sample_input)) True) < 512"
proof -
  let ?r = "obs_of sample_substrate sample_input"
  have "length (input_hash ?r) = 32" "length (commit_text sample_substrate t) = 32" for t
    using length_input_digest [OF sample_substrate_ok(1), of sample_input] length_commit_text [OF sample_substrate_ok(1)]
    by (simp_all add: limit_defs)
  then show "length (obs_text ?r False) < 512" "length (obs_text (hashed sample_substrate ?r) True) < 512"
    using length_params_text [of "params ?r"]
    by (simp_all add: hashed_def obs_text_def) 
      (simp_all add: obs_of_def sample_src completion_text_def failure_text_def enum_defs
        sample_input_fields dec.simps opt_text_def escape_def esc_byte_def AX_OBS_SCHEMA_VERSION_def)
qed

lemma sample_admitted: "admit_code sample_substrate 64 sample_input ax_admission_ctx_init = AX_OK"
proof -
  have u: "utf8_text [0x68, 0x69]" "clean_text [0x68, 0x69]"
    unfolding clean_text_iff validate_utf8_iff [symmetric] by code_simp+
  have "id_is_well_formed (Some [0x6D])" "id_is_well_formed (Some [0x6F])" by code_simp+
  then have "input_is_schema_valid sample_input"
    by (simp add: input_is_schema_valid_def sample_input_fields state_pair_is_permitted_def enum_defs)
  then show ?thesis
    using u sample_text_short sample_substrate_ok(2)
    by (simp add: admit_code_def sample_input_fields ax_admission_ctx_init_def sample_src opt_text_def limit_defs)
qed


text \<open>
  C1: Admission decides by the ordered rules of \<open>admit_code\<close> and never reads or
  stores out of bounds: for readable input and a non-empty output buffer
  \<open>ax_obs_admit\<close> returns, its return code is that of the first rule that
  fails, and on \<open>AX_OK\<close> the record is \<open>obs_of\<close> of the input sealed with the
  hexadecimal commitment to its canonical text, the context has moved to its
  ledger number and the only flag raised is the one that marks a truncation.
\<close>

theorem admission_decision:
  assumes "digests_32 S" "n \<noteq> 0" "readable i"
  shows "\<exists>r. ax_obs_admit S n i ctx f = Some r \<and> a_rc r = admit_code S n i ctx \<and>
    (a_rc r = AX_OK \<longrightarrow>
       a_out r = (obs_of S i)\<lparr>obs_hash := hex_text (commit_text S (obs_text (obs_of S i) False))\<rparr> \<and>
       a_ctx r = \<lparr>last_ledger_seq = in_ledger_seq i, initialized = True\<rparr> \<and>
       a_faults r = (if over_limit i then f\<lparr>f_size := 1\<rparr> else f))"
  using admit_complete [OF assms, of ctx f] by (auto simp: admit_post_def hashed_def)

theorem admission_decision_witness:
  "\<exists>r. ax_obs_admit sample_substrate 64 sample_input ax_admission_ctx_init (ax_l3_fault_init ()) = Some r \<and>
    a_rc r = AX_OK \<and> a_ctx r = \<lparr>last_ledger_seq = 7, initialized = True\<rparr>"
  using admission_decision [of sample_substrate 64 sample_input ax_admission_ctx_init "ax_l3_fault_init ()"]
    sample_substrate_ok sample_admitted sample_input_fields(9) by auto

text \<open>
  C8: Admission fails closed: whatever the reason, a return code other than
  \<open>AX_OK\<close> comes with the admission context untouched, no observation hash in the
  record and a fault flag raised.
\<close>

theorem admission_fails_closed:
  assumes "digests_32 S" "n \<noteq> 0" "readable i" "ax_obs_admit S n i ctx f = Some r" "a_rc r \<noteq> AX_OK"
  shows "a_ctx r = ctx \<and> obs_hash (a_out r) = [] \<and> ax_l3_fault_any ct_any (a_faults r) \<noteq> 0"
  using admit_result [OF assms(1-4)] assms(5)
  by (auto simp: admit_post_def flagged_def ax_l3_fault_any_zero)

theorem admission_fails_closed_witness:
  "\<exists>r. ax_obs_admit sample_substrate 64 sample_input \<lparr>last_ledger_seq = 9, initialized = True\<rparr> (ax_l3_fault_init ()) = Some r \<and>
    a_rc r = AX_ERR_ORDERING \<and> a_ctx r = \<lparr>last_ledger_seq = 9, initialized = True\<rparr> \<and> obs_hash (a_out r) = []"
proof -
  let ?ctx = "\<lparr>last_ledger_seq = 9, initialized = True\<rparr>"
  obtain r where r: "ax_obs_admit sample_substrate 64 sample_input ?ctx (ax_l3_fault_init ()) = Some r"
    "a_rc r = admit_code sample_substrate 64 sample_input ?ctx"
    using admit_complete [of sample_substrate 64 sample_input ?ctx "ax_l3_fault_init ()"] sample_substrate_ok by auto
  then have "a_rc r = AX_ERR_ORDERING" by (simp add: admit_code_def sample_input_fields)
  with r admission_fails_closed [of sample_substrate 64 sample_input ?ctx "ax_l3_fault_init ()" r] sample_substrate_ok
  show ?thesis by (auto simp: err_not_ok)
qed

text \<open>
  C12: An admitted record passes \<open>ax_obs_validate\<close>, with the flags left alone: what
  admission seals, validation recomputes and accepts.
\<close>

theorem admitted_record_validates:
  assumes "digests_32 S" "n \<noteq> 0" "readable i" "ax_obs_admit S n i ctx f = Some r" "a_rc r = AX_OK"
  shows "ax_obs_validate S (a_out r) g = Some (AX_OK, g)"
  using admit_ok_record [OF assms] admitted_validates [OF assms(1)] by simp

theorem admitted_record_validates_witness:
  "ax_obs_validate sample_substrate (hashed sample_substrate (obs_of sample_substrate sample_input)) (ax_l3_fault_init ()) =
     Some (AX_OK, ax_l3_fault_init ())"
proof -
  obtain r where r: "ax_obs_admit sample_substrate 64 sample_input ax_admission_ctx_init (ax_l3_fault_init ()) = Some r"
    "a_rc r = AX_OK" "a_out r = hashed sample_substrate (obs_of sample_substrate sample_input)"
    using admit_complete [of sample_substrate 64 sample_input ax_admission_ctx_init "ax_l3_fault_init ()"]
      sample_substrate_ok sample_admitted by (auto simp: admit_post_def)
  with admitted_record_validates [of sample_substrate 64 sample_input ax_admission_ctx_init "ax_l3_fault_init ()" r]
  show ?thesis using sample_substrate_ok by simp
qed

text \<open>
  C18: The ordering guard: whatever inputs are offered in whatever order, through
  rejections of every kind, the ledger numbers of the records admitted under
  one context are strictly increasing, and above the number the context started
  from.
\<close>

theorem admitted_numbers_increase:
  "sorted_wrt (<) ((case ctx_seq ctx of Some l \<Rightarrow> [l] | None \<Rightarrow> []) @
     map ledger_seq (snd (offer_all (admit_step S n f) ctx inputs)))"
proof -
  obtain c rs where o: "offer_all (admit_step S n f) ctx inputs = (c, rs)" by (cases "offer_all (admit_step S n f) ctx inputs")
  have "sorted_wrt (<) (map ledger_seq rs)"
    using admission.offered_increasing [OF o] by (simp add: sorted_wrt_map)
  then show ?thesis
    using admission.offered_above [OF o] o by (auto split: option.split)
qed

text \<open>
  Every admitted record is well formed: its state pair is one of the permitted
  ones, its identifiers are non-empty UTF-8 without control characters and
  within their limits, its output is normalised text of plain scalar values, its
  size field is the output's length or, for an output over the limit, the
  original length, and its complete canonical form is at most
  \<open>AX_MAX_OBS_BYTES\<close> long.
\<close>

theorem admitted_record_well_formed:
  assumes "digests_32 S" "n \<noteq> 0" "readable i" "ax_obs_admit S n i ctx f = Some r" "a_rc r = AX_OK"
  shows "state_pair_is_permitted (completion_state (a_out r)) (failure_type (a_out r)) \<and>
    id_text (opt_text (model_id (a_out r))) \<and> length (opt_text (model_id (a_out r))) \<le> AX_MAX_MODEL_ID_BYTES \<and>
    id_text (opt_text (oracle_id (a_out r))) \<and> length (opt_text (oracle_id (a_out r))) \<le> AX_MAX_ORACLE_ID_BYTES \<and>
    clean_text (opt_text (obs_output (a_out r))) \<and>
    unat (output_size (a_out r)) =
      (if over_limit i then unat (in_output_len i) else length (opt_text (obs_output (a_out r)))) \<and>
    opt_text (schema_version (a_out r)) = AX_OBS_SCHEMA_VERSION \<and>
    length (obs_text (a_out r) True) \<le> AX_MAX_OBS_BYTES"
proof -
  note ok = admit_ok_record [OF assms]
  note c = admit_code_ok [OF ok(2)]
  let ?o = "obs_of S i"
  have eqs: "completion_state (a_out r) = completion_state ?o" "failure_type (a_out r) = failure_type ?o"
    "model_id (a_out r) = in_model_id i" "oracle_id (a_out r) = in_oracle_id i" "obs_output (a_out r) = obs_output ?o"
    "output_size (a_out r) = output_size ?o" "opt_text (schema_version (a_out r)) = AX_OBS_SCHEMA_VERSION"
    unfolding ok(1) by (simp_all add: hashed_def) (simp_all add: obs_of_def opt_text_def)
  have "state_pair_is_permitted (completion_state ?o) (failure_type ?o)"
    using c(2) over_limit_word [of i]
    by (auto simp: input_is_schema_valid_def obs_of_def state_pair_is_permitted_def enum_defs split: if_splits)
  moreover have "id_text (opt_text (in_model_id i))" "id_text (opt_text (in_oracle_id i))"
    using c(2) by (auto simp: input_is_schema_valid_def id_well_formed_iff split: if_splits)
  moreover have "unat (output_size ?o) = (if over_limit i then unat (in_output_len i) else length (opt_text (obs_output ?o)))"
    unfolding opt_text_obs_of [OF c(5)] using unat_length_norm [of i] by (simp add: obs_of_def)
  ultimately show ?thesis
    unfolding eqs opt_text_obs_of [OF c(5)] using c(3,4,5,9) ok(1) by simp
qed



text \<open>
  The record does not depend on how the oracle ends its lines: two outputs
  within the limit that agree up to CR LF, CR and LF are admitted or rejected
  alike and, if admitted, give the same record with the same observation hash.
\<close>

theorem line_endings_do_not_matter:
  assumes "digests_32 S" "n \<noteq> 0" "readable (with_output i s)" "readable (with_output i t)"
    and "length s \<le> AX_MAX_OUTPUT_BYTES" "length t \<le> AX_MAX_OUTPUT_BYTES" "lf_norm s = lf_norm t"
  shows "\<exists>r q. ax_obs_admit S n (with_output i s) ctx f = Some r \<and> ax_obs_admit S n (with_output i t) ctx f = Some q \<and>
    a_rc r = a_rc q \<and> a_ctx r = a_ctx q \<and> (a_rc r = AX_OK \<longrightarrow> a_out r = a_out q)"
proof -
  obtain r q where rq: "ax_obs_admit S n (with_output i s) ctx f = Some r" "a_rc r = admit_code S n (with_output i s) ctx"
    "admit_post S (with_output i s) ctx f r" "ax_obs_admit S n (with_output i t) ctx f = Some q"
    "a_rc q = admit_code S n (with_output i t) ctx" "admit_post S (with_output i t) ctx f q"
    using admit_complete [OF assms(1,2,3), of ctx f] admit_complete [OF assms(1,2,4), of ctx f] by blast
  then have "a_rc r = a_rc q \<and> a_ctx r = a_ctx q \<and> (a_rc r = AX_OK \<longrightarrow> a_out r = a_out q)"
    using admit_code_with_output [OF assms(5-7), of S n i ctx] obs_of_with_output [OF assms(5-7), of S i]
    by (auto simp: admit_post_def split: if_splits)
  with rq show ?thesis by blast
qed

theorem line_endings_do_not_matter_witness:
  "\<exists>r q. ax_obs_admit sample_substrate 64 (with_output sample_input [0x61, 0x0D, 0x0A]) ax_admission_ctx_init (ax_l3_fault_init ()) = Some r \<and>
     ax_obs_admit sample_substrate 64 (with_output sample_input [0x61, 0x0A]) ax_admission_ctx_init (ax_l3_fault_init ()) = Some q \<and>
     a_rc r = a_rc q \<and> a_ctx r = a_ctx q"
proof -
  have "readable (with_output sample_input [0x61, 0x0D, 0x0A])" "readable (with_output sample_input [0x61, 0x0A])"
    by (simp_all add: with_output_facts limit_defs sample_input_fields)
  then show ?thesis
    using line_endings_do_not_matter [of sample_substrate 64 sample_input "[0x61, 0x0D, 0x0A]" "[0x61, 0x0A]"
        ax_admission_ctx_init "ax_l3_fault_init ()"]
    by (auto simp: sample_substrate_ok limit_defs)
qed

text \<open>
  The identifier check used at configuration time is the pair of rules admission
  applies: too long (as a C string) gives \<open>AX_ERR_SIZE\<close>, anything but non-empty
  UTF-8 free of control characters, LF included, gives \<open>AX_ERR_SCHEMA\<close>, and
  \<open>NULL\<close> is a schema error.
\<close>

theorem identifier_check_spec:
  assumes "unat limit < 2 ^ 64 - 1"
  shows "ax_obs_identifier_check p limit =
    (if unat limit < length (opt_text p) then AX_ERR_SIZE
     else if id_text (opt_text p) then AX_OK else AX_ERR_SCHEMA)"
  using assms by (simp add: ax_obs_identifier_check_def id_too_long_iff id_well_formed_iff)

theorem identifier_check_spec_witness:
  "ax_obs_identifier_check (Some (str ''abc'')) 2 = AX_ERR_SIZE"
  using identifier_check_spec [of 2 "Some (str ''abc'')"] by (simp add: opt_text_def)

lemma schema_valid_iff:
  "input_is_schema_valid i \<longleftrightarrow>
     id_text (opt_text (in_model_id i)) \<and> id_text (opt_text (in_oracle_id i)) \<and>
     state_pair_is_permitted (in_completion_state i) (in_failure_type i) \<and>
     (in_completion_state i = AX_COMPLETION_ERROR \<longrightarrow> \<not> over_limit i) \<and>
     (in_input i = None \<longrightarrow> in_input_len i = 0) \<and> (in_output i = None \<longrightarrow> in_output_len i = 0)"
  unfolding input_is_schema_valid_def id_well_formed_iff over_limit_word by (auto simp: word_gt_0)

text \<open>
  The four input helpers build inputs that pass the schema check whenever their
  identifiers are well formed and their pointers go with their lengths; an
  error output must also be within the output limit.
\<close>

theorem helper_inputs_valid:
  assumes "id_text (opt_text model)" "id_text (opt_text orac)" "input = None \<longrightarrow> ilen = 0" "out = None \<longrightarrow> olen = 0"
    and "unat olen \<le> AX_MAX_OUTPUT_BYTES"
  shows "input_is_schema_valid (ax_obs_input_set_complete seq orac model input ilen out olen ps) \<and>
    input_is_schema_valid (ax_obs_input_set_timeout seq orac model input ilen) \<and>
    input_is_schema_valid (ax_obs_input_set_transport_error seq orac model input ilen) \<and>
    input_is_schema_valid (ax_obs_input_set_invalid_output seq orac model input ilen out olen)"
proof -
  note defs = schema_valid_iff ax_obs_input_init_def Let_def state_pair_is_permitted_def enum_defs limit_defs
  have "input_is_schema_valid (ax_obs_input_set_complete seq orac model input ilen out olen ps)"
    using assms by (cases ps) (simp_all add: defs ax_obs_input_set_complete_def over_limit_def)
  moreover have "input_is_schema_valid (ax_obs_input_set_timeout seq orac model input ilen)"
    using assms by (simp add: defs ax_obs_input_set_timeout_def over_limit_def)
  moreover have "input_is_schema_valid (ax_obs_input_set_transport_error seq orac model input ilen)"
    using assms by (simp add: defs ax_obs_input_set_transport_error_def over_limit_def)
  moreover have "input_is_schema_valid (ax_obs_input_set_invalid_output seq orac model input ilen out olen)"
    using assms by (simp add: defs ax_obs_input_set_invalid_output_def over_limit_def)
  ultimately show ?thesis by blast
qed

theorem helper_inputs_valid_witness:
  "input_is_schema_valid (ax_obs_input_set_timeout 3 (Some [0x6F]) (Some [0x6D]) None 0)"
proof -
  have "id_text (opt_text (Some [0x6D]))" "id_text (opt_text (Some [0x6F]))"
    unfolding id_well_formed_iff [symmetric] by code_simp+
  then show ?thesis
    using helper_inputs_valid [of "Some [0x6D]" "Some [0x6F]" None 0 None 0] by simp
qed

text \<open>
  For a record with a 64-character hash, such as every admitted one, the
  derivation hash is SHA-256 of that hash followed by the derivation context as
  long as the context has at most \<open>AX_MAX_OBS_BYTES + 1\<close> bytes; a longer context
  overflows the function's stack buffer, as its length is not checked.
\<close>

theorem derivation_hash_spec:
  assumes "length (c_str (obs_hash r)) = 64" "unat n \<le> length d"
  shows "ax_compute_derivation_hash S r (Some d) n =
    (if unat n \<le> AX_MAX_OBS_BYTES + 1
     then Some (axilog_sha256 S (c_str (obs_hash r) @ take (unat n) d)) else None)"
  using assms by (rule derivation_eq)

theorem derivation_hash_spec_witness:
  "ax_compute_derivation_hash sample_substrate (sample_record\<lparr>obs_hash := replicate 64 0x61\<rparr>) (Some [0x78]) 1 =
     Some (replicate 32 1)"
proof -
  have "length (c_str (obs_hash (sample_record\<lparr>obs_hash := replicate 64 0x61\<rparr>))) = 64"
    by (subst c_str_id) (simp_all add: sample_record_def)
  then show ?thesis
    using derivation_hash_spec [of "sample_record\<lparr>obs_hash := replicate 64 0x61\<rparr>" 1 "[0x78]" sample_substrate]
    by (simp add: limit_defs sample_substrate_def)
qed

text \<open>Plain ASCII in front of a text does not change whether it is UTF-8.\<close>

lemma validate_utf8_ascii: "ax_validate_utf8 (replicate k 0x61 @ s) = ax_validate_utf8 s"
  by (induction k) (simp_all add: ax_validate_utf8_def Let_def)

definition long_output :: "byte list" where
  "long_output = replicate (AX_MAX_OUTPUT_BYTES - 1) 0x61 @ [0xC3, 0xA9]"

text \<open>
  An output over the limit is cut after \<open>AX_MAX_OUTPUT_BYTES\<close> bytes, in the
  middle of a character if that is where the limit falls: an input whose output
  is well-formed UTF-8 and one byte too long is then not recorded as
  \<open>TRUNCATED\<close> but rejected with \<open>AX_ERR_ENCODING\<close>.
\<close>

theorem truncation_cuts_characters:
  "ax_validate_utf8 long_output \<and> over_limit (with_output sample_input long_output) \<and>
   map_option a_rc (ax_obs_admit sample_substrate 131072 (with_output sample_input long_output)
     ax_admission_ctx_init (ax_l3_fault_init ())) = Some AX_ERR_ENCODING"
proof -
  let ?i = "with_output sample_input long_output"
  have len: "length long_output = AX_MAX_OUTPUT_BYTES + 1" by (simp add: long_output_def limit_defs)
  then have ulen: "unat (in_output_len ?i) = AX_MAX_OUTPUT_BYTES + 1"
    by (simp add: with_output_def unat_of_nat_size limit_defs)
  have src: "out_src ?i = replicate (AX_MAX_OUTPUT_BYTES - 1) 0x61 @ [0xC3]"
    unfolding out_src_def ulen by (simp add: long_output_def limit_defs)
  have over: "over_limit ?i" by (simp add: over_limit_def ulen)
  have two: "ax_validate_utf8 [0xC3, 0xA9]" "\<not> ax_validate_utf8 [0xC3]" by code_simp+
  have good: "ax_validate_utf8 long_output" unfolding long_output_def validate_utf8_ascii by (rule two(1))
  have bad: "\<not> utf8_text (out_src ?i)" unfolding src validate_utf8_iff [symmetric] validate_utf8_ascii by (rule two(2))
  have read: "readable ?i" using len ulen by (simp add: readable_def sample_input_fields)
  have "input_is_schema_valid sample_input" using admit_code_ok(2) [OF sample_admitted] .
  then have valid: "input_is_schema_valid ?i" by (simp add: schema_valid_iff sample_input_fields enum_defs)
  have "admit_code sample_substrate 131072 ?i ax_admission_ctx_init = AX_ERR_ENCODING"
    using valid bad by (simp add: admit_code_def ax_admission_ctx_init_def sample_input_fields opt_text_def limit_defs)
  then show ?thesis
    using good over admit_complete [OF sample_substrate_ok(1) _ read, of 131072 ax_admission_ctx_init "ax_l3_fault_init ()"]
    by auto
qed

end
