(* ===== verification/GwJson.thy ===== *)
theory GwJson
  imports Encoding Canonical
begin

text \<open>
  \<open>gateway/src/gw_json.c\<close>: the gateway's JSON escaping and the small scanner it
  reads configuration and service responses with.

  A scanner \<open>scan_t\<close> is the list of the bytes from \<open>p\<close> to \<open>end\<close>; a function that
  returns \<open>-1\<close> returns \<open>None\<close>.  A destination is the list of bytes stored so far, so
  that the index \<open>o\<close> is its length; each store is guarded by the capacity the
  function is given.  The functions that loop over members of objects and
  arrays take fuel, and the outer \<open>None\<close> of their result is running out of it;
  \<open>scan_fuel\<close> is always enough (lemmas \<open>skip_value_fuel\<close>, \<open>top_loop_fuel\<close>,
  \<open>content_loop_fuel\<close>, \<open>error_loop_fuel\<close>), so the exported functions
  \<open>gwj_top_string\<close>, \<open>gwj_content_text\<close> and \<open>gwj_error_message\<close> are total.
\<close>

section \<open>Model: escaping\<close>

definition gwj_rep :: "byte \<Rightarrow> byte list option" where
  "gwj_rep c =
     (if c = 0x22 then Some [0x5C, 0x22]
      else if c = 0x5C then Some [0x5C, 0x5C]
      else if c = 0x0A then Some [0x5C, 0x6E]
      else if c = 0x0D then Some [0x5C, 0x72]
      else if c = 0x09 then Some [0x5C, 0x74]
      else if c < 0x20 then
        Some [0x5C, 0x75, 0x30, 0x30, hexdigit (drop_bit 4 c AND 0xF), hexdigit (c AND 0xF)]
      else None)"

fun gwj_escape_loop :: "size_t \<Rightarrow> byte list \<Rightarrow> byte list \<Rightarrow> int \<times> byte list" where
  "gwj_escape_loop cap dst [] = (int_of_size (of_nat (length dst)), dst)"
| "gwj_escape_loop cap dst (c # src) =
     (case gwj_rep c of
        Some rep \<Rightarrow>
          if cap < of_nat (length dst) + of_nat (length rep) then (-1, dst)
          else gwj_escape_loop cap (dst @ rep) src
      | None \<Rightarrow>
          if cap < of_nat (length dst) + 1 then (-1, dst)
          else gwj_escape_loop cap (dst @ [c]) src)"

definition gwj_escape :: "size_t \<Rightarrow> byte list \<Rightarrow> int \<times> byte list" where
  "gwj_escape cap src = gwj_escape_loop cap [] src"

fun utf8_seq_len :: "byte list \<Rightarrow> nat" where
  "utf8_seq_len [] = 0"
| "utf8_seq_len (c # s) =
     (if c < 0x80 then 1
      else if 0xC2 \<le> c \<and> c \<le> 0xDF then
        (case s of s1 # _ \<Rightarrow> if s1 AND 0xC0 = 0x80 then 2 else 0 | _ \<Rightarrow> 0)
      else if 0xE0 \<le> c \<and> c \<le> 0xEF then
        (let lo = (if c = 0xE0 then 0xA0 else 0x80); hi = (if c = 0xED then 0x9F else 0xBF) in
         case s of
           s1 # s2 # _ \<Rightarrow> if lo \<le> s1 \<and> s1 \<le> hi \<and> s2 AND 0xC0 = 0x80 then 3 else 0
         | _ \<Rightarrow> 0)
      else if 0xF0 \<le> c \<and> c \<le> 0xF4 then
        (let lo = (if c = 0xF0 then 0x90 else 0x80); hi = (if c = 0xF4 then 0x8F else 0xBF) in
         case s of
           s1 # s2 # s3 # _ \<Rightarrow>
             if lo \<le> s1 \<and> s1 \<le> hi \<and> s2 AND 0xC0 = 0x80 \<and> s3 AND 0xC0 = 0x80 then 4 else 0
         | _ \<Rightarrow> 0)
      else 0)"

text \<open>\<open>src\<close> points to at least \<open>len\<close> bytes.\<close>

definition gwj_escape_utf8 :: "size_t \<Rightarrow> byte list option \<Rightarrow> size_t \<Rightarrow> int \<times> byte list" where
  "gwj_escape_utf8 cap src len =
     (case src of
        None \<Rightarrow> if 0 < len then (-1, []) else gwj_escape cap []
      | Some s \<Rightarrow>
          if utf8_scan utf8_seq_len (take (unat len) s) then gwj_escape cap (take (unat len) s)
          else (-1, []))"

section \<open>Model: scanning primitives\<close>

definition is_ws :: "byte \<Rightarrow> bool" where
  "is_ws c \<longleftrightarrow> c = 0x20 \<or> c = 0x09 \<or> c = 0x0A \<or> c = 0x0D"

fun s_ws :: "byte list \<Rightarrow> byte list" where
  "s_ws [] = []"
| "s_ws (c # s) = (if is_ws c then s_ws s else c # s)"

text \<open>\<open>if (s_eof(s) || *s->p != c) return -1; s->p++;\<close>\<close>

fun s_expect :: "byte \<Rightarrow> byte list \<Rightarrow> byte list option" where
  "s_expect c [] = None"
| "s_expect c (d # s) = (if d = c then Some s else None)"

function skip_string_loop :: "byte list \<Rightarrow> byte list option" where
  "skip_string_loop [] = None"
| "skip_string_loop (c # s) =
     (if c = 0x22 then Some s
      else if c = 0x5C then
        (case s of
           [] \<Rightarrow> None
         | e # s' \<Rightarrow>
             if e = 0x75 then if length s' < 4 then None else skip_string_loop (drop 4 s')
             else skip_string_loop s')
      else skip_string_loop s)"
  by pat_completeness auto
termination
  by (relation "measure length") auto

definition s_skip_string :: "byte list \<Rightarrow> byte list option" where
  "s_skip_string s = do { s \<leftarrow> s_expect 0x22 s; skip_string_loop s }"

definition hexval :: "byte \<Rightarrow> nat option" where
  "hexval c =
     (if 0x30 \<le> c \<and> c \<le> 0x39 then Some (unat c - 0x30)
      else if 0x61 \<le> c \<and> c \<le> 0x66 then Some (unat c - 0x61 + 10)
      else if 0x41 \<le> c \<and> c \<le> 0x46 then Some (unat c - 0x41 + 10)
      else None)"

fun u4_loop :: "nat \<Rightarrow> byte list \<Rightarrow> nat option" where
  "u4_loop v [] = Some v"
| "u4_loop v (c # s) = do { h \<leftarrow> hexval c; u4_loop (push_bit 4 v OR h) s }"

definition s_read_u4 :: "byte list \<Rightarrow> (nat \<times> byte list) option" where
  "s_read_u4 s =
     (if length s < 4 then None
      else do { v \<leftarrow> u4_loop 0 (take 4 s); Some (v, drop 4 s) })"

definition put_bytes :: "size_t \<Rightarrow> byte list \<Rightarrow> byte list \<Rightarrow> byte list option" where
  "put_bytes cap dst b = (if cap < of_nat (length dst) + of_nat (length b) then None else Some (dst @ b))"

definition put_utf8 :: "size_t \<Rightarrow> byte list \<Rightarrow> nat \<Rightarrow> byte list option" where
  "put_utf8 cap dst cp =
     (if cp < 0x80 then put_bytes cap dst [of_nat cp]
      else if cp < 0x800 then
        put_bytes cap dst [of_nat (0xC0 OR drop_bit 6 cp), of_nat (0x80 OR (cp AND 0x3F))]
      else if cp < 0x10000 then
        put_bytes cap dst [of_nat (0xE0 OR drop_bit 12 cp), of_nat (0x80 OR (drop_bit 6 cp AND 0x3F)),
          of_nat (0x80 OR (cp AND 0x3F))]
      else if cp \<le> 0x10FFFF then
        put_bytes cap dst [of_nat (0xF0 OR drop_bit 18 cp), of_nat (0x80 OR (drop_bit 12 cp AND 0x3F)),
          of_nat (0x80 OR (drop_bit 6 cp AND 0x3F)), of_nat (0x80 OR (cp AND 0x3F))]
      else None)"

text \<open>The escape \<open>\u\<close>: what follows it, up to and including a low surrogate.\<close>

definition read_cp :: "byte list \<Rightarrow> (nat \<times> byte list) option" where
  "read_cp s =
     do {
       (u1, s) \<leftarrow> s_read_u4 s;
       if 0xD800 \<le> u1 \<and> u1 \<le> 0xDBFF then
         if length s < 6 \<or> s ! 0 \<noteq> 0x5C \<or> s ! 1 \<noteq> 0x75 then None
         else do {
           (u2, s) \<leftarrow> s_read_u4 (drop 2 s);
           if u2 < 0xDC00 \<or> 0xDFFF < u2 then None
           else Some (0x10000 + (push_bit 10 (u1 - 0xD800) OR (u2 - 0xDC00)), s)
         }
       else if 0xDC00 \<le> u1 \<and> u1 \<le> 0xDFFF then None
       else Some (u1, s)
     }"

lemma read_u4_length: "s_read_u4 s = Some (v, s') \<Longrightarrow> length s' < length s"
  by (auto simp: s_read_u4_def split: if_splits bind_splits)

lemma read_cp_length: "read_cp s = Some (v, s') \<Longrightarrow> length s' < length s"
  by (auto simp: read_cp_def split: if_splits bind_splits dest!: read_u4_length)

text \<open>The single-character escapes of \<open>s_decode_string\<close>.\<close>

definition simple_escape :: "byte \<Rightarrow> byte option" where
  "simple_escape e =
     (if e = 0x22 \<or> e = 0x5C \<or> e = 0x2F then Some e
      else if e = 0x62 then Some 0x08
      else if e = 0x66 then Some 0x0C
      else if e = 0x6E then Some 0x0A
      else if e = 0x72 then Some 0x0D
      else if e = 0x74 then Some 0x09
      else None)"

function decode_loop :: "size_t \<Rightarrow> byte list \<Rightarrow> byte list \<Rightarrow> (byte list \<times> byte list) option" where
  "decode_loop cap dst [] = None"
| "decode_loop cap dst (c # s) =
     (if c = 0x22 then Some (dst, s)
      else if c = 0x5C then
        (case s of
           [] \<Rightarrow> None
         | e # s' \<Rightarrow>
             (case simple_escape e of
                Some b \<Rightarrow> (case put_bytes cap dst [b] of None \<Rightarrow> None | Some d \<Rightarrow> decode_loop cap d s')
              | None \<Rightarrow>
                  if e = 0x75 then
                    (case read_cp s' of
                       None \<Rightarrow> None
                     | Some (cp, s'') \<Rightarrow>
                         (case put_utf8 cap dst cp of None \<Rightarrow> None | Some d \<Rightarrow> decode_loop cap d s''))
                  else None))
      else (case put_bytes cap dst [c] of None \<Rightarrow> None | Some d \<Rightarrow> decode_loop cap d s))"
  by pat_completeness auto
termination
proof (relation "measure (\<lambda>(_, _, s). length s)")
qed (auto dest: read_cp_length)

definition s_decode_string :: "size_t \<Rightarrow> byte list \<Rightarrow> byte list \<Rightarrow> (byte list \<times> byte list) option" where
  "s_decode_string cap dst s = do { s \<leftarrow> s_expect 0x22 s; decode_loop cap dst s }"

section \<open>Model: values and documents\<close>

text \<open>\<open>strchr(tok, c) != NULL\<close>; the search includes the terminating NUL.\<close>

definition is_tok :: "byte \<Rightarrow> bool" where
  "is_tok c \<longleftrightarrow> c \<in> set (str ''0123456789+-.eEtruefalsn'') \<or> c = 0"

fun s_skip_value :: "nat \<Rightarrow> nat \<Rightarrow> byte list \<Rightarrow> byte list option option"
  and skip_members :: "nat \<Rightarrow> byte \<Rightarrow> byte \<Rightarrow> nat \<Rightarrow> byte list \<Rightarrow> byte list option option"
where
  "s_skip_value 0 depth s = None"
| "s_skip_value (Suc fuel) depth s =
     (if 64 < depth then Some None
      else case s_ws s of
        [] \<Rightarrow> Some None
      | c # r \<Rightarrow>
          if c = 0x22 then Some (s_skip_string (c # r))
          else if c = 0x7B \<or> c = 0x5B then
            (let close = (if c = 0x7B then 0x7D else 0x5D) in
             case s_expect close (s_ws r) of
               Some r' \<Rightarrow> Some (Some r')
             | None \<Rightarrow> skip_members fuel c close depth (s_ws r))
          else if \<not> is_tok c then Some None
          else Some (Some (dropWhile is_tok (c # r))))"
| "skip_members 0 op close depth s = None"
| "skip_members (Suc fuel) op close depth s =
     (case (if op = 0x7B then do { s \<leftarrow> s_skip_string (s_ws s); s_expect 0x3A (s_ws s) } else Some s) of
        None \<Rightarrow> Some None
      | Some s \<Rightarrow>
          (case s_skip_value fuel (depth + 1) s of
             None \<Rightarrow> None
           | Some None \<Rightarrow> Some None
           | Some (Some s) \<Rightarrow>
               (case s_ws s of
                  [] \<Rightarrow> Some None
                | c # s \<Rightarrow>
                    if c = 0x2C then skip_members fuel op close depth s
                    else if c = close then Some (Some s)
                    else Some None)))"

definition scan_fuel :: "byte list \<Rightarrow> nat" where
  "scan_fuel s = 2 * length s + 2"

text \<open>A key of at most \<open>cap\<close> bytes, the colon and the blanks around it; the key as a C string.\<close>

definition s_key :: "size_t \<Rightarrow> byte list \<Rightarrow> (byte list \<times> byte list) option" where
  "s_key cap s =
     do {
       (k, s) \<leftarrow> s_decode_string cap [] s;
       s \<leftarrow> s_expect 0x3A (s_ws s);
       Some (c_str k, s_ws s)
     }"

fun top_loop :: "nat \<Rightarrow> byte list \<Rightarrow> size_t \<Rightarrow> byte list \<Rightarrow> byte list option option" where
  "top_loop 0 key cap s = None"
| "top_loop (Suc fuel) key cap s =
     (let s = s_ws s in
      if s_expect 0x7D s \<noteq> None then Some None
      else case s_key 63 s of
        None \<Rightarrow> Some None
      | Some (k, s) \<Rightarrow>
          if k = key then
            Some (do { (d, _) \<leftarrow> s_decode_string (cap - 1) [] s; Some (d @ [0]) })
          else
            (case s_skip_value (scan_fuel s) 0 s of
               None \<Rightarrow> None
             | Some None \<Rightarrow> Some None
             | Some (Some s) \<Rightarrow>
                 (case s_ws s of
                    [] \<Rightarrow> Some None
                  | c # s \<Rightarrow> if c = 0x2C then top_loop fuel key cap s else Some None)))"

definition gwj_top_string :: "byte list \<Rightarrow> byte list \<Rightarrow> size_t \<Rightarrow> byte list option option" where
  "gwj_top_string body key cap =
     (case s_expect 0x7B (s_ws body) of
        None \<Rightarrow> Some None
      | Some s \<Rightarrow> top_loop (scan_fuel s) key cap s)"

text \<open>The value of the key \<open>ek\<close> of an element: its type, where its text starts, or anything else.\<close>

definition element_value :: "bool \<Rightarrow> byte list option \<Rightarrow> byte list \<Rightarrow> byte list \<Rightarrow>
    (bool \<times> byte list option \<times> byte list) option option" where
  "element_value is_text text_at ek s =
     (if ek = str ''type'' then
        Some (do {
          (tv, s') \<leftarrow> s_decode_string 15 [] s;
          Some (is_text \<or> c_str tv = str ''text'', text_at, s')
        })
      else if ek = str ''text'' then
        Some (do { s' \<leftarrow> s_skip_string s; Some (is_text, Some s, s') })
      else
        (case s_skip_value (scan_fuel s) 0 s of
           None \<Rightarrow> None
         | Some None \<Rightarrow> Some None
         | Some (Some s') \<Rightarrow> Some (Some (is_text, text_at, s'))))"

text \<open>
  One element of \<open>content[]\<close>: whether its type is \<open>text\<close>, where its text starts,
  and what follows the element.
\<close>

fun element_loop :: "nat \<Rightarrow> bool \<Rightarrow> byte list option \<Rightarrow> byte list \<Rightarrow>
    (bool \<times> byte list option \<times> byte list) option option" where
  "element_loop 0 is_text text_at s = None"
| "element_loop (Suc fuel) is_text text_at s =
     (let s = s_ws s in
      case s_expect 0x7D s of
        Some s \<Rightarrow> Some (Some (is_text, text_at, s))
      | None \<Rightarrow>
          (case s_key 31 s of
             None \<Rightarrow> Some None
           | Some (ek, s) \<Rightarrow>
               (case element_value is_text text_at ek s of
                  None \<Rightarrow> None
                | Some None \<Rightarrow> Some None
                | Some (Some (is_text, text_at, s)) \<Rightarrow>
                    (case s_ws s of
                       [] \<Rightarrow> Some None
                     | c # s \<Rightarrow>
                         if c = 0x2C then element_loop fuel is_text text_at s
                         else if c = 0x7D then Some (Some (is_text, text_at, s))
                         else Some None))))"

fun array_loop :: "nat \<Rightarrow> size_t \<Rightarrow> byte list \<Rightarrow> byte list \<Rightarrow> (byte list \<times> byte list) option option" where
  "array_loop 0 cap dst s = None"
| "array_loop (Suc fuel) cap dst s =
     (case s_expect 0x7B (s_ws s) of
        None \<Rightarrow> Some None
      | Some s \<Rightarrow>
          (case element_loop (scan_fuel s) False None s of
             None \<Rightarrow> None
           | Some None \<Rightarrow> Some None
           | Some (Some (is_text, text_at, s)) \<Rightarrow>
               (case
                  (case text_at of
                     Some t \<Rightarrow> if is_text then map_option fst (s_decode_string cap dst t) else Some dst
                   | None \<Rightarrow> Some dst)
                of
                  None \<Rightarrow> Some None
                | Some dst \<Rightarrow>
                    (case s_ws s of
                       [] \<Rightarrow> Some None
                     | c # s \<Rightarrow>
                         if c = 0x2C then array_loop fuel cap dst s
                         else if c = 0x5D then Some (Some (dst, s))
                         else Some None))))"

text \<open>The value of the key \<open>content\<close>, an array.\<close>

definition content_value :: "size_t \<Rightarrow> byte list \<Rightarrow> byte list \<Rightarrow> (byte list \<times> byte list) option option" where
  "content_value cap dst s =
     (case s_expect 0x5B s of
        None \<Rightarrow> Some None
      | Some s \<Rightarrow>
          let s = s_ws s in
          case s_expect 0x5D s of
            Some s \<Rightarrow> Some (Some (dst, s))
          | None \<Rightarrow> array_loop (scan_fuel s) cap dst s)"

fun content_loop :: "nat \<Rightarrow> size_t \<Rightarrow> bool \<Rightarrow> byte list \<Rightarrow> byte list \<Rightarrow> (bool \<times> byte list) option option" where
  "content_loop 0 cap found dst s = None"
| "content_loop (Suc fuel) cap found dst s =
     (let s = s_ws s in
      if s_expect 0x7D s \<noteq> None then Some (Some (found, dst))
      else case s_key 63 s of
        None \<Rightarrow> Some None
      | Some (k, s) \<Rightarrow>
          (case
             (if k = str ''content'' then map_option (map_option (\<lambda>(d, s). (True, d, s))) (content_value cap dst s)
              else map_option (map_option (\<lambda>s. (found, dst, s))) (s_skip_value (scan_fuel s) 0 s))
           of
             None \<Rightarrow> None
           | Some None \<Rightarrow> Some None
           | Some (Some (found, dst, s)) \<Rightarrow>
               (case s_ws s of
                  [] \<Rightarrow> Some None
                | c # s \<Rightarrow>
                    if c = 0x2C then content_loop fuel cap found dst s
                    else if c = 0x7D then Some (Some (found, dst))
                    else Some None)))"

definition gwj_content_text :: "byte list \<Rightarrow> size_t \<Rightarrow> byte list option option" where
  "gwj_content_text body cap =
     (case s_expect 0x7B (s_ws body) of
        None \<Rightarrow> Some None
      | Some s \<Rightarrow>
          map_option (\<lambda>r. do { (found, dst) \<leftarrow> r; if found then Some dst else None })
            (content_loop (scan_fuel s) cap False [] s))"

fun error_loop :: "nat \<Rightarrow> size_t \<Rightarrow> byte list \<Rightarrow> byte list option option" where
  "error_loop 0 cap s = None"
| "error_loop (Suc fuel) cap s =
     (let s = s_ws s in
      if s_expect 0x7D s \<noteq> None then Some None
      else case s_key 31 s of
        None \<Rightarrow> Some None
      | Some (k, s) \<Rightarrow>
          if k = str ''error'' then
            if s_expect 0x7B s = None then Some None
            else gwj_top_string s (str ''message'') cap
          else
            (case s_skip_value (scan_fuel s) 0 s of
               None \<Rightarrow> None
             | Some None \<Rightarrow> Some None
             | Some (Some s) \<Rightarrow>
                 (case s_ws s of
                    [] \<Rightarrow> Some None
                  | c # s \<Rightarrow> if c = 0x2C then error_loop fuel cap s else Some None)))"

definition gwj_error_message :: "byte list \<Rightarrow> size_t \<Rightarrow> byte list option option" where
  "gwj_error_message body cap =
     (case s_expect 0x7B (s_ws body) of
        None \<Rightarrow> Some None
      | Some s \<Rightarrow> error_loop (scan_fuel s) cap s)"

section \<open>The two UTF-8 validators agree\<close>

lemma group_ranges:
  fixes x y z w :: nat
  assumes "y < 64" "z < 64" "w < 64"
  shows "x * 4096 + y * 64 + z < 2048 \<longleftrightarrow> x = 0 \<and> y < 32"
    and "55296 \<le> x * 4096 + y * 64 + z \<and> x * 4096 + y * 64 + z \<le> 57343 \<longleftrightarrow> x = 13 \<and> 32 \<le> y"
    and "x * 262144 + y * 4096 + z * 64 + w < 65536 \<longleftrightarrow> x = 0 \<and> y < 16"
    and "1114111 < x * 262144 + y * 4096 + z * 64 + w \<longleftrightarrow> 4 < x \<or> x = 4 \<and> 16 \<le> y"
proof -
  show "x * 4096 + y * 64 + z < 2048 \<longleftrightarrow> x = 0 \<and> y < 32"
    using assms by (cases "x = 0"; cases "y < 32"; simp)
  show "x * 262144 + y * 4096 + z * 64 + w < 65536 \<longleftrightarrow> x = 0 \<and> y < 16"
    using assms by (cases "x = 0"; cases "y < 16"; simp)
  consider "x < 13" | "x = 13" | "13 < x" by linarith
  then show "55296 \<le> x * 4096 + y * 64 + z \<and> x * 4096 + y * 64 + z \<le> 57343 \<longleftrightarrow> x = 13 \<and> 32 \<le> y"
    by cases (use assms in \<open>cases "32 \<le> y"; simp\<close>)+
  consider "x < 4" | "x = 4" | "4 < x" by linarith
  then show "1114111 < x * 262144 + y * 4096 + z * 64 + w \<longleftrightarrow> 4 < x \<or> x = 4 \<and> 16 \<le> y"
    by cases (use assms in \<open>cases "16 \<le> y"; simp\<close>)+
qed

lemma cp3_ranges:
  assumes "224 \<le> unat c" "unat c < 240" "cont p1" "cont p2"
  shows "cp3 c p1 p2 < 0x800 \<longleftrightarrow> unat c = 224 \<and> unat p1 < 160"
    and "0xD800 \<le> cp3 c p1 p2 \<and> cp3 c p1 p2 \<le> 0xDFFF \<longleftrightarrow> unat c = 237 \<and> 160 \<le> unat p1"
proof -
  have lt: "n mod 64 < 64" for n :: nat by simp
  have m: "unat c mod 16 = unat c - 224" "unat p1 mod 64 = unat p1 - 128"
    using assms by (simp_all add: mod_windows)
  note g = group_ranges [of "unat p1 mod 64" "unat p2 mod 64" 0 "unat c mod 16", folded cp3_eq, OF lt lt, simplified]
  show "cp3 c p1 p2 < 0x800 \<longleftrightarrow> unat c = 224 \<and> unat p1 < 160" using g(1) assms m(1,2) by auto
  show "0xD800 \<le> cp3 c p1 p2 \<and> cp3 c p1 p2 \<le> 0xDFFF \<longleftrightarrow> unat c = 237 \<and> 160 \<le> unat p1"
    using g(2) assms m(1,2) by auto
qed

lemma cp4_ranges:
  assumes "240 \<le> unat c" "unat c < 248" "cont p1" "cont p2" "cont p3"
  shows "cp4 c p1 p2 p3 < 0x10000 \<longleftrightarrow> unat c = 240 \<and> unat p1 < 144"
    and "cp4 c p1 p2 p3 > 0x10FFFF \<longleftrightarrow> 244 < unat c \<or> unat c = 244 \<and> 144 \<le> unat p1"
proof -
  have lt: "n mod 64 < 64" for n :: nat by simp
  have m: "unat c mod 8 = unat c - 240" "unat p1 mod 64 = unat p1 - 128"
    using assms by (simp_all add: mod_windows)
  note g = group_ranges [of "unat p1 mod 64" "unat p2 mod 64" "unat p3 mod 64" "unat c mod 8", folded cp4_eq, OF lt lt lt]
  show "cp4 c p1 p2 p3 < 0x10000 \<longleftrightarrow> unat c = 240 \<and> unat p1 < 144" using g(3) assms m(1,2) by auto
  show "cp4 c p1 p2 p3 > 0x10FFFF \<longleftrightarrow> 244 < unat c \<or> unat c = 244 \<and> 144 \<le> unat p1"
    using g(4) assms m(1,2) by auto
qed

lemma byte_numeral_nat:
  "c = (0xE0 :: byte) \<longleftrightarrow> unat c = 224" "c = (0xED :: byte) \<longleftrightarrow> unat c = 237"
  "c = (0xF0 :: byte) \<longleftrightarrow> unat c = 240" "c = (0xF4 :: byte) \<longleftrightarrow> unat c = 244"
  by (simp_all add: byte_eq_iff)

lemma three_bytes:
  assumes "224 \<le> unat c" "unat c < 240"
  shows "ax_utf8_step (c # p1 # p2 # r) =
      (if cont p1 \<and> cont p2 \<and> \<not> cp3 c p1 p2 < 0x800 \<and> \<not> (0xD800 \<le> cp3 c p1 p2 \<and> cp3 c p1 p2 \<le> 0xDFFF) then 3 else 0)"
    and "utf8_seq_len (c # p1 # p2 # r) =
      (if cont p1 \<and> cont p2 \<and> \<not> (unat c = 224 \<and> unat p1 < 160) \<and> \<not> (unat c = 237 \<and> 160 \<le> unat p1) then 3 else 0)"
  using assms by (simp_all add: lead_masks byte_less_numeral word_le_nat_alt byte_numeral_nat [of c] Let_def) auto


lemma four_bytes:
  assumes "240 \<le> unat c" "unat c < 248"
  shows "ax_utf8_step (c # p1 # p2 # p3 # r) =
      (if cont p1 \<and> cont p2 \<and> cont p3 \<and> \<not> cp4 c p1 p2 p3 < 0x10000 \<and> \<not> cp4 c p1 p2 p3 > 0x10FFFF then 4 else 0)"
    and "utf8_seq_len (c # p1 # p2 # p3 # r) =
      (if cont p1 \<and> cont p2 \<and> cont p3 \<and> \<not> (unat c = 240 \<and> unat p1 < 144) \<and>
        \<not> (244 < unat c \<or> unat c = 244 \<and> 144 \<le> unat p1) then 4 else 0)"
  using assms by (simp_all add: lead_masks byte_less_numeral word_le_nat_alt byte_numeral_nat [of c] Let_def) auto

lemma two_bytes:
  assumes "192 \<le> unat c" "unat c < 224"
  shows "utf8_seq_len (c # r) = ax_utf8_step (c # r)"
proof -
  have "unat c mod 32 = unat c - 192" using assms by (simp add: mod_windows)
  with assms show ?thesis
    by (auto simp: byte_facts word_le_nat_alt byte_numeral_nat [of c] split: list.split)
qed

lemma seq_len_eq_step: "utf8_seq_len bs = ax_utf8_step bs"
proof (cases bs)
  case (Cons c p)
  consider "unat c < 128" | "128 \<le> unat c" "unat c < 192" | "192 \<le> unat c" "unat c < 224"
    | "224 \<le> unat c" "unat c < 240" | "240 \<le> unat c" "unat c < 248" | "248 \<le> unat c"
    by linarith
  then show ?thesis
  proof cases
    case 3
    with Cons two_bytes show ?thesis by simp
  next
    case 4
    consider p1 p2 r where "p = p1 # p2 # r" | "length p < 2"
      by (cases p; cases "tl p") auto
    then show ?thesis
    proof cases
      case 1
      with 4 Cons three_bytes [of c p1 p2 r] cp3_ranges [of c p1 p2] show ?thesis by auto
    next
      case 2
      with 4 Cons show ?thesis
        by (auto simp: lead_masks byte_less_numeral word_le_nat_alt Let_def split: list.splits)
    qed
  next
    case 5
    consider p1 p2 p3 r where "p = p1 # p2 # p3 # r" | "length p < 3"
      by (cases p; cases "tl p"; cases "tl (tl p)") auto
    then show ?thesis
    proof cases
      case 1
      with 5 Cons four_bytes [of c p1 p2 p3 r] cp4_ranges [of c p1 p2 p3] show ?thesis by auto
    next
      case 2
      with 5 Cons show ?thesis
        by (auto simp: lead_masks byte_less_numeral word_le_nat_alt Let_def split: list.splits)
    qed
  qed (use Cons in \<open>simp_all add: lead_masks byte_less_numeral word_le_nat_alt byte_numeral_nat [of c]\<close>)
qed simp

interpretation gw_utf8: utf8_stepper utf8_seq_len
proof -
  have "utf8_seq_len = ax_utf8_step" by (rule ext) (rule seq_len_eq_step)
  then show "utf8_stepper utf8_seq_len" by (simp add: ax_utf8.utf8_stepper_axioms)
qed


section \<open>Escaping\<close>

definition gw_esc :: "byte \<Rightarrow> byte list" where
  "gw_esc c = (case gwj_rep c of Some rep \<Rightarrow> rep | None \<Rightarrow> [c])"

lemma gw_esc_cases:
  "gw_esc c = (if c = 0x22 then [0x5C, 0x22] else if c = 0x5C then [0x5C, 0x5C]
     else if c = 0x0A then [0x5C, 0x6E] else if c = 0x0D then [0x5C, 0x72] else if c = 0x09 then [0x5C, 0x74]
     else if c < 0x20 then [0x5C, 0x75, 0x30, 0x30] @ hex_byte c else [c])"
  by (simp add: gw_esc_def gwj_rep_def hex_byte_def)

text \<open>What a buffer of \<open>cap\<close> bytes can hold.\<close>

definition gw_fit :: "size_t \<Rightarrow> byte list \<Rightarrow> byte list option" where
  "gw_fit cap t = (if length t \<le> unat cap then Some t else None)"

lemma put_bytes_fit:
  assumes "unat cap < 2 ^ 63" "length s < 2 ^ 62" "length d \<le> unat cap"
  shows "put_bytes cap d s = gw_fit cap (d @ s)"
proof -
  have "of_nat (length d) + of_nat (length s) = (of_nat (length d + length s) :: size_t)" by simp
  moreover have "unat (of_nat (length d + length s) :: size_t) = length d + length s"
    using assms by (intro unat_of_nat_size) simp
  ultimately show ?thesis by (simp only: put_bytes_def gw_fit_def word_less_nat_alt) simp
qed

lemma gw_esc_prefix_free: "gw_esc a @ x = gw_esc b @ y \<Longrightarrow> a = b"
  by (auto simp: gw_esc_cases dest: hex_byte_append_inject split: if_splits)

interpretation gw: escaper gw_esc
proof
  fix c :: byte
  show "0 \<notin> set (gw_esc c)" by (auto simp: gw_esc_cases)
  show "gw_esc c \<noteq> [] \<and> hd (gw_esc c) \<noteq> 0x22" by (simp add: gw_esc_cases)
qed (rule gw_esc_prefix_free)

definition gw_escape :: "byte list \<Rightarrow> byte list" where
  "gw_escape s = concat (map gw_esc s)"

lemma length_gw_esc: "length (gw_esc c) \<le> 6"
  by (simp add: gw_esc_cases hex_byte_def)

lemma escape_loop_step:
  assumes "unat cap < 2 ^ 63" "length dst \<le> unat cap"
  shows "gwj_escape_loop cap dst (c # s) =
    (if length dst + length (gw_esc c) \<le> unat cap then gwj_escape_loop cap (dst @ gw_esc c) s else (-1, dst))"
proof -
  have "put_bytes cap dst (gw_esc c) = gw_fit cap (dst @ gw_esc c)"
    using assms length_gw_esc [of c] by (intro put_bytes_fit) simp_all
  then show ?thesis
    by (cases "gwj_rep c") (auto simp: gw_esc_def put_bytes_def gw_fit_def split: if_splits)
qed

lemma gw_escape_Cons: "gw_escape (c # s) = gw_esc c @ gw_escape s"
  by (simp add: gw_escape_def)

lemma escape_loop_fits:
  assumes "unat cap < 2 ^ 63" "length (dst @ gw_escape s) \<le> unat cap"
  shows "gwj_escape_loop cap dst s = (int_of_size (of_nat (length (dst @ gw_escape s))), dst @ gw_escape s)"
  using assms(2)
proof (induction s arbitrary: dst)
  case (Cons c s)
  then have "length dst + length (gw_esc c) \<le> unat cap" "length dst \<le> unat cap" by (simp_all add: gw_escape_Cons)
  with Cons.IH [of "dst @ gw_esc c"] Cons.prems show ?case
    by (simp only: escape_loop_step [OF assms(1)] if_True gw_escape_Cons append_assoc)
qed (simp add: gw_escape_def)

lemma escape_loop_overflow:
  assumes "unat cap < 2 ^ 63" "length dst \<le> unat cap" "unat cap < length (dst @ gw_escape s)"
  shows "fst (gwj_escape_loop cap dst s) = -1"
  using assms(2,3)
proof (induction s arbitrary: dst)
  case (Cons c s)
  with Cons.IH [of "dst @ gw_esc c"] show ?case
    unfolding escape_loop_step [OF assms(1) Cons.prems(1)] by (simp add: gw_escape_Cons)
qed (simp add: gw_escape_def)

lemma gwj_escape_fits:
  assumes "unat cap < 2 ^ 31" "length (gw_escape s) \<le> unat cap"
  shows "gwj_escape cap s = (int (length (gw_escape s)), gw_escape s)"
  using escape_loop_fits [of cap "[]" s] canonical_ints [of "gw_escape s" "unat cap"] assms
  by (simp add: gwj_escape_def)

lemma gwj_escape_overflow:
  assumes "unat cap < 2 ^ 31" "unat cap < length (gw_escape s)"
  shows "fst (gwj_escape cap s) = -1"
  using escape_loop_overflow [of cap "[]" s] assms by (simp add: gwj_escape_def)

section \<open>Decoding undoes escaping\<close>

lemma hexval_hexdigit: "unat n < 16 \<Longrightarrow> hexval (hexdigit n) = Some (unat n)"
proof -
  assume "unat n < 16"
  then have "unat n = 0 \<or> unat n = 1 \<or> unat n = 2 \<or> unat n = 3 \<or> unat n = 4 \<or> unat n = 5 \<or> unat n = 6 \<or>
      unat n = 7 \<or> unat n = 8 \<or> unat n = 9 \<or> unat n = 10 \<or> unat n = 11 \<or> unat n = 12 \<or> unat n = 13 \<or>
      unat n = 14 \<or> unat n = 15"
    by (auto simp: less_Suc_eq numeral_eq_Suc)
  then show ?thesis unfolding hexdigit_def hexdigits by (elim disjE) (simp_all add: hexval_def word_le_nat_alt)
qed

lemma read_cp_byte:
  assumes "unat c < 128"
  shows "read_cp ([0x30, 0x30] @ hex_byte c @ t) = Some (unat c, t)"
proof -
  have h: "hexval 0x30 = Some 0" "hexval (hexdigit (drop_bit 4 c AND 0x0F)) = Some (unat c div 16)"
    "hexval (hexdigit (c AND 0x0F)) = Some (unat c mod 16)"
    using hexval_hexdigit [of "drop_bit 4 c AND 0x0F", unfolded unat_nibbles(1), OF high_nibble_less]
      hexval_hexdigit [of "c AND 0x0F", unfolded unat_nibbles(2)]
    by (simp add: hexval_def word_le_nat_alt, blast, simp)
  have "push_bit 4 (unat c div 16) OR unat c mod 16 = unat c"
    using or_shift [of "unat c mod 16" 4 "unat c div 16"] by simp
  then have "s_read_u4 ([0x30, 0x30] @ hex_byte c @ t) = Some (unat c, t)"
    by (simp add: s_read_u4_def hex_byte_def h)
  with assms show ?thesis by (simp add: read_cp_def)
qed

text \<open>An escaping the decoder undoes, byte by byte.\<close>

locale json_escaper = escaper esc for esc :: "byte \<Rightarrow> byte list" +
  assumes decode_esc: "decode_loop cap dst (esc c @ t) = put_bytes cap dst [c] \<bind> (\<lambda>d. decode_loop cap d t)"
begin

lemma decode_escaped:
  assumes "unat cap < 2 ^ 63" "length dst \<le> unat cap"
  shows "decode_loop cap dst (concat (map esc s) @ 0x22 # t) =
    gw_fit cap (dst @ s) \<bind> (\<lambda>d. Some (d, t))"
  using assms(2)
proof (induction s arbitrary: dst)
  case Nil
  then show ?case by (simp add: gw_fit_def)
next
  case (Cons c s)
  have "put_bytes cap dst [c] = gw_fit cap (dst @ [c])"
    using assms(1) Cons.prems by (intro put_bytes_fit) simp_all
  with Cons show ?case by (simp add: decode_esc gw_fit_def)
qed

lemma decode_string_escaped:
  assumes "unat cap < 2 ^ 63" "length dst \<le> unat cap"
  shows "s_decode_string cap dst (0x22 # concat (map esc s) @ 0x22 # t) =
    gw_fit cap (dst @ s) \<bind> (\<lambda>d. Some (d, t))"
  using decode_escaped [OF assms] by (simp add: s_decode_string_def)

end

lemma decode_u00:
  assumes "c < 0x20"
  shows "decode_loop cap dst ([0x5C, 0x75, 0x30, 0x30] @ hex_byte c @ t) =
    put_bytes cap dst [c] \<bind> (\<lambda>d. decode_loop cap d t)"
proof -
  have "unat c < 128" using assms by (simp add: word_less_nat_alt)
  then have "read_cp (0x30 # 0x30 # hex_byte c @ t) = Some (unat c, t)" "put_utf8 cap dst (unat c) = put_bytes cap dst [c]"
    using read_cp_byte [of c t] by (simp_all add: put_utf8_def)
  then show ?thesis by (simp add: simple_escape_def split: option.split)
qed

lemma decode_plain:
  assumes "c \<noteq> 0x22" "c \<noteq> 0x5C"
  shows "decode_loop cap dst (c # t) = put_bytes cap dst [c] \<bind> (\<lambda>d. decode_loop cap d t)"
  using assms by (simp split: option.split)

lemma decode_simple:
  assumes "simple_escape e = Some c"
  shows "decode_loop cap dst ([0x5C, e] @ t) = put_bytes cap dst [c] \<bind> (\<lambda>d. decode_loop cap d t)"
  using assms by (simp split: option.split)

text \<open>Every escape the two printers use is one of three forms.\<close>

definition esc_form :: "byte \<Rightarrow> byte list \<Rightarrow> bool" where
  "esc_form c b \<longleftrightarrow>
     (\<exists>e. b = [0x5C, e] \<and> simple_escape e = Some c) \<or>
     (c < 0x20 \<and> b = [0x5C, 0x75, 0x30, 0x30] @ hex_byte c) \<or>
     (b = [c] \<and> c \<noteq> 0x22 \<and> c \<noteq> 0x5C)"

lemma decode_esc_form:
  assumes "esc_form c b"
  shows "decode_loop cap dst (b @ t) = put_bytes cap dst [c] \<bind> (\<lambda>d. decode_loop cap d t)"
  using assms unfolding esc_form_def
proof (elim disjE exE conjE)
  fix e
  assume "b = [0x5C, e]" "simple_escape e = Some c"
  then show ?thesis using decode_simple by blast
next
  assume "c < 0x20" "b = [0x5C, 0x75, 0x30, 0x30] @ hex_byte c"
  then show ?thesis using decode_u00 [of c cap dst t] by (simp only: append_assoc)
next
  assume "b = [c]" "c \<noteq> 0x22" "c \<noteq> 0x5C"
  then show ?thesis by (simp only: append_Cons append_Nil decode_plain [of c cap dst t] not_False_eq_True)
qed

lemma gw_esc_form: "esc_form c (gw_esc c)"
  by (auto simp: esc_form_def gw_esc_cases simple_escape_def)

lemma esc_byte_form: "esc_form c (esc_byte c)"
  by (auto simp: esc_form_def esc_byte_def simple_escape_def)

interpretation gw_json: json_escaper gw_esc
  by unfold_locales (rule decode_esc_form [OF gw_esc_form])

interpretation ax_json: json_escaper esc_byte
  by unfold_locales (rule decode_esc_form [OF esc_byte_form])

section \<open>The scanner always moves forward\<close>

lemma s_ws_length: "length (s_ws s) \<le> length s"
  by (induction s) auto

lemma s_expect_length: "s_expect c s = Some r \<Longrightarrow> length s = Suc (length r)"
  by (cases s) (auto split: if_splits)

lemma skip_string_loop_length: "skip_string_loop s = Some r \<Longrightarrow> length r < length s"
  by (induction s rule: skip_string_loop.induct) (fastforce split: if_splits list.splits)+

lemma skip_string_length: "s_skip_string s = Some r \<Longrightarrow> length r < length s"
  by (auto simp: s_skip_string_def dest!: s_expect_length skip_string_loop_length split: bind_splits)

lemma put_utf8_bytes: "put_utf8 cap d cp = Some d1 \<Longrightarrow> \<exists>b. length b \<le> 4 \<and> put_bytes cap d b = Some d1"
  unfolding put_utf8_def by (force split: if_splits)

text \<open>A successful decoding is a run of steps that each store a piece and move forward.\<close>

lemma decode_run:
  assumes "decode_loop cap d s = Some (d', r)"
    and close: "\<And>s. s = 0x22 # r \<Longrightarrow> P d' s"
    and piece: "\<And>d b d1 s t. put_bytes cap d b = Some d1 \<Longrightarrow> length b \<le> 4 \<Longrightarrow> length t < length s \<Longrightarrow> P d1 t \<Longrightarrow> P d s"
  shows "P d s"
  using assms
proof (induction cap d s rule: decode_loop.induct)
  case (2 cap dst c s)
  note IH = "2.IH" and piece = "2.prems"(3) and run = "2.prems"(1)
  show ?case
  proof (cases "c = 0x22")
    case True
    with "2.prems"(1,2) show ?thesis by simp
  next
    case nq: False
    show ?thesis
    proof (cases "c = 0x5C")
      case False
      with nq run obtain d where d: "put_bytes cap dst [c] = Some d" "decode_loop cap d s = Some (d', r)"
        by (cases "put_bytes cap dst [c]") simp_all
      have "P d s" by (rule IH(3) [OF nq False d]) (use "2.prems" in blast)+
      with d show ?thesis by (intro piece [OF d(1), where s = "c # s" and t = s]) simp_all
    next
      case bs: True
      with run obtain e s' where s: "s = e # s'" by (cases s) simp_all
      show ?thesis
      proof (cases "simple_escape e")
        case (Some b)
        with nq bs s run obtain d where d: "put_bytes cap dst [b] = Some d" "decode_loop cap d s' = Some (d', r)"
          by (cases "put_bytes cap dst [b]") simp_all
        have "P d s'" by (rule IH(2) [OF nq bs s Some d]) (use "2.prems" in blast)+
        with d s show ?thesis by (intro piece [OF d(1), where s = "c # s" and t = s']) simp_all
      next
        case None
        with nq bs s run obtain cp s'' where cp: "e = 0x75" "read_cp s' = Some (cp, s'')"
          by (cases "read_cp s'") (auto split: if_splits)
        with nq bs s None run obtain d where d: "put_utf8 cap dst cp = Some d" "decode_loop cap d s'' = Some (d', r)"
          by (cases "put_utf8 cap dst cp") simp_all
        have "P d s''" by (rule IH(1) [OF nq bs s None cp refl d]) (use "2.prems" in blast)+
        moreover obtain b where "length b \<le> 4" "put_bytes cap dst b = Some d" using put_utf8_bytes [OF d(1)] by blast
        ultimately show ?thesis
          using read_cp_length [OF cp(2)] s by (intro piece [where s = "c # s" and t = s'']) simp_all
      qed
    qed
  qed
qed simp

lemma decode_loop_length: "decode_loop cap d s = Some (d', r) \<Longrightarrow> length r < length s"
  by (erule decode_run) simp_all

lemma put_bytes_bounded:
  assumes "unat cap < 2 ^ 63" "length d \<le> unat cap" "length b \<le> 4" "put_bytes cap d b = Some d1"
  shows "length d1 \<le> unat cap"
  using put_bytes_fit [of cap b d] assms by (auto simp: gw_fit_def split: if_splits)

lemma decode_loop_bounded:
  assumes "decode_loop cap d s = Some (d', r)" "unat cap < 2 ^ 63"
  shows "length d \<le> unat cap \<longrightarrow> length d' \<le> unat cap"
  using assms(1) by (rule decode_run) (use put_bytes_bounded [OF assms(2)] in blast)+

lemma decode_string_length: "s_decode_string cap d s = Some (d', r) \<Longrightarrow> length r < length s"
  by (auto simp: s_decode_string_def dest!: s_expect_length decode_loop_length split: bind_splits)

lemma s_key_length: "s_key cap s = Some (k, r) \<Longrightarrow> length r < length s"
proof -
  assume "s_key cap s = Some (k, r)"
  then obtain d s1 s2 where "s_decode_string cap [] s = Some (d, s1)" "s_expect 0x3A (s_ws s1) = Some s2" "r = s_ws s2"
    by (auto simp: s_key_def split: bind_splits)
  then show ?thesis
    using decode_string_length [of cap "[]" s d s1] s_expect_length [of "0x3A" "s_ws s1" s2] s_ws_length [of s1] s_ws_length [of s2]
    by simp
qed

lemma s_ws_Cons_length: "s_ws s = c # r \<Longrightarrow> length r < length s"
  using s_ws_length [of s] by auto

definition member_start :: "byte \<Rightarrow> byte list \<Rightarrow> byte list option" where
  "member_start op s = (if op = 0x7B then do { s \<leftarrow> s_skip_string (s_ws s); s_expect 0x3A (s_ws s) } else Some s)"

lemma member_start_length: "member_start op s = Some r \<Longrightarrow> length r \<le> length s"
  unfolding member_start_def
  using s_ws_length skip_string_length s_expect_length
  by (auto split: if_splits bind_splits) (metis (no_types, lifting) Suc_leD le_trans less_imp_le)

lemma skip_forward:
  "s_skip_value fuel depth s = Some (Some r) \<Longrightarrow> length r < length s"
  "skip_members fuel op close depth s = Some (Some r) \<Longrightarrow> length r < length s"
proof (induction fuel depth s and fuel op close depth s arbitrary: r and r rule: s_skip_value_skip_members.induct)
  case (2 fuel depth s)
  from "2.prems" obtain c t where t: "s_ws s = c # t" by (auto split: if_splits list.splits)
  have lt: "length t < length s" using t by (rule s_ws_Cons_length)
  have dw: "length (dropWhile is_tok t) \<le> length t" by (rule length_dropWhile_le)
  consider (str) "s_skip_string (c # t) = Some r" | (close) cl where "s_expect cl (s_ws t) = Some r"
    | (mem) cl where "c = 0x7B \<or> c = 0x5B" "c \<noteq> 0x22" "cl = (if c = 0x7B then 0x7D else 0x5D)" "s_expect cl (s_ws t) = None"
        "skip_members fuel c cl depth (s_ws t) = Some (Some r)"
    | (tok) "is_tok c" "r = dropWhile is_tok (c # t)"
    using "2.prems" t by (auto simp: Let_def split: if_splits option.splits)
  then show ?case
  proof cases
    case str
    then show ?thesis using skip_string_length [of "c # t"] t s_ws_length [of s] by simp
  next
    case close
    then show ?thesis using s_expect_length [OF close] lt s_ws_length [of t] by simp
  next
    case mem
    have "\<not> 64 < depth" using "2.prems" by (auto split: if_splits)
    then have "length r < length (s_ws t)"
      using "2.IH" [OF _ t mem(2,1,3,4,5)] by simp
    with lt s_ws_length [of t] show ?thesis by simp
  next
    case tok
    then show ?thesis using lt dw by simp
  qed
next
  case (4 fuel op close depth s)
  then obtain s1 s2 c s3 where m: "member_start op s = Some s1" "s_skip_value fuel (depth + 1) s1 = Some (Some s2)"
    "s_ws s2 = c # s3" "c = 0x2C \<and> skip_members fuel op close depth s3 = Some (Some r) \<or> r = s3"
    by (auto simp: member_start_def [symmetric] split: if_splits list.splits option.splits)
  have "length s2 < length s1" using m(1,2) "4.IH"(1) unfolding member_start_def by blast
  moreover have "length s3 < length s2" by (rule s_ws_Cons_length [OF m(3)])
  moreover have "length r \<le> length s3"
    using m "4.IH"(2) unfolding member_start_def by (metis less_imp_le order_refl)
  ultimately show ?case using member_start_length [OF m(1)] by simp
qed simp_all

section \<open>The fuel is always enough\<close>

lemma skip_value_fuel:
  "2 * length s + 1 \<le> fuel \<Longrightarrow> s_skip_value fuel depth s \<noteq> None"
  "2 * length s + 2 \<le> fuel \<Longrightarrow> skip_members fuel op close depth s \<noteq> None"
proof (induction fuel depth s and fuel op close depth s rule: s_skip_value_skip_members.induct)
  case (2 fuel depth s)
  show ?case
  proof (cases "64 < depth \<or> s_ws s = []")
    case True
    then show ?thesis by auto
  next
    case False
    then obtain c t where t: "s_ws s = c # t" and d: "\<not> 64 < depth" by (cases "s_ws s") auto
    have "2 * length (s_ws t) + 2 \<le> fuel"
      using "2.prems" s_ws_Cons_length [OF t] s_ws_length [of t] by simp
    note m = "2.IH" [OF d t _ _ refl _ this]
    show ?thesis
      using t d m by (cases "c = 0x7B"; cases "c = 0x5B") (simp_all add: Let_def split: option.split)
  qed
next
  case (4 fuel op close depth s)
  show ?case
  proof (cases "member_start op s")
    case None
    then show ?thesis by (simp add: member_start_def)
  next
    case (Some s1)
    note le = member_start_length [OF Some]
    have v: "s_skip_value fuel (depth + 1) s1 \<noteq> None"
      using Some "4.IH"(1) "4.prems" le unfolding member_start_def by simp
    have mem: "skip_members fuel op close depth s3 \<noteq> None"
      if "s_skip_value fuel (depth + 1) s1 = Some (Some s2)" "s_ws s2 = 0x2C # s3" for s2 s3
    proof -
      have "length s3 < length s"
        using skip_forward(1) [OF that(1)] s_ws_Cons_length [OF that(2)] le by simp
      with Some "4.IH"(2) "4.prems" that show ?thesis unfolding member_start_def by simp
    qed
    show ?thesis
      using Some v mem by (auto simp: member_start_def [symmetric] split: option.splits list.splits)
  qed
qed simp_all

lemma skip_value_total [simp]: "s_skip_value (scan_fuel s) depth s \<noteq> None"
  by (rule skip_value_fuel) (simp add: scan_fuel_def)

text \<open>A loop over members that consumes what it reads stops within the length of its input.\<close>

lemma top_loop_fuel: "length s < fuel \<Longrightarrow> top_loop fuel key cap s \<noteq> None"
proof (induction fuel key cap s rule: top_loop.induct)
  case (2 fuel key cap s)
  have more: "top_loop fuel key cap u \<noteq> None"
    if "s_expect 0x7D (s_ws s) = None" "s_key 63 (s_ws s) = Some (k, s1)" "k \<noteq> key"
       "s_skip_value (scan_fuel s1) 0 s1 = Some (Some t)" "s_ws t = 0x2C # u" for k s1 t u
  proof -
    have "length u < length s"
      using s_key_length [OF that(2)] skip_forward(1) [OF that(4)] s_ws_Cons_length [OF that(5)] s_ws_length [of s] by simp
    with "2.prems" have "length u < fuel" by simp
    then show ?thesis using "2.IH" [OF refl _ that(2) refl that(3) that(4) refl that(5) refl] that(1) by simp
  qed
  show ?case
    using more
    by (auto simp: Let_def split: option.split prod.split list.split)
qed simp


lemma element_value_total: "element_value b t ek s \<noteq> None"
  by (auto simp: element_value_def split: option.splits)

lemma element_value_length: "element_value b t ek s = Some (Some (b', t', r)) \<Longrightarrow> length r < length s"
  by (auto simp: element_value_def split: if_splits option.splits bind_splits
      dest: decode_string_length skip_string_length skip_forward(1))

lemma element_loop_forward:
  "element_loop fuel b t s = Some (Some (b', t', r)) \<Longrightarrow> length r < length s"
proof (induction fuel b t s rule: element_loop.induct)
  case (2 fuel b t s)
  from "2.prems" consider (close) "s_expect 0x7D (s_ws s) = Some r"
    | (member) ek s1 b1 t1 s2 c s3 where "s_expect 0x7D (s_ws s) = None" "s_key 31 (s_ws s) = Some (ek, s1)"
      "element_value b t ek s1 = Some (Some (b1, t1, s2))" "s_ws s2 = c # s3"
      "c = 0x2C \<and> element_loop fuel b1 t1 s3 = Some (Some (b', t', r)) \<or> r = s3"
    by (auto simp: Let_def  split: option.splits prod.splits list.splits if_splits)
  then show ?case
  proof cases
    case close
    then show ?thesis using s_expect_length [OF close] s_ws_length [of s] by simp
  next
    case member
    have lt: "length s3 < length s"
      using s_key_length [OF member(2)] element_value_length [OF member(3)] s_ws_Cons_length [OF member(4)] s_ws_length [of s]
      by simp
    with member(5) show ?thesis
    proof (elim disjE conjE)
      assume "c = 0x2C" "element_loop fuel b1 t1 s3 = Some (Some (b', t', r))"
      then have "length r < length s3"
        using "2.IH" [OF refl member(1,2) refl member(3) refl refl refl member(4)] by simp
      with lt show ?thesis by simp
    qed simp
  qed
qed simp

lemmas scans_total [simp] = skip_value_total [unfolded not_None_eq]

lemma element_loop_fuel: "length s < fuel \<Longrightarrow> element_loop fuel b t s \<noteq> None"
proof (induction fuel b t s rule: element_loop.induct)
  case (2 fuel b t s)
  have more: "element_loop fuel b1 t1 u \<noteq> None"
    if "s_expect 0x7D (s_ws s) = None" "s_key 31 (s_ws s) = Some (ek, s1)"
      "element_value b t ek s1 = Some (Some (b1, t1, s2))" "s_ws s2 = 0x2C # u" for ek s1 b1 t1 s2 u
  proof -
    have "length u < length s"
      using s_key_length [OF that(2)] element_value_length [OF that(3)] s_ws_Cons_length [OF that(4)] s_ws_length [of s]
      by simp
    with "2.prems" have "length u < fuel" by simp
    then show ?thesis using "2.IH" [OF refl that(1,2) refl that(3) refl refl refl that(4)] by simp
  qed
  show ?case
    using more
    by (auto simp: Let_def element_value_total [THEN eq_False [THEN iffD2]]
        split: option.split prod.split list.split)
qed simp

lemma element_loop_total [simp]: "element_loop (scan_fuel s) b t s \<noteq> None"
  by (rule element_loop_fuel) (simp add: scan_fuel_def)

text \<open>The text of one element, appended to the destination if the element is a text block.\<close>

definition element_text :: "size_t \<Rightarrow> byte list \<Rightarrow> bool \<Rightarrow> byte list option \<Rightarrow> byte list option" where
  "element_text cap dst is_text text_at =
     (case text_at of
        Some t \<Rightarrow> if is_text then map_option fst (s_decode_string cap dst t) else Some dst
      | None \<Rightarrow> Some dst)"

lemma array_loop_forward:
  "array_loop fuel cap dst s = Some (Some (d, r)) \<Longrightarrow> length r < length s"
proof (induction fuel cap dst s rule: array_loop.induct)
  case (2 fuel cap dst s)
  from "2.prems" obtain s1 b t s2 d1 c s3 where m: "s_expect 0x7B (s_ws s) = Some s1"
    "element_loop (scan_fuel s1) False None s1 = Some (Some (b, t, s2))" "element_text cap dst b t = Some d1"
    "s_ws s2 = c # s3" "c = 0x2C \<and> array_loop fuel cap d1 s3 = Some (Some (d, r)) \<or> r = s3"
    by (auto simp: element_text_def [symmetric] split: option.splits prod.splits list.splits if_splits)
  have lt: "length s3 < length s"
    using s_expect_length [OF m(1)] element_loop_forward [OF m(2)] s_ws_Cons_length [OF m(4)] s_ws_length [of s] by simp
  from m(5) show ?case
  proof (elim disjE conjE)
    assume "c = 0x2C" "array_loop fuel cap d1 s3 = Some (Some (d, r))"
    then have "length r < length s3"
      using "2.IH" [OF m(1,2) refl refl refl m(3) [unfolded element_text_def] m(4)] by simp
    with lt show ?thesis by simp
  qed (use lt in simp)
qed simp

lemma array_loop_fuel: "length s < fuel \<Longrightarrow> array_loop fuel cap dst s \<noteq> None"
proof (induction fuel cap dst s rule: array_loop.induct)
  case (2 fuel cap dst s)
  have more: "array_loop fuel cap d1 u \<noteq> None"
    if "s_expect 0x7B (s_ws s) = Some s1" "element_loop (scan_fuel s1) False None s1 = Some (Some (b, t, s2))"
      "element_text cap dst b t = Some d1" "s_ws s2 = 0x2C # u" for s1 b t s2 d1 u
  proof -
    have "length u < length s"
      using s_expect_length [OF that(1)] element_loop_forward [OF that(2)] s_ws_Cons_length [OF that(4)] s_ws_length [of s] by simp
    with "2.prems" have "length u < fuel" by simp
    then show ?thesis using "2.IH" [OF that(1,2) refl refl refl that(3) [unfolded element_text_def] that(4)] by simp
  qed
  show ?case
    using more by (auto simp: element_text_def [symmetric] split: option.split prod.split list.split)
qed simp

lemma content_value_total [simp]: "content_value cap dst s \<noteq> None"
proof -
  have "array_loop (scan_fuel s) cap dst s \<noteq> None" for s
    by (rule array_loop_fuel) (simp add: scan_fuel_def)
  then show ?thesis by (simp add: content_value_def Let_def split: option.split)
qed

lemma content_value_length: "content_value cap dst s = Some (Some (d, r)) \<Longrightarrow> length r < length s"
  unfolding content_value_def Let_def
  by (auto split: option.splits dest!: s_expect_length array_loop_forward)
    (metis le_imp_less_Suc le_trans less_imp_le s_ws_length le_SucI Suc_le_eq)+

definition member_value :: "size_t \<Rightarrow> bool \<Rightarrow> byte list \<Rightarrow> byte list \<Rightarrow> byte list \<Rightarrow> (bool \<times> byte list \<times> byte list) option option" where
  "member_value cap found dst k s =
     (if k = str ''content'' then map_option (map_option (\<lambda>(d, s). (True, d, s))) (content_value cap dst s)
      else map_option (map_option (\<lambda>s. (found, dst, s))) (s_skip_value (scan_fuel s) 0 s))"

lemma member_value_total [simp]: "member_value cap found dst k s \<noteq> None"
  by (simp add: member_value_def content_value_total [unfolded not_None_eq])

lemma member_value_length: "member_value cap found dst k s = Some (Some (f, d, r)) \<Longrightarrow> length r < length s"
  by (auto simp: member_value_def dest: content_value_length skip_forward(1) split: if_splits)

lemma content_loop_fuel: "length s < fuel \<Longrightarrow> content_loop fuel cap found dst s \<noteq> None"
proof (induction fuel cap found dst s rule: content_loop.induct)
  case (2 fuel cap found dst s)
  have more: "content_loop fuel cap f1 d1 u \<noteq> None"
    if "s_expect 0x7D (s_ws s) = None" "s_key 63 (s_ws s) = Some (k, s1)"
      "member_value cap found dst k s1 = Some (Some (f1, d1, s2))" "s_ws s2 = 0x2C # u" for k s1 f1 d1 s2 u
  proof -
    have "length u < length s"
      using s_key_length [OF that(2)] member_value_length [OF that(3)] s_ws_Cons_length [OF that(4)] s_ws_length [of s] by simp
    with "2.prems" have "length u < fuel" by simp
    then show ?thesis
      using "2.IH" [OF refl _ that(2) refl that(3) [unfolded member_value_def] refl refl refl that(4)] that(1) by simp
  qed
  show ?case
    using more by (auto simp: Let_def member_value_def [symmetric] split: option.split prod.split list.split)
qed simp

lemma loops_total:
  "\<exists>y. top_loop (scan_fuel s) key cap s = Some y" "\<exists>y. content_loop (scan_fuel s) cap found dst s = Some y"
  using top_loop_fuel [of s "scan_fuel s"] content_loop_fuel [of s "scan_fuel s"]
  unfolding not_None_eq by (simp_all add: scan_fuel_def del: top_loop.simps content_loop.simps)

lemma top_string_total: "\<exists>y. gwj_top_string body key cap = Some y"
  unfolding gwj_top_string_def using loops_total(1) by (simp split: option.split)

lemma error_loop_fuel: "length s < fuel \<Longrightarrow> error_loop fuel cap s \<noteq> None"
proof (induction fuel cap s rule: error_loop.induct)
  case (2 fuel cap s)
  have more: "error_loop fuel cap u \<noteq> None"
    if "s_expect 0x7D (s_ws s) = None" "s_key 31 (s_ws s) = Some (k, s1)" "k \<noteq> str ''error''"
       "s_skip_value (scan_fuel s1) 0 s1 = Some (Some t)" "s_ws t = 0x2C # u" for k s1 t u
  proof -
    have "length u < length s"
      using s_key_length [OF that(2)] skip_forward(1) [OF that(4)] s_ws_Cons_length [OF that(5)] s_ws_length [of s] by simp
    with "2.prems" have "length u < fuel" by simp
    then show ?thesis using "2.IH" [OF refl _ that(2) refl that(3) that(4) refl that(5) refl] that(1) by simp
  qed
  show ?case
    using more by (auto simp: Let_def top_string_total split: option.split prod.split list.split)
qed simp

lemma content_text_total: "\<exists>y. gwj_content_text body cap = Some y"
  unfolding gwj_content_text_def using loops_total(2) by (simp split: option.split)

lemma error_message_total: "\<exists>y. gwj_error_message body cap = Some y"
proof -
  have "\<exists>y. error_loop (scan_fuel s) cap s = Some y" for s
    using error_loop_fuel [of s "scan_fuel s" cap] unfolding not_None_eq
    by (simp add: scan_fuel_def del: error_loop.simps)
  then show ?thesis unfolding gwj_error_message_def by (simp split: option.split)
qed

section \<open>Documents\<close>

lemma skip_esc_form:
  assumes "esc_form c b"
  shows "skip_string_loop (b @ t) = skip_string_loop t"
  using assms unfolding esc_form_def
proof (elim disjE exE conjE)
  fix e
  assume "b = [0x5C, e]" "simple_escape e = Some c"
  moreover from this have "e \<noteq> 0x75" by (auto simp: simple_escape_def)
  ultimately show ?thesis by simp
qed (simp_all add: hex_byte_def)

text \<open>A JSON string literal, and the body of an error response.\<close>

definition quoted :: "(byte \<Rightarrow> byte list) \<Rightarrow> byte list \<Rightarrow> byte list" where
  "quoted esc s = 0x22 # concat (map esc s) @ [0x22]"

definition error_body :: "(byte \<Rightarrow> byte list) \<Rightarrow> byte list \<Rightarrow> byte list \<Rightarrow> byte list" where
  \<open>error_body esc ty msg =
     str ''{"type":"error","error":{"type":'' @ quoted esc ty @ str '',"message":'' @ quoted esc msg @ str ''}}''\<close>

lemma is_ws_simps [simp]:
  "\<not> is_ws 0x22" "\<not> is_ws 0x7B" "\<not> is_ws 0x7D" "\<not> is_ws 0x5B" "\<not> is_ws 0x5D" "\<not> is_ws 0x2C" "\<not> is_ws 0x3A"
  by (simp_all add: is_ws_def)

text \<open>A key written without escapes, followed by its colon and a value.\<close>

lemma s_key_plain:
  assumes "unat cap < 2 ^ 63" "length k \<le> unat cap" "\<forall>c\<in>set k. c \<noteq> 0x22 \<and> c \<noteq> 0x5C \<and> c \<noteq> 0" "\<not> is_ws c"
  shows "s_key cap (0x22 # k @ 0x22 # 0x3A # c # t) = Some (k, c # t)"
proof -
  have "decode_loop cap dst (k @ 0x22 # u) = Some (dst @ k, u)" if "length dst + length k \<le> unat cap" for dst u
    using that assms(3)
  proof (induction k arbitrary: dst)
    case (Cons a k)
    then have "put_bytes cap dst [a] = Some (dst @ [a])"
      using put_bytes_fit [OF assms(1), of "[a]" dst] by (simp add: gw_fit_def)
    with Cons decode_plain [of a cap dst "k @ 0x22 # u"] show ?case by simp
  qed simp
  from this [of "[]"] assms show ?thesis
    by (simp add: s_key_def s_decode_string_def) (metis c_str_id)
qed

text \<open>A piece of concrete text, and what a key literal becomes.\<close>

lemma key_lits:
  "str ''type'' = [0x74, 0x79, 0x70, 0x65]" "str ''text'' = [0x74, 0x65, 0x78, 0x74]"
  "str ''content'' = [0x63, 0x6F, 0x6E, 0x74, 0x65, 0x6E, 0x74]" "str ''error'' = [0x65, 0x72, 0x72, 0x6F, 0x72]"
  "str ''message'' = [0x6D, 0x65, 0x73, 0x73, 0x61, 0x67, 0x65]"
  by (simp_all add: str_def)

lemma scan_keys:
  assumes "\<not> is_ws c"
  shows "s_key 31 (0x22 # 0x74 # 0x79 # 0x70 # 0x65 # 0x22 # 0x3A # c # t) = Some (str ''type'', c # t)"
    "s_key 31 (0x22 # 0x74 # 0x65 # 0x78 # 0x74 # 0x22 # 0x3A # c # t) = Some (str ''text'', c # t)"
    "s_key 31 (0x22 # 0x65 # 0x72 # 0x72 # 0x6F # 0x72 # 0x22 # 0x3A # c # t) = Some (str ''error'', c # t)"
    "s_key 63 (0x22 # 0x74 # 0x79 # 0x70 # 0x65 # 0x22 # 0x3A # c # t) = Some (str ''type'', c # t)"
    "s_key 63 (0x22 # 0x63 # 0x6F # 0x6E # 0x74 # 0x65 # 0x6E # 0x74 # 0x22 # 0x3A # c # t) = Some (str ''content'', c # t)"
    "s_key 63 (0x22 # 0x6D # 0x65 # 0x73 # 0x73 # 0x61 # 0x67 # 0x65 # 0x22 # 0x3A # c # t) = Some (str ''message'', c # t)"
  using s_key_plain [of 31 "str ''type''" c t] s_key_plain [of 31 "str ''text''" c t] s_key_plain [of 31 "str ''error''" c t]
    s_key_plain [of 63 "str ''type''" c t] s_key_plain [of 63 "str ''content''" c t] s_key_plain [of 63 "str ''message''" c t] assms
  by (simp_all add: key_lits)

locale json_printer = json_escaper +
  assumes forms: "esc_form c (esc c)"
begin

lemma skip_quoted: "s_skip_string (quoted esc s @ t) = Some t"
proof -
  have "skip_string_loop (concat (map esc s) @ 0x22 # t) = Some t"
    by (induction s) (simp_all add: skip_esc_form [OF forms])
  then show ?thesis by (simp add: s_skip_string_def quoted_def)
qed

lemma decode_quoted:
  assumes "unat cap < 2 ^ 63" "length dst \<le> unat cap"
  shows "s_decode_string cap dst (quoted esc s @ t) = gw_fit cap (dst @ s) \<bind> (\<lambda>d. Some (d, t))"
  using decode_string_escaped [OF assms] by (simp add: quoted_def)

lemma quoted_Cons: "quoted esc s @ t = 0x22 # tl (quoted esc s) @ t"
  by (simp add: quoted_def)

lemma error_message_body:
  assumes "cap \<noteq> 0" "unat cap < 2 ^ 63"
  shows "gwj_error_message (error_body esc ty msg) cap =
    Some (if length msg < unat cap then Some (msg @ [0]) else None)"
proof -
  let ?tail = "quoted esc msg @ [0x7D, 0x7D]"
  let ?obj = "0x22 # 0x74 # 0x79 # 0x70 # 0x65 # 0x22 # 0x3A # quoted esc ty @
    0x2C # 0x22 # 0x6D # 0x65 # 0x73 # 0x73 # 0x61 # 0x67 # 0x65 # 0x22 # 0x3A # ?tail"
  have k: "s_key 63 (0x22 # 0x6D # 0x65 # 0x73 # 0x73 # 0x61 # 0x67 # 0x65 # 0x22 # 0x3A # ?tail) = Some (str ''message'', ?tail)"
    unfolding quoted_Cons [of msg "[0x7D, 0x7D]"] by (rule scan_keys(6)) simp
  have kt: "s_key 63 ?obj = Some (str ''type'', quoted esc ty @
    0x2C # 0x22 # 0x6D # 0x65 # 0x73 # 0x73 # 0x61 # 0x67 # 0x65 # 0x22 # 0x3A # ?tail)"
    unfolding quoted_Cons [of ty] by (rule scan_keys(4)) simp
  have sv: "s_skip_value (scan_fuel (quoted esc s @ u)) 0 (quoted esc s @ u) = Some (Some u)" for s u
    using skip_quoted [of s u] by (simp add: scan_fuel_def quoted_def)
  have d: "s_decode_string (cap - 1) [] ?tail = gw_fit (cap - 1) msg \<bind> (\<lambda>d. Some (d, [0x7D, 0x7D]))"
    using decode_quoted [of "cap - 1" "[]" msg "[0x7D, 0x7D]"] assms by (simp add: unat_pred)
  have fit: "gw_fit (cap - 1) msg = (if length msg < unat cap then Some msg else None)"
    using assms(1) by (auto simp: gw_fit_def unat_pred) (metis Suc_pred less_Suc_eq_le unat_gt_0)+
  have top: "top_loop (Suc (Suc n)) (str ''message'') cap ?obj = Some (if length msg < unat cap then Some (msg @ [0]) else None)" for n
    by (simp add: kt k sv d fit key_lits)
  have "gwj_top_string (0x7B # ?obj) (str ''message'') cap = Some (if length msg < unat cap then Some (msg @ [0]) else None)"
    unfolding gwj_top_string_def using top by (simp add: scan_fuel_def del: top_loop.simps)
  moreover have se: "s_skip_value (Suc m) 0 (0x22 # 0x65 # 0x72 # 0x72 # 0x6F # 0x72 # 0x22 # u) = Some (Some u)" for m u
    by (simp add: s_skip_string_def)
  ultimately have "error_loop (Suc (Suc n)) cap (tl (error_body esc ty msg)) =
      Some (if length msg < unat cap then Some (msg @ [0]) else None)" for n
    by (simp add: error_body_def str_def scan_keys key_lits scan_fuel_def del: s_skip_value.simps)
  then show ?thesis
    unfolding gwj_error_message_def by (simp add: error_body_def str_def scan_fuel_def del: error_loop.simps)
qed

end

interpretation gw_print: json_printer gw_esc
  by unfold_locales (rule gw_esc_form)

interpretation ax_print: json_printer esc_byte
  by unfold_locales (rule esc_byte_form)

section \<open>Bounds\<close>

lemma decode_string_bounded:
  assumes "s_decode_string cap d s = Some (d', r)" "unat cap < 2 ^ 63" "length d \<le> unat cap"
  shows "length d' \<le> unat cap"
  using assms decode_loop_bounded [of cap d _ d' r]
  by (auto simp: s_decode_string_def split: bind_splits)

lemma top_loop_bounded:
  assumes "top_loop fuel key cap s = Some (Some d)" "cap \<noteq> 0" "unat cap < 2 ^ 63"
  shows "length d \<le> unat cap"
  using assms
proof (induction fuel key cap s rule: top_loop.induct)
  case (2 fuel key cap s)
  obtain k s1 where k: "s_expect 0x7D (s_ws s) = None" "s_key 63 (s_ws s) = Some (k, s1)"
    using "2.prems"(1) by (auto simp: Let_def split: if_splits option.splits)
  show ?case
  proof (cases "k = key")
    case True
    with "2.prems"(1) k obtain e r where "s_decode_string (cap - 1) [] s1 = Some (e, r)" "d = e @ [0]"
      by (auto simp: Let_def split: bind_splits)
    moreover have "0 < unat cap" "unat (cap - 1) < 2 ^ 63" using "2.prems"(2,3) by (simp_all add: unat_gt_0 unat_pred)
    ultimately show ?thesis
      using decode_string_bounded [of "cap - 1" "[]" s1 e r] "2.prems"(2) by (simp add: unat_pred)
  next
    case False
    with "2.prems"(1) k obtain t u where t: "s_skip_value (scan_fuel s1) 0 s1 = Some (Some t)" "s_ws t = 0x2C # u"
      "top_loop fuel key cap u = Some (Some d)"
      by (auto simp: Let_def split: option.splits list.splits if_splits)
    show ?thesis
      by (rule "2.IH" [OF refl _ k(2) refl False t(1) refl t(2) refl t(3) "2.prems"(2,3)]) (use k(1) in simp)
  qed
qed simp

lemma element_text_bounded:
  assumes "element_text cap dst b t = Some d" "unat cap < 2 ^ 63" "length dst \<le> unat cap"
  shows "length d \<le> unat cap"
  using assms decode_string_bounded [of cap dst] by (auto simp: element_text_def split: option.splits if_splits)

lemma array_loop_bounded:
  assumes "array_loop fuel cap dst s = Some (Some (d, r))" "unat cap < 2 ^ 63" "length dst \<le> unat cap"
  shows "length d \<le> unat cap"
  using assms
proof (induction fuel cap dst s rule: array_loop.induct)
  case (2 fuel cap dst s)
  from "2.prems"(1) obtain s1 b t s2 d1 c s3 where m: "s_expect 0x7B (s_ws s) = Some s1"
    "element_loop (scan_fuel s1) False None s1 = Some (Some (b, t, s2))" "element_text cap dst b t = Some d1"
    "s_ws s2 = c # s3" "c = 0x2C \<and> array_loop fuel cap d1 s3 = Some (Some (d, r)) \<or> d = d1"
    by (auto simp: element_text_def [symmetric] split: option.splits prod.splits list.splits if_splits)
  have le: "length d1 \<le> unat cap" by (rule element_text_bounded [OF m(3) "2.prems"(2,3)])
  from m(5) show ?case
  proof (elim disjE conjE)
    assume "c = 0x2C" "array_loop fuel cap d1 s3 = Some (Some (d, r))"
    then show ?thesis
      using "2.IH" [OF m(1,2) refl refl refl m(3) [unfolded element_text_def] m(4)] "2.prems"(2) le by simp
  qed (use le in simp)
qed simp

lemma member_value_bounded:
  assumes "member_value cap found dst k s = Some (Some (f, d, r))" "unat cap < 2 ^ 63" "length dst \<le> unat cap"
  shows "length d \<le> unat cap"
  using assms array_loop_bounded [OF _ assms(2,3)]
  by (auto simp: member_value_def content_value_def Let_def split: if_splits option.splits)

lemma content_loop_bounded:
  assumes "content_loop fuel cap found dst s = Some (Some (f, d))" "unat cap < 2 ^ 63" "length dst \<le> unat cap"
  shows "length d \<le> unat cap"
  using assms
proof (induction fuel cap found dst s rule: content_loop.induct)
  case (2 fuel cap found dst s)
  from "2.prems"(1) consider "d = dst" | k s1 f1 d1 s2 c u where "s_expect 0x7D (s_ws s) = None" "s_key 63 (s_ws s) = Some (k, s1)"
      "member_value cap found dst k s1 = Some (Some (f1, d1, s2))" "s_ws s2 = c # u"
      "c = 0x2C \<and> content_loop fuel cap f1 d1 u = Some (Some (f, d)) \<or> d = d1"
    by (auto simp: Let_def member_value_def [symmetric] split: option.splits prod.splits list.splits if_splits)
  then show ?case
  proof cases
    case 2
    have le: "length d1 \<le> unat cap" by (rule member_value_bounded [OF 2(3) "2.prems"(2,3)])
    from 2(5) show ?thesis
    proof (elim disjE conjE)
      assume "c = 0x2C" "content_loop fuel cap f1 d1 u = Some (Some (f, d))"
      then show ?thesis
        using "2.IH" [OF refl _ 2(2) refl 2(3) [unfolded member_value_def] refl refl refl 2(4)] 2(1) "2.prems"(2) le by simp
    qed (use le in simp)
  qed (use "2.prems" in simp)
qed simp

lemma top_string_bounded:
  assumes "gwj_top_string body key cap = Some (Some d)" "cap \<noteq> 0" "unat cap < 2 ^ 63"
  shows "length d \<le> unat cap"
  using assms top_loop_bounded by (auto simp: gwj_top_string_def split: option.splits)

lemma content_text_bounded:
  assumes "gwj_content_text body cap = Some (Some d)" "unat cap < 2 ^ 63"
  shows "length d \<le> unat cap"
proof -
  from assms(1) obtain s f where "content_loop (scan_fuel s) cap False [] s = Some (Some (f, d))"
    by (auto simp: gwj_content_text_def split: option.splits bind_splits if_splits)
  then show ?thesis by (rule content_loop_bounded) (use assms(2) in simp_all)
qed

section \<open>Properties\<close>

text \<open>
  C35: The gateway's UTF-8 check and the library's agree on every byte string, so
  a prompt the gateway escapes is one the library accepts as text.
\<close>

theorem gateway_utf8_agrees:
  "utf8_scan utf8_seq_len s = ax_validate_utf8 s"
  by (simp add: gw_utf8.scan_iff_text validate_utf8_iff)

text \<open>
  \<open>gwj_escape_utf8\<close> escapes exactly well-formed UTF-8 that fits: it returns the
  length of the escaped text and writes it if the source is UTF-8 and the text
  is at most \<open>cap\<close> bytes, and returns -1 in every other case.
\<close>

theorem escape_utf8_spec:
  assumes "unat cap < 2 ^ 31" "unat len \<le> length s"
  shows "let t = take (unat len) s in
    if ax_validate_utf8 t \<and> length (gw_escape t) \<le> unat cap
    then gwj_escape_utf8 cap (Some s) len = (int (length (gw_escape t)), gw_escape t)
    else fst (gwj_escape_utf8 cap (Some s) len) = -1"
  using gwj_escape_fits [OF assms(1), of "take (unat len) s"] gwj_escape_overflow [OF assms(1), of "take (unat len) s"]
  by (auto simp: Let_def gwj_escape_utf8_def gw_utf8.scan_iff_text validate_utf8_iff)

theorem escape_utf8_spec_witness:
  "gwj_escape_utf8 8 (Some [0x61, 0x0A, 0x78]) 2 = (3, [0x61, 0x5C, 0x6E])"
proof -
  have "ax_validate_utf8 [0x61, 0x0A]" by code_simp
  then show ?thesis
    using escape_utf8_spec [of 8 2 "[0x61, 0x0A, 0x78]"]
    by (simp add: Let_def gw_escape_def gw_esc_cases)
qed

text \<open>
  C32: Round trip: reading a string literal the gateway has escaped gives back the
  original bytes, for every byte string that fits, and reading a literal as the
  library's canonical JSON writes it does too.
\<close>

theorem escape_decode_roundtrip:
  assumes "unat cap < 2 ^ 63" "length s \<le> unat cap"
  shows "s_decode_string cap [] (quoted gw_esc s @ t) = Some (s, t) \<and>
    s_decode_string cap [] (0x22 # escape s @ 0x22 # t) = Some (s, t)"
  using gw_print.decode_quoted [OF assms(1), of "[]" s t] ax_json.decode_string_escaped [OF assms(1), of "[]" s t] assms(2)
  by (simp add: gw_fit_def escape_def)

theorem escape_decode_roundtrip_witness:
  "s_decode_string 8 [] (quoted gw_esc [0x22, 0x01, 0xC3] @ [0x2C]) = Some ([0x22, 0x01, 0xC3], [0x2C])"
  using escape_decode_roundtrip [of 8 "[0x22, 0x01, 0xC3]" "[0x2C]"] by simp

text \<open>
  \<open>gwj_error_message\<close> finds the message of an error body and returns it
  NUL-terminated if it fits, whatever the type and the message contain.
\<close>

theorem error_message_reads:
  assumes "cap \<noteq> 0" "unat cap < 2 ^ 63"
  shows "gwj_error_message (error_body gw_esc ty msg) cap =
    Some (if length msg < unat cap then Some (msg @ [0]) else None)"
  using assms by (rule gw_print.error_message_body)

theorem error_message_reads_witness:
  "gwj_error_message (error_body gw_esc [0x7D] [0x22, 0x78]) 8 = Some (Some [0x22, 0x78, 0])"
  using error_message_reads [of 8 "[0x7D]" "[0x22, 0x78]"] by simp

text \<open>
  C34: The readers terminate on every input: \<open>gwj_top_string\<close>, \<open>gwj_content_text\<close>
  and \<open>gwj_error_message\<close> return for any bytes whatsoever, well-formed JSON or
  not.
\<close>

theorem json_readers_terminate:
  "gwj_top_string body key cap \<noteq> None \<and> gwj_content_text body cap \<noteq> None \<and> gwj_error_message body cap \<noteq> None"
  using top_string_total content_text_total error_message_total by (metis option.distinct(1))

text \<open>
  The readers stay within the buffers they are given, whatever the body: the
  text never exceeds \<open>cap\<close>, terminating NUL included where there is one.
\<close>

theorem json_readers_bounded:
  assumes "cap \<noteq> 0" "unat cap < 2 ^ 63"
  shows "(\<forall>d. gwj_top_string body key cap = Some (Some d) \<longrightarrow> length d \<le> unat cap) \<and>
    (\<forall>d. gwj_content_text body cap = Some (Some d) \<longrightarrow> length d \<le> unat cap)"
  using top_string_bounded [OF _ assms] content_text_bounded [OF _ assms(2)] by blast

theorem json_readers_bounded_witness:
  \<open>gwj_content_text (str ''{"content":[{"type":"text","text":"a"}]}'') 4 = Some (Some [0x61]) \<and> length [0x61 :: byte] \<le> unat (4 :: size_t)\<close>
proof -
  let ?b = \<open>str ''{"content":[{"type":"text","text":"a"}]}''\<close>
  have r: "gwj_content_text ?b 4 = Some (Some [0x61])" by code_simp
  have "unat (4 :: size_t) < 2 ^ 63" "(4 :: size_t) \<noteq> 0" by simp_all
  with r json_readers_bounded [of 4 ?b "[]"] show ?thesis by blast
qed

end
