(* ===== verification/GwLedger.thy ===== *)
theory GwLedger
  imports L3Types "HOL-Library.Sublist"
begin

text \<open>
  \<open>gateway/src/gw_ledger.c\<close>: the append-only evidence file, its replay at
  start-up, and the witness export.

  The audit library (\<open>ax_commit_evidence\<close>, \<open>ax_ledger_genesis\<close>,
  \<open>ax_ledger_append\<close> and the fields of \<open>ax_ledger_ctx_t\<close>) is installed
  separately: it is the record \<open>audit\<close>, an argument of the definitions that call
  it, of which the code relies on commits being 32 bytes (\<open>commit_32\<close>).  The
  operating system is an argument too: a list of \<open>write()\<close> results, of which
  reads failed, and whether the other calls succeed; an exhausted list means
  that the calls go through.

  A file is the list of its bytes.  The static variables of the translation
  unit are the record \<open>gw_ledger\<close>; \<open>g_fd\<close> and \<open>g_export_fd\<close> are the Booleans
  "the descriptor is open", and the files they write to are \<open>g_file\<close> and
  \<open>g_export_file\<close>.
\<close>

section \<open>The audit library and the state\<close>

record ('ct, 'led) audit =
  ax_commit_evidence :: "byte list \<Rightarrow> byte list \<Rightarrow> 'ct \<Rightarrow> byte list \<times> 'ct"
  ax_ledger_genesis :: "'ct \<Rightarrow> 'led \<times> 'ct"
  ax_ledger_append :: "'led \<Rightarrow> byte list \<Rightarrow> 'ct \<Rightarrow> 'led \<times> 'ct"
  current_hash :: "'led \<Rightarrow> byte list"
  led_sequence :: "'led \<Rightarrow> u64"
  cf_init :: 'ct
  cf_any :: "'ct \<Rightarrow> int"

definition commit_32 :: "('ct, 'led) audit \<Rightarrow> bool" where
  "commit_32 A \<longleftrightarrow> (\<forall>t p f. length (fst (ax_commit_evidence A t p f)) = 32)"

record 'led gw_ledger =
  g_ctx :: 'led
  g_fd :: bool
  g_file :: "byte list"
  g_export_fd :: bool
  g_export_file :: "byte list"
  g_last_payload :: "byte list"

definition GWL_TAG_MAX :: nat where "GWL_TAG_MAX = 32"
definition GWL_PAYLOAD_MAX :: nat where "GWL_PAYLOAD_MAX = 256 * 1024"

lemmas gwl_limits = GWL_TAG_MAX_def GWL_PAYLOAD_MAX_def

section \<open>Model: input, output and numbers\<close>

text \<open>
  \<open>read_exact\<close> on the unread part of the file: \<open>None\<close> is a failed \<open>read()\<close>,
  otherwise the bytes obtained (fewer than asked for at the end of the file)
  and the rest.
\<close>

definition read_exact :: "bool list \<Rightarrow> byte list \<Rightarrow> nat \<Rightarrow> (byte list \<times> byte list) option" where
  "read_exact errs f n =
     (case errs of e # _ \<Rightarrow> if e then None else Some (take n f, drop n f)
      | [] \<Rightarrow> Some (take n f, drop n f))"

text \<open>
  \<open>write_all\<close> appends to the file; \<open>os\<close> are the results of the \<open>write()\<close> calls.
  The results are whether it returned 0, the file, and the unused part of \<open>os\<close>.
\<close>

fun write_all :: "int list \<Rightarrow> byte list \<Rightarrow> byte list \<Rightarrow> bool \<times> byte list \<times> int list" where
  "write_all os f [] = (True, f, os)"
| "write_all [] f (b # bs) = (True, f @ b # bs, [])"
| "write_all (w # os) f (b # bs) =
     (if w < 0 then (False, f, os)
      else write_all os (f @ take (nat w) (b # bs)) (drop (nat w) (b # bs)))"

definition rd_u32le :: "byte list \<Rightarrow> 32 word" where
  "rd_u32le b =
     ucast (b ! 0) OR push_bit 8 (ucast (b ! 1)) OR push_bit 16 (ucast (b ! 2)) OR push_bit 24 (ucast (b ! 3))"

definition rd_u64le :: "byte list \<Rightarrow> u64" where
  "rd_u64le b = foldl (\<lambda>v x. push_bit 8 v OR ucast x) 0 (rev b)"

definition wr_u32le :: "32 word \<Rightarrow> byte list" where
  "wr_u32le v = [ucast v, ucast (drop_bit 8 v), ucast (drop_bit 16 v), ucast (drop_bit 24 v)]"

fun wr_loop :: "nat \<Rightarrow> u64 \<Rightarrow> byte list" where
  "wr_loop 0 v = []"
| "wr_loop (Suc i) v = ucast v # wr_loop i (drop_bit 8 v)"

definition wr_u64le :: "u64 \<Rightarrow> byte list" where
  "wr_u64le v = wr_loop 8 v"

section \<open>Model: replay\<close>

text \<open>\<open>if (read_exact(...) != 0 || got < n) goto torn;\<close>\<close>

definition read_full :: "bool list \<Rightarrow> byte list \<Rightarrow> nat \<Rightarrow> (byte list \<times> byte list) option" where
  "read_full errs f n =
     (case read_exact errs f n of None \<Rightarrow> None | Some (b, r) \<Rightarrow> if length b < n then None else Some (b, r))"

text \<open>
  The reads of one pass of the loop of \<open>gwl_open\<close>: \<open>P_torn\<close> and \<open>P_fail\<close> are the
  labels of the same names, \<open>P_eof\<close> the clean end of the file.
\<close>

datatype parsed = P_eof | P_fail | P_torn | P_frame "byte list" "byte list" "byte list" "byte list"

definition parse_frame :: "bool list \<Rightarrow> byte list \<Rightarrow> parsed" where
  "parse_frame errs f =
     (case read_exact errs f 4 of
        None \<Rightarrow> P_fail
      | Some (h4, f) \<Rightarrow>
      if h4 = [] then P_eof
      else if length h4 < 4 then P_torn
      else let tag_len = rd_u32le h4 in
      if tag_len = 0 \<or> of_nat GWL_TAG_MAX < tag_len then P_fail
      else case read_full (drop 1 errs) f (unat tag_len) of
        None \<Rightarrow> P_torn
      | Some (tag, f) \<Rightarrow>
      case read_full (drop 2 errs) f 8 of
        None \<Rightarrow> P_torn
      | Some (h8, f) \<Rightarrow>
      let plen = rd_u64le h8 in
      if plen = 0 \<or> of_nat GWL_PAYLOAD_MAX < plen then P_fail
      else case read_full (drop 3 errs) f (unat plen) of
        None \<Rightarrow> P_torn
      | Some (payload, f) \<Rightarrow>
      case read_full (drop 4 errs) f 32 of
        None \<Rightarrow> P_torn
      | Some (stored, f) \<Rightarrow> P_frame tag payload stored f)"

text \<open>The checks of one record: whether it passes, and the chain state they leave.\<close>

definition check_frame :: "('ct, 'led) audit \<Rightarrow> 'led \<Rightarrow> byte list \<Rightarrow> byte list \<Rightarrow> byte list \<Rightarrow> bool \<times> 'led" where
  "check_frame A ctx tag payload stored =
     (let (computed, cf) = ax_commit_evidence A (c_str tag) payload (cf_init A) in
      if cf_any A cf \<noteq> 0 then (False, ctx)
      else if computed \<noteq> stored then (False, ctx)
      else let (ctx, cf) = ax_ledger_append A ctx computed (cf_init A) in
      (cf_any A cf = 0, ctx))"

lemma read_full_split: "read_full errs f n = Some (b, r) \<Longrightarrow> f = b @ r \<and> length b = n"
  by (auto simp: read_full_def read_exact_def split: option.splits list.splits if_splits)

lemma parse_frame_parts:
  assumes "parse_frame errs f = P_frame tag payload stored r"
  obtains h4 h8 where "f = h4 @ tag @ h8 @ payload @ stored @ r" "length h4 = 4" "length h8 = 8" "length stored = 32"
    "unat (rd_u32le h4) = length tag" "unat (rd_u64le h8) = length payload"
    "rd_u32le h4 \<noteq> 0" "\<not> of_nat GWL_TAG_MAX < rd_u32le h4" "rd_u64le h8 \<noteq> 0" "\<not> of_nat GWL_PAYLOAD_MAX < rd_u64le h8"
proof -
  obtain h4 f1 where h4: "read_exact errs f 4 = Some (h4, f1)" "\<not> length h4 < 4"
    "rd_u32le h4 \<noteq> 0" "\<not> of_nat GWL_TAG_MAX < rd_u32le h4"
    using assms by (auto simp: parse_frame_def Let_def split: option.splits prod.splits if_splits)
  with assms obtain f2 where t: "read_full (drop 1 errs) f1 (unat (rd_u32le h4)) = Some (tag, f2)"
    by (auto simp: parse_frame_def Let_def split: option.splits prod.splits if_splits)
  with assms h4 obtain h8 f3 where h8: "read_full (drop 2 errs) f2 8 = Some (h8, f3)"
    "rd_u64le h8 \<noteq> 0" "\<not> of_nat GWL_PAYLOAD_MAX < rd_u64le h8"
    by (auto simp: parse_frame_def Let_def split: option.splits prod.splits if_splits)
  with assms h4 t obtain f4 where p: "read_full (drop 3 errs) f3 (unat (rd_u64le h8)) = Some (payload, f4)"
    "read_full (drop 4 errs) f4 32 = Some (stored, r)"
    by (auto simp: parse_frame_def Let_def split: option.splits prod.splits if_splits)
  have "f = h4 @ f1" "length h4 = 4"
    using h4(1,2) by (auto simp: read_exact_def split: list.splits if_splits)
  with h4 t h8 p show ?thesis
    using read_full_split [OF t] read_full_split [OF h8(1)] read_full_split [OF p(1)] read_full_split [OF p(2)]
    by (intro that [of h4 h8]) auto
qed

lemma parse_frame_shorter: "parse_frame errs f = P_frame tag payload stored r \<Longrightarrow> length r < length f"
  by (erule parse_frame_parts) simp

text \<open>
  The loop: chain state, last payload and number of bytes of complete records
  (\<open>good_end\<close>), and how it was left.  Each record takes five reads and one \<open>lseek()\<close>; \<open>seeks\<close> says
  which of these succeed.
\<close>

datatype loop_exit = Clean | Torn | Failed

function replay_loop :: "('ct, 'led) audit \<Rightarrow> bool list \<Rightarrow> bool list \<Rightarrow> 'led \<Rightarrow> byte list \<Rightarrow> nat \<Rightarrow> byte list \<Rightarrow>
    loop_exit \<times> 'led \<times> byte list \<times> nat" where
  "replay_loop A errs seeks ctx lastp good_end f =
     (case parse_frame errs f of
        P_eof \<Rightarrow> (Clean, ctx, lastp, good_end)
      | P_fail \<Rightarrow> (Failed, ctx, lastp, good_end)
      | P_torn \<Rightarrow> (Torn, ctx, lastp, good_end)
      | P_frame tag payload stored f' \<Rightarrow>
          (case check_frame A ctx tag payload stored of
             (ok, ctx') \<Rightarrow>
               if \<not> ok then (Failed, ctx', lastp, good_end)
               else if seeks \<noteq> [] \<and> \<not> hd seeks then (Failed, ctx', payload, good_end)
               else replay_loop A (drop 5 errs) (drop 1 seeks) ctx' payload (good_end + (length f - length f')) f'))"
  by pat_completeness auto
termination
  by (relation "measure (\<lambda>(_, _, _, _, _, _, f). length f)") (auto dest: parse_frame_shorter)

declare replay_loop.simps [simp del]

text \<open>What the operating system does during \<open>gwl_open\<close>.\<close>

record open_env =
  oe_open_ok :: bool
  oe_read_errs :: "bool list"
  oe_seeks :: "bool list"
  oe_end_ok :: bool
  oe_trunc_ok :: bool

text \<open>
  Return code (0 or -1), the \<open>truncated\<close> flag and the state.  \<open>f\<close> is the file at
  the path, empty if it is created.
\<close>

definition gwl_open ::
    "('ct, 'led) audit \<Rightarrow> open_env \<Rightarrow> byte list \<Rightarrow> bool \<Rightarrow> 'led gw_ledger \<Rightarrow> int \<times> bool \<times> 'led gw_ledger" where
  "gwl_open A env f torn_tail_ok st =
     (let (ctx, cf) = ax_ledger_genesis A (cf_init A); st = st\<lparr>g_ctx := ctx\<rparr> in
      if cf_any A cf \<noteq> 0 then (-1, False, st)
      else if \<not> oe_open_ok env then (-1, False, st\<lparr>g_fd := False\<rparr>)
      else
        let (x, ctx, lastp, good_end) =
              replay_loop A (oe_read_errs env) (oe_seeks env) ctx (g_last_payload st) 0 f;
            st = st\<lparr>g_ctx := ctx, g_last_payload := lastp, g_file := f\<rparr>;
            fail = (-1, False, st\<lparr>g_fd := False\<rparr>)
        in case x of
             Failed \<Rightarrow> fail
           | Torn \<Rightarrow>
               if \<not> torn_tail_ok then fail
               else if \<not> oe_trunc_ok env then fail
               else if \<not> oe_end_ok env then (-1, True, st\<lparr>g_fd := False, g_file := take good_end f\<rparr>)
               else (0, True, st\<lparr>g_fd := True, g_file := take good_end f\<rparr>)
           | Clean \<Rightarrow>
               if \<not> oe_end_ok env then fail
               else (0, False, st\<lparr>g_fd := True\<rparr>))"

section \<open>Model: append, export, queries\<close>

record append_env =
  ae_writes :: "int list"
  ae_fsync_ok :: bool
  ae_export_writes :: "int list"

text \<open>The five writes of a frame, stopping at the first that fails.\<close>

fun write_parts :: "int list \<Rightarrow> byte list \<Rightarrow> byte list list \<Rightarrow> bool \<times> byte list" where
  "write_parts os f [] = (True, f)"
| "write_parts os f (p # ps) =
     (case write_all os f p of (ok, f', os') \<Rightarrow> if ok then write_parts os' f' ps else (False, f'))"

definition frame_parts :: "byte list \<Rightarrow> byte list \<Rightarrow> byte list \<Rightarrow> byte list list" where
  "frame_parts tag payload commit =
     [wr_u32le (of_nat (length tag)), tag, wr_u64le (of_nat (length payload)), payload, commit]"

definition gwl_append ::
    "('ct, 'led) audit \<Rightarrow> append_env \<Rightarrow> byte list option \<Rightarrow> byte list option \<Rightarrow> 'led gw_ledger \<Rightarrow>
     (int \<times> (byte list \<times> u64) option) \<times> 'led gw_ledger" where
  "gwl_append A env tag payload st =
     (let err = (\<lambda>st. ((-1, None), st)) in
      if \<not> g_fd st \<or> tag = None \<or> payload = None then err st
      else
        let tag = c_str (the tag); payload = the payload in
        if tag = [] \<or> GWL_TAG_MAX < length tag then err st
        else if payload = [] \<or> GWL_PAYLOAD_MAX < length payload then err st
        else
          let (commit, cf) = ax_commit_evidence A tag payload (cf_init A) in
          if cf_any A cf \<noteq> 0 then err st
          else
            let (ok, file) = write_parts (ae_writes env) (g_file st) (frame_parts tag payload commit);
                st = st\<lparr>g_file := file\<rparr>
            in
            if \<not> ok then err st
            else if \<not> ae_fsync_ok env then err st
            else
              let (eok, efile) = write_parts (ae_export_writes env) (g_export_file st) (frame_parts tag payload commit);
                  st = (if g_export_fd st then st\<lparr>g_export_file := efile, g_export_fd := eok\<rparr> else st);
                  (ctx, cf) = ax_ledger_append A (g_ctx st) commit (cf_init A);
                  st = st\<lparr>g_ctx := ctx\<rparr>
              in
              if cf_any A cf \<noteq> 0 then err st
              else ((0, Some (current_hash A ctx, led_sequence A ctx)), st\<lparr>g_last_payload := payload\<rparr>))"

definition gwl_seq :: "('ct, 'led) audit \<Rightarrow> 'led gw_ledger \<Rightarrow> u64" where
  "gwl_seq A st = led_sequence A (g_ctx st)"

definition gwl_head :: "('ct, 'led) audit \<Rightarrow> 'led gw_ledger \<Rightarrow> byte list" where
  "gwl_head A st = current_hash A (g_ctx st)"

record export_env =
  ee_open_ok :: bool
  ee_seek_ok :: bool
  ee_reads :: "int list"
  ee_writes :: "int list"
  ee_fsync_ok :: bool

text \<open>
  The copy loop of \<open>gwl_export_enable\<close>: \<open>f\<close> is what has not been copied yet; a
  \<open>pread()\<close> returns what is listed, at most the buffer's 64 KiB and what is left.
\<close>

definition copy_chunk :: nat where "copy_chunk = 64 * 1024"

function copy_loop :: "int list \<Rightarrow> int list \<Rightarrow> byte list \<Rightarrow> byte list \<Rightarrow> bool \<times> byte list" where
  "copy_loop rs os ex f =
     (if f = [] then (True, ex)
      else
        let r = (case rs of r # _ \<Rightarrow> min (nat r) copy_chunk | [] \<Rightarrow> copy_chunk) in
        if r = 0 then (False, ex)
        else case write_all os ex (take r f) of
               (ok, ex', os') \<Rightarrow> if ok then copy_loop (drop 1 rs) os' ex' (drop r f) else (False, ex'))"
  by pat_completeness auto
termination
  by (relation "measure (\<lambda>(_, _, _, f). length f)") auto

declare copy_loop.simps [simp del]

definition gwl_export_enable :: "export_env \<Rightarrow> byte list option \<Rightarrow> 'led gw_ledger \<Rightarrow> int \<times> 'led gw_ledger" where
  "gwl_export_enable env path st =
     (if \<not> g_fd st \<or> path = None \<or> c_str (the path) = [] then (-1, st)
      else if \<not> ee_open_ok env then (-1, st\<lparr>g_export_fd := False\<rparr>)
      else
        let (ok, ex) = (if ee_seek_ok env then copy_loop (ee_reads env) (ee_writes env) [] (g_file st) else (False, []));
            st = st\<lparr>g_export_file := ex\<rparr>
        in
        if \<not> ok \<or> \<not> ee_fsync_ok env then (-1, st\<lparr>g_export_fd := False\<rparr>)
        else (0, st\<lparr>g_export_fd := True\<rparr>))"

definition gwl_export_active :: "'led gw_ledger \<Rightarrow> bool" where
  "gwl_export_active st = g_export_fd st"

fun contains_loop :: "byte list \<Rightarrow> byte list \<Rightarrow> bool" where
  "contains_loop needle [] = False"
| "contains_loop needle (c # p) =
     (if length needle \<le> length (c # p) then
        if take (length needle) (c # p) = needle then True else contains_loop needle p
      else False)"

definition gwl_last_payload_contains :: "byte list option \<Rightarrow> 'led gw_ledger \<Rightarrow> bool" where
  "gwl_last_payload_contains needle st =
     (case needle of
        None \<Rightarrow> False
      | Some n \<Rightarrow>
          if g_last_payload st = [] then False
          else if c_str n = [] \<or> length (g_last_payload st) < length (c_str n) then False
          else contains_loop (c_str n) (g_last_payload st))"

definition gwl_close :: "'led gw_ledger \<Rightarrow> 'led gw_ledger" where
  "gwl_close st = st\<lparr>g_export_fd := False, g_fd := False\<rparr>"

section \<open>Little-endian numbers\<close>

lemma rd_wr_u32le: "rd_u32le (wr_u32le v) = v"
proof (rule bit_word_eqI)
  fix n assume "n < LENGTH(32)"
  then show "bit (rd_u32le (wr_u32le v)) n = bit v n"
    by (cases "n < 16"; cases "n < 24") (auto simp: rd_u32le_def wr_u32le_def bit_simps)
qed

lemma length_wr_u32le [simp]: "length (wr_u32le v) = 4"
  by (simp add: wr_u32le_def)

lemma length_wr_loop: "length (wr_loop n v) = n"
  by (induction n arbitrary: v) auto

lemma length_wr_u64le [simp]: "length (wr_u64le v) = 8"
  by (simp add: wr_u64le_def length_wr_loop)

lemma rd_u64le_Cons: "rd_u64le (b # bs) = push_bit 8 (rd_u64le bs) OR ucast b"
  by (simp add: rd_u64le_def)

lemma rd_wr_loop: "rd_u64le (wr_loop n v) = take_bit (8 * n) v"
proof (induction n arbitrary: v)
  case 0
  then show ?case by (simp add: rd_u64le_def)
next
  case (Suc n)
  show ?case
    by (rule bit_word_eqI) (auto simp: rd_u64le_Cons Suc bit_simps)
qed

lemma rd_wr_u64le: "rd_u64le (wr_u64le v) = v"
  unfolding wr_u64le_def rd_wr_loop by (rule bit_word_eqI) (simp add: bit_simps)

lemma bit_byte_bound: "bit (b :: byte) n \<Longrightarrow> n < 8"
  using bit_imp_le_length by fastforce

lemma rd_u64le_bound: "bit (rd_u64le bs) n \<Longrightarrow> n < 8 * length bs"
proof (induction bs arbitrary: n)
  case Nil
  then show ?case by (simp add: rd_u64le_def)
next
  case (Cons b bs)
  then have "8 \<le> n \<and> bit (rd_u64le bs) (n - 8) \<or> n < 8"
    by (auto simp: rd_u64le_Cons bit_simps dest: bit_byte_bound)
  with Cons.IH [of "n - 8"] show ?case by auto
qed

lemma wr_rd_loop: "length bs \<le> 8 \<Longrightarrow> wr_loop (length bs) (rd_u64le bs) = bs"
proof (induction bs)
  case (Cons b bs)
  have "ucast (rd_u64le (b # bs)) = b"
    by (rule bit_word_eqI) (auto simp: rd_u64le_Cons bit_simps)
  moreover have "drop_bit 8 (rd_u64le (b # bs)) = rd_u64le bs"
  proof (rule bit_word_eqI)
    fix n assume "n < LENGTH(64)"
    then show "bit (drop_bit 8 (rd_u64le (b # bs))) n = bit (rd_u64le bs) n"
      using Cons.prems rd_u64le_bound [of bs n] by (auto simp: rd_u64le_Cons bit_simps dest: bit_byte_bound)
  qed
  ultimately show ?case using Cons by simp
qed simp

lemma wr_rd_u64le: "length bs = 8 \<Longrightarrow> wr_u64le (rd_u64le bs) = bs"
  using wr_rd_loop [of bs] by (simp add: wr_u64le_def)

lemma wr_rd_u32le:
  assumes "length bs = 4"
  shows "wr_u32le (rd_u32le bs) = bs"
proof -
  obtain a b c d where bs: "bs = [a, b, c, d]"
    using assms by (auto simp: length_Suc_conv numeral_eq_Suc)
  have "ucast (rd_u32le bs) = a" "ucast (drop_bit 8 (rd_u32le bs)) = b"
    "ucast (drop_bit 16 (rd_u32le bs)) = c" "ucast (drop_bit 24 (rd_u32le bs)) = d"
    by (rule bit_word_eqI, auto simp: rd_u32le_def bs bit_simps dest: bit_byte_bound)+
  then show ?thesis by (simp add: wr_u32le_def bs)
qed

section \<open>Frames\<close>

definition evidence_commit :: "('ct, 'led) audit \<Rightarrow> byte list \<Rightarrow> byte list \<Rightarrow> byte list" where
  "evidence_commit A tag payload = fst (ax_commit_evidence A tag payload (cf_init A))"

definition commit_ok :: "('ct, 'led) audit \<Rightarrow> byte list \<Rightarrow> byte list \<Rightarrow> bool" where
  "commit_ok A tag payload \<longleftrightarrow> cf_any A (snd (ax_commit_evidence A tag payload (cf_init A))) = 0"

definition chain :: "('ct, 'led) audit \<Rightarrow> 'led \<Rightarrow> byte list \<Rightarrow> 'led" where
  "chain A ctx commit = fst (ax_ledger_append A ctx commit (cf_init A))"

definition chain_ok :: "('ct, 'led) audit \<Rightarrow> 'led \<Rightarrow> byte list \<Rightarrow> bool" where
  "chain_ok A ctx commit \<longleftrightarrow> cf_any A (snd (ax_ledger_append A ctx commit (cf_init A))) = 0"

text \<open>The bytes of a record; an entry is its tag, as stored, and its payload.\<close>

definition frame :: "('ct, 'led) audit \<Rightarrow> byte list \<times> byte list \<Rightarrow> byte list" where
  "frame A e = concat (frame_parts (fst e) (snd e) (evidence_commit A (c_str (fst e)) (snd e)))"

definition entry_ok :: "byte list \<times> byte list \<Rightarrow> bool" where
  "entry_ok e \<longleftrightarrow> fst e \<noteq> [] \<and> length (fst e) \<le> GWL_TAG_MAX \<and> snd e \<noteq> [] \<and> length (snd e) \<le> GWL_PAYLOAD_MAX"

text \<open>The chain state after the entries of a file, if every commit and link succeeds.\<close>

fun chain_of :: "('ct, 'led) audit \<Rightarrow> 'led \<Rightarrow> (byte list \<times> byte list) list \<Rightarrow> 'led option" where
  "chain_of A ctx [] = Some ctx"
| "chain_of A ctx (e # es) =
     (let c = evidence_commit A (c_str (fst e)) (snd e) in
      if commit_ok A (c_str (fst e)) (snd e) \<and> chain_ok A ctx c then chain_of A (chain A ctx c) es else None)"

lemma check_frame_eq:
  "check_frame A ctx tag payload stored =
    (let c = evidence_commit A (c_str tag) payload in
     if \<not> commit_ok A (c_str tag) payload \<or> c \<noteq> stored then (False, ctx)
     else (chain_ok A ctx c, chain A ctx c))"
  by (simp add: check_frame_def evidence_commit_def commit_ok_def chain_def chain_ok_def split_beta Let_def)

lemma frame_eq:
  "frame A (tag, payload) = wr_u32le (of_nat (length tag)) @ tag @ wr_u64le (of_nat (length payload)) @ payload @
     evidence_commit A (c_str tag) payload"
  by (simp add: frame_def frame_parts_def)

lemma length_commit: "commit_32 A \<Longrightarrow> length (evidence_commit A t p) = 32"
  by (simp add: commit_32_def evidence_commit_def)

text \<open>What a parsed frame was read from.\<close>

lemma parse_frame_sound:
  assumes "parse_frame errs f = P_frame tag payload stored r"
  shows "f = wr_u32le (of_nat (length tag)) @ tag @ wr_u64le (of_nat (length payload)) @ payload @ stored @ r"
    and "entry_ok (tag, payload)" and "length stored = 32"
proof -
  obtain h4 h8 where h: "f = h4 @ tag @ h8 @ payload @ stored @ r" "length h4 = 4" "length h8 = 8" "length stored = 32"
    "unat (rd_u32le h4) = length tag" "unat (rd_u64le h8) = length payload"
    "rd_u32le h4 \<noteq> 0" "\<not> of_nat GWL_TAG_MAX < rd_u32le h4" "rd_u64le h8 \<noteq> 0" "\<not> of_nat GWL_PAYLOAD_MAX < rd_u64le h8"
    using assms by (rule parse_frame_parts)
  have "of_nat (length tag) = rd_u32le h4" "of_nat (length payload) = rd_u64le h8"
    unfolding h(5,6) [symmetric] by simp_all
  then have "h4 = wr_u32le (of_nat (length tag))" "h8 = wr_u64le (of_nat (length payload))"
    using wr_rd_u32le [OF h(2)] wr_rd_u64le [OF h(3)] by simp_all
  then show "f = wr_u32le (of_nat (length tag)) @ tag @ wr_u64le (of_nat (length payload)) @ payload @ stored @ r"
    using h(1) by simp
  show "length stored = 32" by (rule h(4))
  have "length tag \<noteq> 0" "length payload \<noteq> 0"
    using h(5,6,7,9) by (metis unat_eq_zero)+
  moreover have "length tag \<le> GWL_TAG_MAX" "length payload \<le> GWL_PAYLOAD_MAX"
    using h(8,10) unfolding h(5,6) [symmetric] by (simp_all add: word_less_nat_alt gwl_limits)
  ultimately show "entry_ok (tag, payload)" by (simp add: entry_ok_def)
qed

section \<open>Reading back\<close>

lemma read_full_ok: "read_full [] f n = (if length f < n then None else Some (take n f, drop n f))"
  by (simp add: read_full_def read_exact_def)

lemma read_full_append: "length b = n \<Longrightarrow> read_full [] (b @ r) n = Some (b, r)"
  by (simp add: read_full_ok)

lemma read_exact_4: "read_exact [] f 4 = Some (take 4 f, drop 4 f)"
  by (simp add: read_exact_def)

lemma entry_lengths:
  assumes "entry_ok (tag, payload)"
  shows "unat (of_nat (length tag) :: 32 word) = length tag" "of_nat (length tag) \<noteq> (0 :: 32 word)"
    "\<not> of_nat GWL_TAG_MAX < (of_nat (length tag) :: 32 word)"
    "unat (of_nat (length payload) :: u64) = length payload" "of_nat (length payload) \<noteq> (0 :: u64)"
    "\<not> of_nat GWL_PAYLOAD_MAX < (of_nat (length payload) :: u64)"
proof -
  have b: "0 < length tag" "length tag \<le> 32" "0 < length payload" "length payload \<le> 262144"
    using assms by (simp_all add: entry_ok_def gwl_limits)
  show t: "unat (of_nat (length tag) :: 32 word) = length tag"
    using b by (simp add: unsigned_of_nat take_bit_nat_eq_self_iff)
  show p: "unat (of_nat (length payload) :: u64) = length payload"
    using b by (simp add: unat_of_nat_size)
  show "of_nat (length tag) \<noteq> (0 :: 32 word)" using t b by (metis less_numeral_extra(3) unat_0)
  show "of_nat (length payload) \<noteq> (0 :: u64)" using p b by (metis less_numeral_extra(3) unat_0)
  show "\<not> of_nat GWL_TAG_MAX < (of_nat (length tag) :: 32 word)"
    unfolding word_less_nat_alt t using b by (simp add: gwl_limits)
  show "\<not> of_nat GWL_PAYLOAD_MAX < (of_nat (length payload) :: u64)"
    unfolding word_less_nat_alt p using b by (simp add: gwl_limits)
qed

lemma prefix_split:
  assumes "t @ u = a @ b" "length a \<le> length t"
  obtains t' where "t = a @ t'" "t' @ u = b"
  using assms by (auto simp: append_eq_append_conv2)

text \<open>A complete frame is read as such; of a frame cut short, any non-empty prefix is torn.\<close>

lemma parse_frame_header:
  assumes "entry_ok (tag, payload)" "h4 = wr_u32le (of_nat (length tag))"
  shows "parse_frame [] (h4 @ f) =
    (case read_full [] f (length tag) of
        None \<Rightarrow> P_torn
      | Some (tag, f) \<Rightarrow>
      case read_full [] f 8 of
        None \<Rightarrow> P_torn
      | Some (h8, f) \<Rightarrow>
      if rd_u64le h8 = 0 \<or> of_nat GWL_PAYLOAD_MAX < rd_u64le h8 then P_fail
      else case read_full [] f (unat (rd_u64le h8)) of
        None \<Rightarrow> P_torn
      | Some (payload, f) \<Rightarrow>
      case read_full [] f 32 of
        None \<Rightarrow> P_torn
      | Some (stored, f) \<Rightarrow> P_frame tag payload stored f)"
proof -
  have "h4 \<noteq> []" "length h4 = 4" "take 4 (h4 @ f) = h4" "drop 4 (h4 @ f) = f" unfolding assms(2) by (auto simp: wr_u32le_def)
  then show ?thesis
    unfolding parse_frame_def read_exact_4 Let_def drop_Nil
    using entry_lengths(1-3) [OF assms(1)] by (simp add: assms(2) rd_wr_u32le)
qed

lemma parse_frame_complete:
  assumes "entry_ok (tag, payload)" "length stored = 32"
  shows "parse_frame [] (wr_u32le (of_nat (length tag)) @ tag @ wr_u64le (of_nat (length payload)) @ payload @ stored @ r) =
    P_frame tag payload stored r"
  unfolding parse_frame_header [OF assms(1) refl]
  using entry_lengths(4-6) [OF assms(1)] assms(2) by (simp add: read_full_append rd_wr_u64le)

lemma parse_frame_entry:
  assumes "commit_32 A" "entry_ok e"
  shows "parse_frame [] (frame A e @ r) = P_frame (fst e) (snd e) (evidence_commit A (c_str (fst e)) (snd e)) r"
  using parse_frame_complete [of "fst e" "snd e" "evidence_commit A (c_str (fst e)) (snd e)" r] assms length_commit [OF assms(1)]
  by (cases e) (simp add: frame_eq)

lemma parse_frame_torn:
  assumes "entry_ok (tag, payload)" "length stored = 32" "t \<noteq> []" "u \<noteq> []"
    "t @ u = wr_u32le (of_nat (length tag)) @ tag @ wr_u64le (of_nat (length payload)) @ payload @ stored"
  shows "parse_frame [] t = P_torn"
proof (cases "length t < 4")
  case True
  with assms(3) show ?thesis by (simp add: parse_frame_def read_exact_4)
next
  case False
  let ?h4 = "wr_u32le (of_nat (length tag))" and ?h8 = "wr_u64le (of_nat (length payload))"
  obtain t1 where t1: "t = ?h4 @ t1" "t1 @ u = tag @ ?h8 @ payload @ stored"
    using prefix_split [OF assms(5)] False by auto
  show ?thesis
  proof (cases "length t1 < length tag")
    case True
    then show ?thesis unfolding t1(1) parse_frame_header [OF assms(1) refl] by (simp add: read_full_ok)
  next
    case f1: False
    obtain t2 where t2: "t1 = tag @ t2" "t2 @ u = ?h8 @ payload @ stored"
      using prefix_split [OF t1(2)] f1 by auto
    show ?thesis
    proof (cases "length t2 < 8")
      case True
      then show ?thesis unfolding t1(1) t2(1) parse_frame_header [OF assms(1) refl] by (simp add: read_full_ok)
    next
      case f2: False
      obtain t3 where t3: "t2 = ?h8 @ t3" "t3 @ u = payload @ stored"
        using prefix_split [OF t2(2)] f2 by auto
      have "length t3 < length payload + 32" using t3(2) assms(2,4) by (metis length_append length_greater_0_conv less_add_same_cancel1)
      then show ?thesis
        unfolding t1(1) t2(1) t3(1) parse_frame_header [OF assms(1) refl]
        using entry_lengths(4-6) [OF assms(1)] by (simp add: read_full_ok rd_wr_u64le) linarith
    qed
  qed
qed

section \<open>Replay\<close>

definition last_payload :: "byte list \<Rightarrow> (byte list \<times> byte list) list \<Rightarrow> byte list" where
  "last_payload p es = (if es = [] then p else snd (last es))"

definition frames :: "('ct, 'led) audit \<Rightarrow> (byte list \<times> byte list) list \<Rightarrow> byte list" where
  "frames A es = concat (map (frame A) es)"

lemma frames_simps [simp]: "frames A [] = []" "frames A (e # es) = frame A e @ frames A es"
  "frames A (es @ es') = frames A es @ frames A es'"
  by (simp_all add: frames_def)

lemma replay_frame:
  assumes "commit_32 A" "entry_ok e" "commit_ok A (c_str (fst e)) (snd e)"
    "chain_ok A ctx (evidence_commit A (c_str (fst e)) (snd e))"
  shows "replay_loop A [] [] ctx lastp g (frame A e @ t) =
    replay_loop A [] [] (chain A ctx (evidence_commit A (c_str (fst e)) (snd e))) (snd e) (g + length (frame A e)) t"
proof -
  obtain tag payload where e: "e = (tag, payload)" by (cases e)
  have "parse_frame [] (frame A e @ t) = P_frame tag payload (evidence_commit A (c_str tag) payload) t"
    unfolding e frame_eq append_assoc
    using assms(2) length_commit [OF assms(1)] by (intro parse_frame_complete) (simp_all add: e)
  then show ?thesis
    unfolding replay_loop.simps [of A "[]" "[]" ctx lastp g "frame A e @ t"]
    using assms(3,4) by (simp add: check_frame_eq e Let_def)
qed

lemma replay_frames:
  assumes "commit_32 A" "\<forall>e\<in>set es. entry_ok e" "chain_of A ctx es = Some ctx'"
  shows "replay_loop A [] [] ctx lastp g (frames A es @ t) =
    replay_loop A [] [] ctx' (last_payload lastp es) (g + length (frames A es)) t"
  using assms(2,3)
proof (induction es arbitrary: ctx lastp g)
  case Nil
  then show ?case by (simp add: last_payload_def)
next
  case (Cons e es)
  let ?c = "evidence_commit A (c_str (fst e)) (snd e)"
  have e: "entry_ok e" "commit_ok A (c_str (fst e)) (snd e)" "chain_ok A ctx ?c" "chain_of A (chain A ctx ?c) es = Some ctx'"
    using Cons.prems by (auto simp: Let_def split: if_splits)
  have "last_payload (snd e) es = last_payload lastp (e # es)" by (simp add: last_payload_def)
  with Cons.IH [OF _ e(4), of "snd e" "g + length (frame A e)"] Cons.prems(1) replay_frame [OF assms(1) e(1-3), of lastp g "frames A es @ t"]
  show ?case by (simp add: add.assoc)
qed

lemma replay_sound:
  assumes "replay_loop A errs sk ctx lastp g f = (x, ctx', lp, g')" "x \<noteq> Failed"
  shows "\<exists>es t. f = frames A es @ t \<and> (\<forall>e\<in>set es. entry_ok e) \<and> chain_of A ctx es = Some ctx' \<and>
    lp = last_payload lastp es \<and> g' = g + length (frames A es) \<and> (x = Clean \<longrightarrow> t = [])"
  using assms
proof (induction A errs sk ctx lastp g f rule: replay_loop.induct)
  case (1 A errs sk ctx lastp g f)
  note unf = replay_loop.simps [of A errs sk ctx lastp g f]
  show ?case
  proof (cases "parse_frame errs f")
    case P_eof
    then have "f = []"
      by (auto simp: parse_frame_def read_exact_def Let_def split: option.splits list.splits if_splits prod.splits)
    with P_eof "1.prems" [unfolded unf] show ?thesis by (intro exI [of _ "[]"]) (simp add: last_payload_def)
  next
    case P_fail
    with "1.prems" show ?thesis by (simp add: unf)
  next
    case P_torn
    with "1.prems" show ?thesis by (intro exI [of _ "[]"] exI [of _ f]) (simp add: unf last_payload_def)
  next
    case (P_frame tag payload stored r)
    let ?c = "evidence_commit A (c_str tag) payload"
    note p = parse_frame_sound [OF P_frame]
    from "1.prems" P_frame have ok: "commit_ok A (c_str tag) payload" "stored = ?c" "chain_ok A ctx ?c" "\<not> (sk \<noteq> [] \<and> \<not> hd sk)"
      and rest: "replay_loop A (drop 5 errs) (drop 1 sk) (chain A ctx ?c) payload (g + (length f - length r)) r = (x, ctx', lp, g')"
      by (auto simp: unf check_frame_eq Let_def split: if_splits)
    have f: "f = frame A (tag, payload) @ r" using p(1) ok(2) by (simp add: frame_eq)
    have "check_frame A ctx tag payload stored = (True, chain A ctx ?c)" using ok by (simp add: check_frame_eq Let_def)
    from "1.IH" [OF P_frame this [symmetric] _ _ rest "1.prems"(2)] ok(4)
    obtain es t where es: "r = frames A es @ t" "\<forall>e\<in>set es. entry_ok e" "chain_of A (chain A ctx ?c) es = Some ctx'"
      "lp = last_payload payload es" "g' = g + (length f - length r) + length (frames A es)" "x = Clean \<longrightarrow> t = []"
      by auto
    have "f = frames A ((tag, payload) # es) @ t \<and> (\<forall>e\<in>set ((tag, payload) # es). entry_ok e) \<and>
      chain_of A ctx ((tag, payload) # es) = Some ctx' \<and> lp = last_payload lastp ((tag, payload) # es) \<and>
      g' = g + length (frames A ((tag, payload) # es)) \<and> (x = Clean \<longrightarrow> t = [])"
      using f es p(2) ok by (simp add: last_payload_def)
    then show ?thesis by blast
  qed
qed

text \<open>
  Failed reads: without one, and also whenever the end of the file is reached cleanly, the loop does
  what it does on a disk without faults.
\<close>

definition reads_ok :: "open_env \<Rightarrow> bool" where
  "reads_ok env \<longleftrightarrow> True \<notin> set (oe_read_errs env)"

lemma parse_frame_errs:
  assumes "True \<notin> set errs"
  shows "parse_frame errs f = parse_frame [] f"
proof -
  have e: "read_exact xs = read_exact []" if "True \<notin> set xs" for xs
    using that by (cases xs) (auto simp: read_exact_def fun_eq_iff)
  have "True \<notin> set (drop k errs)" for k using assms by (meson in_set_dropD)
  from e [OF this] have f: "read_full (drop k errs) = read_full []" for k by (simp add: read_full_def fun_eq_iff)
  show ?thesis unfolding parse_frame_def e [OF assms] f by (simp only: drop_Nil)
qed

text \<open>A pass that finds the end of the file or a frame met no failed read.\<close>

lemma parse_frame_reads:
  assumes "parse_frame errs f = q" "q = P_eof \<or> (\<exists>t p c r. q = P_frame t p c r)"
  shows "parse_frame [] f = q"
  using assms(2)
proof (elim disjE exE)
  assume "q = P_eof"
  moreover from this assms(1) have "f = []"
    by (auto simp: parse_frame_def read_exact_def Let_def split: option.splits list.splits if_splits prod.splits)
  ultimately show ?thesis by (simp add: parse_frame_def read_exact_4)
next
  fix t p c r
  assume "q = P_frame t p c r"
  with parse_frame_sound [of errs f t p c r] parse_frame_complete [of t p c r] assms(1) show ?thesis by simp
qed

lemma replay_calm:
  assumes "replay_loop A errs sk ctx lastp g f = (x, y)" "x = Clean \<or> x = Torn \<and> True \<notin> set errs"
  shows "replay_loop A [] [] ctx lastp g f = (x, y)"
  using assms
proof (induction A errs sk ctx lastp g f rule: replay_loop.induct)
  case (1 A errs sk ctx lastp g f)
  note unf = replay_loop.simps [of A errs sk ctx lastp g f] replay_loop.simps [of A "[]" "[]" ctx lastp g f]
  show ?case
  proof (cases "parse_frame errs f")
    case (P_frame tag payload stored r)
    obtain ok ctx' where c: "check_frame A ctx tag payload stored = (ok, ctx')" by (cases "check_frame A ctx tag payload stored")
    have ok: ok "\<not> (sk \<noteq> [] \<and> \<not> hd sk)" and rest: "replay_loop A (drop 5 errs) (drop 1 sk) ctx' payload (g + (length f - length r)) r = (x, y)"
      using "1.prems" P_frame c by (auto simp: unf(1) split: if_splits)
    have "x = Clean \<or> x = Torn \<and> True \<notin> set (drop 5 errs)" using "1.prems"(2) by (meson in_set_dropD)
    from "1.IH" [OF P_frame c [symmetric] _ _ rest this] ok have "replay_loop A [] [] ctx' payload (g + (length f - length r)) r = (x, y)" by simp
    with parse_frame_reads [OF P_frame] c ok show ?thesis by (simp add: unf(2))
  next
    case P_eof
    with "1.prems" parse_frame_reads [OF P_eof] show ?thesis by (simp add: unf)
  next
    case P_torn
    with "1.prems" parse_frame_errs [of errs f] show ?thesis by (auto simp: unf)
  qed (use "1.prems" in \<open>simp add: unf\<close>)
qed

section \<open>Writing\<close>

lemma write_all_result:
  "write_all os f b = (ok, f', os') \<Longrightarrow> (if ok then f' = f @ b else \<exists>t u. b = t @ u \<and> u \<noteq> [] \<and> f' = f @ t)"
proof (induction os f b arbitrary: ok f' os' rule: write_all.induct)
  case (3 w os f b bs)
  show ?case
  proof (cases "w < 0")
    case True
    with "3.prems" show ?thesis by auto
  next
    case False
    with "3.prems" have "write_all os (f @ take (nat w) (b # bs)) (drop (nat w) (b # bs)) = (ok, f', os')" by simp
    note IH = "3.IH" [OF False this]
    have split: "take (nat w) (b # bs) @ drop (nat w) (b # bs) = b # bs" by (rule append_take_drop_id)
    show ?thesis
    proof (cases ok)
      case True
      with IH split show ?thesis by (metis append.assoc)
    next
      case False
      with IH obtain t u where tu: "drop (nat w) (b # bs) = t @ u" "u \<noteq> []" "f' = (f @ take (nat w) (b # bs)) @ t" by auto
      then have "b # bs = (take (nat w) (b # bs) @ t) @ u" using split by (metis append.assoc)
      with tu False show ?thesis by (metis append.assoc)
    qed
  qed
qed auto

lemma write_parts_result:
  "write_parts os f ps = (ok, f') \<Longrightarrow>
    (if ok then f' = f @ concat ps else \<exists>t u. concat ps = t @ u \<and> u \<noteq> [] \<and> f' = f @ t)"
proof (induction ps arbitrary: os f)
  case (Cons p ps)
  obtain k g os' where w: "write_all os f p = (k, g, os')" by (cases "write_all os f p") auto
  note r = write_all_result [OF w]
  show ?case
  proof (cases k)
    case True
    with Cons.prems w have "write_parts os' g ps = (ok, f')" by simp
    from Cons.IH [OF this] r True show ?thesis
      by (auto simp: append_assoc)
  next
    case False
    with Cons.prems w r obtain t u where "p = t @ u" "u \<noteq> []" "f' = f @ t" "\<not> ok" by auto
    then show ?thesis by (intro if_not_P [THEN iffD2]) (auto intro!: exI [of _ t] exI [of _ "u @ concat ps"])
  qed
qed simp

section \<open>Appending\<close>

definition mirrored :: "append_env \<Rightarrow> byte list list \<Rightarrow> 'led gw_ledger \<Rightarrow> 'led gw_ledger" where
  "mirrored env parts st =
     (let (eok, efile) = write_parts (ae_export_writes env) (g_export_file st) parts in
      if g_export_fd st then st\<lparr>g_export_file := efile, g_export_fd := eok\<rparr> else st)"

lemma mirrored_simps [simp]:
  "g_fd (mirrored env ps st) = g_fd st" "g_file (mirrored env ps st) = g_file st"
  "g_ctx (mirrored env ps st) = g_ctx st" "g_last_payload (mirrored env ps st) = g_last_payload st"
  by (simp_all add: mirrored_def split_beta)

lemma append_eq:
  fixes A :: "('ct, 'led) audit" and tag payload :: "byte list"
  assumes "g_fd st"
  defines "c \<equiv> evidence_commit A (c_str tag) payload"
  defines "parts \<equiv> frame_parts (c_str tag) payload c"
  shows "gwl_append A env (Some tag) (Some payload) st =
    (if \<not> entry_ok (c_str tag, payload) \<or> \<not> commit_ok A (c_str tag) payload then ((-1, None), st)
     else let (ok, file) = write_parts (ae_writes env) (g_file st) parts; st1 = st\<lparr>g_file := file\<rparr> in
     if \<not> ok \<or> \<not> ae_fsync_ok env then ((-1, None), st1)
     else let st2 = (mirrored env parts st1)\<lparr>g_ctx := chain A (g_ctx st) c\<rparr> in
     if \<not> chain_ok A (g_ctx st) c then ((-1, None), st2)
     else ((0, Some (current_hash A (chain A (g_ctx st) c), led_sequence A (chain A (g_ctx st) c))),
           st2\<lparr>g_last_payload := payload\<rparr>))"
proof -
  have ctx: "g_ctx (mirrored env ps (st\<lparr>g_file := f\<rparr>)) = g_ctx st" for ps f
    by (simp add: mirrored_def split_beta)
  have e: "entry_ok (c_str tag, payload) \<longleftrightarrow>
      \<not> (c_str tag = [] \<or> GWL_TAG_MAX < length (c_str tag)) \<and> \<not> (payload = [] \<or> GWL_PAYLOAD_MAX < length payload)"
    by (auto simp: entry_ok_def)
  obtain ok fl where w: "write_parts (ae_writes env) (g_file st) parts = (ok, fl)"
    by (cases "write_parts (ae_writes env) (g_file st) parts")
  show ?thesis
    using assms(1) w ctx
    unfolding gwl_append_def e parts_def c_def Let_def
    by (auto simp: evidence_commit_def commit_ok_def chain_def chain_ok_def mirrored_def split_beta Let_def)
qed

text \<open>
  What an append attempt does to the file: nothing, the whole frame, or a part
  of it; it reports success only for the whole frame.
\<close>

lemma append_file:
  assumes "gwl_append A env (Some tag) (Some payload) st = ((rc, out), st')" "g_fd st"
  shows "\<exists>t u. frame A (c_str tag, payload) = t @ u \<and> g_file st' = g_file st @ t \<and> (rc = 0 \<longrightarrow> u = []) \<and>
      (t \<noteq> [] \<longrightarrow> entry_ok (c_str tag, payload) \<and> commit_ok A (c_str tag) payload)"
proof -
  let ?parts = "frame_parts (c_str tag) payload (evidence_commit A (c_str tag) payload)"
  obtain ok fl where w: "write_parts (ae_writes env) (g_file st) ?parts = (ok, fl)"
    by (cases "write_parts (ae_writes env) (g_file st) ?parts")
  have fr: "frame A (c_str tag, payload) = concat ?parts" by (simp add: frame_def)
  show ?thesis
  proof (cases "entry_ok (c_str tag, payload) \<and> commit_ok A (c_str tag) payload")
    case False
    with assms(1) show ?thesis unfolding append_eq [OF assms(2)] by auto
  next
    case True
    then have st': "g_file st' = fl" and ok: "rc = 0 \<longrightarrow> ok"
      using assms(1) w unfolding append_eq [OF assms(2)] by (auto simp: Let_def split: if_splits)
    show ?thesis
      using write_parts_result [OF w] True ok unfolding fr st' by (cases ok) auto
  qed
qed

lemma append_success:
  assumes "gwl_append A env (Some tag) (Some payload) st = ((0, out), st')" "g_fd st"
  shows "entry_ok (c_str tag, payload)" "commit_ok A (c_str tag) payload"
    "chain_ok A (g_ctx st) (evidence_commit A (c_str tag) payload)"
    "g_ctx st' = chain A (g_ctx st) (evidence_commit A (c_str tag) payload)" "g_last_payload st' = payload"
    "out = Some (gwl_head A st', gwl_seq A st')" "g_fd st'"
  using assms unfolding append_eq [OF assms(2)]
  by (auto simp: gwl_head_def gwl_seq_def Let_def split: if_splits prod.splits)

section \<open>The evidence file as a list of entries\<close>

definition genesis :: "('ct, 'led) audit \<Rightarrow> 'led" where
  "genesis A = fst (ax_ledger_genesis A (cf_init A))"

definition genesis_ok :: "('ct, 'led) audit \<Rightarrow> bool" where
  "genesis_ok A \<longleftrightarrow> cf_any A (snd (ax_ledger_genesis A (cf_init A))) = 0"

text \<open>
  The invariant of a running gateway: the file is the encoding of its entries,
  the chain state is theirs, and an active export is a copy of the file.
\<close>

definition ledger_inv :: "('ct, 'led) audit \<Rightarrow> (byte list \<times> byte list) list \<Rightarrow> 'led gw_ledger \<Rightarrow> bool" where
  "ledger_inv A es st \<longleftrightarrow>
     g_fd st \<and> g_file st = frames A es \<and> (\<forall>e\<in>set es. entry_ok e) \<and>
     chain_of A (genesis A) es = Some (g_ctx st) \<and> (g_export_fd st \<longrightarrow> g_export_file st = g_file st)"

lemma chain_of_append:
  "chain_of A ctx (es @ es') = chain_of A ctx es \<bind> (\<lambda>c. chain_of A c es')"
  by (induction es arbitrary: ctx) (simp_all add: Let_def)

lemma open_establishes:
  assumes "gwl_open A env f torn st = (0, tr, st')" "\<not> g_export_fd st"
  shows "\<exists>es t. f = frames A es @ t \<and> ledger_inv A es st' \<and> (\<not> tr \<longrightarrow> t = [])"
proof -
  obtain ctx cf where g: "ax_ledger_genesis A (cf_init A) = (ctx, cf)" by (cases "ax_ledger_genesis A (cf_init A)")
  obtain x ctx' lp ge where r: "replay_loop A (oe_read_errs env) (oe_seeks env) ctx (g_last_payload st) 0 f = (x, ctx', lp, ge)"
    by (cases "replay_loop A (oe_read_errs env) (oe_seeks env) ctx (g_last_payload st) 0 f")
  have x: "x \<noteq> Failed" and fd: "g_fd st'" "g_ctx st' = ctx'" "g_export_fd st' = g_export_fd st"
    and fl: "g_file st' = (if x = Clean then f else take ge f)" and tr: "tr = (x = Torn)"
    using assms(1) g r by (auto simp: gwl_open_def Let_def split: if_splits loop_exit.splits)
  obtain es t where es: "f = frames A es @ t" "\<forall>e\<in>set es. entry_ok e" "chain_of A ctx es = Some ctx'"
    "ge = length (frames A es)" "x = Clean \<longrightarrow> t = []"
    using replay_sound [OF r x] by auto
  have "ledger_inv A es st'"
    using es fd fl assms(2) g x by (cases x) (auto simp: ledger_inv_def genesis_def)
  moreover have "\<not> tr \<longrightarrow> t = []" using tr x es(5) by (cases x) auto
  ultimately show ?thesis using es(1) by blast
qed

text \<open>Nothing goes wrong in the operating system.\<close>

definition calm :: "open_env \<Rightarrow> bool" where
  "calm env \<longleftrightarrow> oe_open_ok env \<and> oe_read_errs env = [] \<and> oe_seeks env = [] \<and> oe_end_ok env \<and> oe_trunc_ok env"

lemma reopen:
  fixes st :: "'led gw_ledger"
  assumes "commit_32 A" "genesis_ok A" "calm env" "\<forall>e\<in>set es. entry_ok e" "chain_of A (genesis A) es = Some ctx"
    and "t = [] \<or> entry_ok e" "t @ u = frame A e" "u \<noteq> []"
  defines "st' \<equiv> st\<lparr>g_ctx := ctx, g_last_payload := last_payload (g_last_payload st) es, g_file := frames A es, g_fd := True\<rparr>"
  shows "gwl_open A env (frames A es @ t) True st = (0, t \<noteq> [], st')"
    and "t \<noteq> [] \<Longrightarrow> fst (gwl_open A env (frames A es @ t) False st) = -1"
proof -
  obtain cf where g: "ax_ledger_genesis A (cf_init A) = (genesis A, cf)"
    by (cases "ax_ledger_genesis A (cf_init A)") (simp add: genesis_def)
  obtain tag payload where e: "e = (tag, payload)" by (cases e)
  have "parse_frame [] t = (if t = [] then P_eof else P_torn)"
  proof (cases "t = []")
    case True
    then show ?thesis by (simp add: parse_frame_def read_exact_4)
  next
    case False
    with assms(6,7) e length_commit [OF assms(1)] show ?thesis
      by (auto intro: parse_frame_torn [OF _ _ _ assms(8)] simp: frame_eq)
  qed
  then have loop: "replay_loop A [] [] (genesis A) (g_last_payload st) 0 (frames A es @ t) =
      (if t = [] then Clean else Torn, ctx, last_payload (g_last_payload st) es, length (frames A es))"
    unfolding replay_frames [OF assms(1,4,5)] by (subst replay_loop.simps) simp
  show "gwl_open A env (frames A es @ t) True st = (0, t \<noteq> [], st')"
    using assms(2,3) loop by (simp add: gwl_open_def g genesis_ok_def calm_def st'_def Let_def)
  show "fst (gwl_open A env (frames A es @ t) False st) = -1" if "t \<noteq> []"
    using assms(2,3) loop that by (simp add: gwl_open_def g genesis_ok_def calm_def Let_def)
qed

text \<open>What an append does to the export.\<close>

lemma append_export:
  assumes "ledger_inv A es st" "gwl_append A env (Some tag) (Some payload) st = ((rc, out), st')"
  shows "(g_export_fd st' \<longrightarrow> g_export_fd st \<and> (g_export_file st' = g_file st' \<or> rc \<noteq> 0 \<and> g_export_file st' = g_file st)) \<and>
    (\<not> g_export_fd st \<longrightarrow> g_export_file st' = g_export_file st)"
proof -
  have fd: "g_fd st" and copy: "g_export_fd st \<Longrightarrow> g_export_file st = g_file st" using assms(1) by (auto simp: ledger_inv_def)
  let ?parts = "frame_parts (c_str tag) payload (evidence_commit A (c_str tag) payload)"
  obtain ok fl where w: "write_parts (ae_writes env) (g_file st) ?parts = (ok, fl)"
    by (cases "write_parts (ae_writes env) (g_file st) ?parts")
  obtain eok efl where x: "write_parts (ae_export_writes env) (g_export_file st) ?parts = (eok, efl)"
    by (cases "write_parts (ae_export_writes env) (g_export_file st) ?parts")
  have "efl = fl" if "g_export_fd st" ok eok
    using write_parts_result [OF w] write_parts_result [OF x] that copy by simp
  with assms(2) w x copy show ?thesis
    unfolding append_eq [OF fd] by (auto simp: mirrored_def Let_def split: if_splits)
qed

lemma append_maintains:
  assumes "ledger_inv A es st" "gwl_append A env (Some tag) (Some payload) st = ((0, out), st')"
  shows "ledger_inv A (es @ [(c_str tag, payload)]) st'"
proof -
  have fd: "g_fd st" using assms(1) by (simp add: ledger_inv_def)
  note ok = append_success [OF assms(2) fd]
  obtain t where "frame A (c_str tag, payload) = t" "g_file st' = g_file st @ t"
    using append_file [OF assms(2) fd] by auto
  then have fl: "g_file st' = frames A (es @ [(c_str tag, payload)])"
    using assms(1) by (simp add: ledger_inv_def)
  have ex: "g_export_file st' = g_file st'" if "g_export_fd st'" using append_export [OF assms] that by simp
  from ok fl ex assms(1) show ?thesis by (auto simp: ledger_inv_def chain_of_append Let_def)
qed

section \<open>Crashes and restarts\<close>

text \<open>
  The life of an evidence file: appends that succeed, appends that fail at any
  point, crashes, restarts that succeed and restarts that are refused.  The first component collects the
  entries whose append reported success in a process none of whose appends had failed before.  After a failed
  append the process is \<open>Failing\<close>: \<open>gw_ledger.c\<close> does not remember it, so more appends may follow,
  which write behind a part of a frame and are not collected.  A stopped gateway is what is left on the disk.

  A restart that cuts the file must not have met a failed read; \<open>read_error_truncates\<close> below shows what
  happens otherwise.  All other results of system calls are arbitrary.
\<close>

datatype 'led gw_run = Running "'led gw_ledger" | Failing "'led gw_ledger" | Stopped "byte list"

inductive gw_step ::
    "('ct, 'led) audit \<Rightarrow> (byte list \<times> byte list) list \<times> 'led gw_run \<Rightarrow>
     (byte list \<times> byte list) list \<times> 'led gw_run \<Rightarrow> bool"
  for A :: "('ct, 'led) audit" where
  append_ok: "gwl_append A env (Some tag) (Some payload) st = ((0, out), st') \<Longrightarrow>
    gw_step A (acks, Running st) (acks @ [(c_str tag, payload)], Running st')"
| append_fails: "gwl_append A env (Some tag) (Some payload) st = ((-1, out), st') \<Longrightarrow>
    gw_step A (acks, Running st) (acks, Failing st')"
| append_after: "gwl_append A env (Some tag) (Some payload) st = ((rc, out), st') \<Longrightarrow>
    gw_step A (acks, Failing st) (acks, Failing st')"
| crash: "gw_step A (acks, Running st) (acks, Stopped (g_file st))"
| crash_after: "gw_step A (acks, Failing st) (acks, Stopped (g_file st))"
| export: "gwl_export_enable env path st = (rc, st') \<Longrightarrow> gw_step A (acks, Running st) (acks, Running st')"
| export_after: "gwl_export_enable env path st = (rc, st') \<Longrightarrow> gw_step A (acks, Failing st) (acks, Failing st')"
| restart: "gwl_open A env f torn_tail_ok st = (0, truncated, st') \<Longrightarrow> (truncated \<longrightarrow> reads_ok env) \<Longrightarrow> \<not> g_export_fd st \<Longrightarrow>
    gw_step A (acks, Stopped f) (acks, Running st')"
| restart_refused: "gwl_open A env f torn_tail_ok st = (-1, truncated, st') \<Longrightarrow> (truncated \<longrightarrow> reads_ok env) \<Longrightarrow> g_file st = f \<Longrightarrow>
    gw_step A (acks, Stopped f) (acks, Stopped (g_file st'))"

text \<open>What is on the disk: the entries, and possibly part or all of one more frame.\<close>

definition on_disk :: "('ct, 'led) audit \<Rightarrow> (byte list \<times> byte list) list \<Rightarrow> byte list \<Rightarrow> bool" where
  "on_disk A es f \<longleftrightarrow> (\<forall>e\<in>set es. entry_ok e) \<and> chain_of A (genesis A) es \<noteq> None \<and>
     (\<exists>e t u. f = frames A es @ t \<and> t @ u = frame A e \<and>
        (t = [] \<or> entry_ok e \<and> commit_ok A (c_str (fst e)) (snd e)))"

text \<open>A file that begins with the frames of the entries, whatever follows them.\<close>

definition begins :: "('ct, 'led) audit \<Rightarrow> (byte list \<times> byte list) list \<Rightarrow> byte list \<Rightarrow> bool" where
  "begins A es f \<longleftrightarrow> (\<forall>e\<in>set es. entry_ok e) \<and> chain_of A (genesis A) es \<noteq> None \<and> prefix (frames A es) f"

lemma on_disk_begins: "on_disk A es f \<Longrightarrow> begins A es f"
  by (auto simp: on_disk_def begins_def)

lemma begins_whole: "begins A es f \<Longrightarrow> f = frames A es \<Longrightarrow> on_disk A es f"
  by (auto simp: on_disk_def begins_def intro!: exI [of _ "[]"])

lemma begins_append: "begins A es f \<Longrightarrow> begins A es (f @ t)"
  by (auto simp: begins_def)

text \<open>
  A store that survives crashes: along its steps the entries it holds only grow, and what is
  acknowledged by a step is among the entries that step adds.
\<close>

locale crash_safe =
  fixes step :: "'e list \<times> 'x \<Rightarrow> 'e list \<times> 'x \<Rightarrow> bool" and holds :: "'e list \<Rightarrow> 'x \<Rightarrow> bool"
  assumes step_grows: "step (acks, x) (acks', x') \<Longrightarrow> holds es x \<Longrightarrow>
      \<exists>new more. acks' = acks @ new \<and> holds (es @ more) x' \<and> subseq new more"
begin

lemma run_grows:
  assumes "step\<^sup>*\<^sup>* (acks, x) (acks', x')" "holds es x" "subseq acks es"
  shows "\<exists>more. holds (es @ more) x' \<and> subseq acks' (es @ more)"
  using assms(1)
proof (induction "(acks', x')" arbitrary: acks' x' rule: rtranclp_induct)
  case base
  with assms(2,3) show ?case by (intro exI [of _ "[]"]) simp
next
  case (step y)
  obtain b z where y: "y = (b, z)" by (cases y)
  from step.hyps(3) [OF y] obtain more where m: "holds (es @ more) z" "subseq b (es @ more)" by blast
  from step_grows [OF step.hyps(2) [unfolded y] m(1)] obtain new more' where
    n: "acks' = b @ new" "holds ((es @ more) @ more') x'" "subseq new more'" by blast
  from list_emb_append_mono [OF m(2) n(3)] n show ?case by (intro exI [of _ "more @ more'"]) simp
qed

lemma acknowledged_held:
  assumes "step\<^sup>*\<^sup>* ([], x) (acks, x')" "holds [] x"
  shows "\<exists>es. holds es x' \<and> subseq acks es"
  using run_grows [OF assms] by auto

end

fun gw_holds :: "('ct, 'led) audit \<Rightarrow> (byte list \<times> byte list) list \<Rightarrow> 'led gw_run \<Rightarrow> bool" where
  "gw_holds A es (Running st) = (commit_32 A \<and> ledger_inv A es st)"
| "gw_holds A es (Failing st) = (commit_32 A \<and> begins A es (g_file st))"
| "gw_holds A es (Stopped f) = (commit_32 A \<and> begins A es f)"

lemma inv_on_disk: "ledger_inv A es l \<Longrightarrow> on_disk A es (g_file l)"
  unfolding on_disk_def ledger_inv_def
  by (elim conjE, intro conjI exI [of _ "[]"] exI [of _ "frame A ([], [])"] exI [of _ "([], [])"]) simp_all

lemma frame_nonempty: "frame A e \<noteq> []"
proof -
  obtain tag payload where "e = (tag, payload)" by (cases e)
  then show ?thesis by (simp add: frame_eq wr_u32le_def)
qed

lemma copy_loop_result: "copy_loop rs os ex f = (True, ex') \<Longrightarrow> ex' = ex @ f"
proof (induction rs os ex f rule: copy_loop.induct)
  case (1 rs os ex f)
  let ?r = "case rs of r # _ \<Rightarrow> min (nat r) copy_chunk | [] \<Rightarrow> copy_chunk"
  show ?case
  proof (cases "f = []")
    case True
    with "1.prems" show ?thesis by (simp add: copy_loop.simps)
  next
    case False
    obtain ok ex1 os1 where w: "write_all os ex (take ?r f) = (ok, ex1, os1)" by (cases "write_all os ex (take ?r f)") auto
    from "1.prems" False w have r: "?r \<noteq> 0" ok "copy_loop (drop 1 rs) os1 ex1 (drop ?r f) = (True, ex')"
      by (auto simp: copy_loop.simps [of rs os ex f] Let_def split: if_splits)
    have "ex' = ex1 @ drop ?r f" by (rule "1.IH" [OF False refl r(1) w [symmetric] refl r(2) r(3)])
    with write_all_result [OF w] r(2) show ?thesis by simp
  qed
qed

lemma export_maintains:
  assumes "ledger_inv A es st" "gwl_export_enable env path st = (rc, st')"
  shows "ledger_inv A es st'" "rc = 0 \<Longrightarrow> gwl_export_active st' \<and> g_export_file st' = g_file st'"
proof -
  obtain ok ex where c: "copy_loop (ee_reads env) (ee_writes env) [] (g_file st) = (ok, ex)"
    by (cases "copy_loop (ee_reads env) (ee_writes env) [] (g_file st)")
  have ex: "ex = g_file st" if ok using copy_loop_result [of _ _ "[]" "g_file st" ex] c that by simp
  show "ledger_inv A es st'"
    using assms c ex by (auto simp: gwl_export_enable_def ledger_inv_def Let_def split: if_splits)
  show "gwl_export_active st' \<and> g_export_file st' = g_file st'" if "rc = 0"
    using assms c ex that by (auto simp: gwl_export_enable_def gwl_export_active_def Let_def split: if_splits)
qed

lemma append_on_disk:
  assumes "ledger_inv A es st" "gwl_append A env (Some tag) (Some payload) st = ((rc, out), st')"
  shows "on_disk A es (g_file st')"
proof -
  have fd: "g_fd st" using assms(1) by (simp add: ledger_inv_def)
  obtain t u where "frame A (c_str tag, payload) = t @ u" "g_file st' = g_file st @ t"
    "t \<noteq> [] \<longrightarrow> entry_ok (c_str tag, payload) \<and> commit_ok A (c_str tag) payload"
    using append_file [OF assms(2) fd] by auto
  then have "\<exists>e t u. g_file st' = frames A es @ t \<and> t @ u = frame A e \<and>
        (t = [] \<or> entry_ok e \<and> commit_ok A (c_str (fst e)) (snd e))"
    using assms(1) by (intro exI [of _ "(c_str tag, payload)"] exI [of _ t] exI [of _ u]) (auto simp: ledger_inv_def)
  with assms(1) show ?thesis unfolding on_disk_def ledger_inv_def by auto
qed

text \<open>
  Opening a file that begins with the entries: they are there afterwards, in memory and in the file.
\<close>

lemma open_begins:
  assumes "commit_32 A" "begins A es f" "gwl_open A env f torn st = (rc, tr, st')" "tr \<longrightarrow> reads_ok env"
  shows "rc = 0 \<Longrightarrow> \<not> g_export_fd st \<Longrightarrow>
      \<exists>more. ledger_inv A (es @ more) st' \<and> g_last_payload st' = last_payload (g_last_payload st) (es @ more)"
    and "rc \<noteq> 0 \<Longrightarrow> g_file st = f \<Longrightarrow> g_file st' = f \<or> (\<exists>more. begins A (es @ more) (g_file st') \<and> g_file st' = frames A (es @ more))"
proof -
  obtain c0 t where es: "\<forall>e\<in>set es. entry_ok e" "chain_of A (genesis A) es = Some c0" "f = frames A es @ t"
    using assms(2) by (auto simp: begins_def prefix_def)
  obtain cf where g: "ax_ledger_genesis A (cf_init A) = (genesis A, cf)"
    by (cases "ax_ledger_genesis A (cf_init A)") (simp add: genesis_def)
  obtain x ctx lp ge where l: "replay_loop A (oe_read_errs env) (oe_seeks env) (genesis A) (g_last_payload st) 0 f = (x, ctx, lp, ge)"
    by (cases "replay_loop A (oe_read_errs env) (oe_seeks env) (genesis A) (g_last_payload st) 0 f")
  have replayed: "\<exists>more. (\<forall>e\<in>set (es @ more). entry_ok e) \<and> chain_of A (genesis A) (es @ more) = Some ctx \<and>
      lp = last_payload (g_last_payload st) (es @ more) \<and> take ge f = frames A (es @ more) \<and> (x = Clean \<longrightarrow> f = frames A (es @ more))"
    if "x = Clean \<or> x = Torn \<and> reads_ok env"
  proof -
    have "replay_loop A [] [] (genesis A) (g_last_payload st) 0 f = (x, ctx, lp, ge)"
      using replay_calm [OF l] that by (simp add: reads_ok_def)
    then have "replay_loop A [] [] c0 (last_payload (g_last_payload st) es) (length (frames A es)) t = (x, ctx, lp, ge)"
      unfolding es(3) replay_frames [OF assms(1) es(1,2)] by simp
    from replay_sound [OF this] that obtain more t2 where m: "t = frames A more @ t2" "\<forall>e\<in>set more. entry_ok e"
      "chain_of A c0 more = Some ctx" "lp = last_payload (last_payload (g_last_payload st) es) more"
      "ge = length (frames A es) + length (frames A more)" "x = Clean \<longrightarrow> t2 = []" by auto
    with es show ?thesis by (intro exI [of _ more]) (auto simp: chain_of_append last_payload_def)
  qed
  have tr: "tr \<longleftrightarrow> x = Torn \<and> torn \<and> oe_trunc_ok env \<and> cf_any A cf = 0 \<and> oe_open_ok env"
    using assms(3) g l by (auto simp: gwl_open_def Let_def split: if_splits loop_exit.splits)
  show "\<exists>more. ledger_inv A (es @ more) st' \<and> g_last_payload st' = last_payload (g_last_payload st) (es @ more)"
    if "rc = 0" "\<not> g_export_fd st"
  proof -
    have "x = Clean \<or> x = Torn \<and> reads_ok env" using assms(3,4) g l that(1) tr
      by (auto simp: gwl_open_def Let_def split: if_splits loop_exit.splits)
    from replayed [OF this] show ?thesis
      using assms(3) g l that by (auto simp: gwl_open_def ledger_inv_def Let_def split: if_splits loop_exit.splits)
  qed
  show "g_file st' = f \<or> (\<exists>more. begins A (es @ more) (g_file st') \<and> g_file st' = frames A (es @ more))" if "rc \<noteq> 0" "g_file st = f"
  proof (cases tr)
    case True
    with tr assms(4) have "x = Torn" "reads_ok env" by auto
    moreover have "g_file st' = take ge f"
      using assms(3) g l True that(1) by (auto simp: gwl_open_def Let_def split: if_splits loop_exit.splits)
    ultimately show ?thesis using replayed by (auto simp: begins_def)
  next
    case False
    with assms(3) g l that show ?thesis by (auto simp: gwl_open_def Let_def split: if_splits loop_exit.splits)
  qed
qed

lemma append_begins:
  assumes "gwl_append A env (Some tag) (Some payload) st = ((rc, out), st')" "begins A es (g_file st)"
  shows "begins A es (g_file st')"
proof (cases "g_fd st")
  case True
  from append_file [OF assms(1) True] obtain t where "g_file st' = g_file st @ t" by blast
  with assms(2) show ?thesis by (simp add: begins_append)
next
  case False
  with assms show ?thesis by (simp add: gwl_append_def)
qed

lemma export_file: "gwl_export_enable env path st = (rc, st') \<Longrightarrow> g_file st' = g_file st"
  by (auto simp: gwl_export_enable_def Let_def split: if_splits prod.splits)

lemma inv_begins: "ledger_inv A es st \<Longrightarrow> begins A es (g_file st)"
  using inv_on_disk on_disk_begins by blast

interpretation ledger_run: crash_safe "gw_step A" "gw_holds A" for A :: "('ct, 'led) audit"
proof
  fix acks acks' es :: "(byte list \<times> byte list) list" and x x' :: "'led gw_run"
  assume step: "gw_step A (acks, x) (acks', x')" and holds: "gw_holds A es x"
  have same: "\<exists>new more. acks' = acks @ new \<and> gw_holds A (es @ more) x' \<and> subseq new more" if "acks' = acks" "gw_holds A es x'"
    using that by (intro exI [of _ "[]"]) simp
  show "\<exists>new more. acks' = acks @ new \<and> gw_holds A (es @ more) x' \<and> subseq new more"
    using step
  proof cases
    case (append_ok env tag payload st out st')
    with holds append_maintains [of A es st env tag payload out st'] show ?thesis
      by (intro exI [of _ "[(c_str tag, payload)]"]) simp
  next
    case append_fails
    with holds append_begins inv_begins show ?thesis by (intro same) fastforce+
  next
    case append_after
    with holds append_begins show ?thesis by (intro same) fastforce+
  next
    case export
    with holds export_maintains(1) show ?thesis by (intro same) fastforce+
  next
    case export_after
    with holds export_file show ?thesis by (intro same) fastforce+
  next
    case (restart env f torn st tr st')
    with holds open_begins(1) [of A es f env torn st 0 tr st'] obtain more where "gw_holds A (es @ more) x'" by auto
    with restart show ?thesis by (intro exI [of _ "[]"] exI [of _ more]) simp
  next
    case (restart_refused env f torn st tr st')
    with holds open_begins(2) [of A es f env torn st "-1" tr st'] obtain more where "gw_holds A (es @ more) x'"
      by (auto intro: that [of "[]"])
    with restart_refused show ?thesis by (intro exI [of _ "[]"] exI [of _ more]) simp
  next
    case crash
    with holds inv_begins show ?thesis by (intro same) auto
  next
    case crash_after
    with holds show ?thesis by (intro same) auto
  qed
qed

lemma on_disk_empty: "on_disk A [] []"
  unfolding on_disk_def by auto

section \<open>Substring search\<close>

lemma contains_loop_iff: "needle \<noteq> [] \<Longrightarrow> contains_loop needle p \<longleftrightarrow> (\<exists>a b. p = a @ needle @ b)"
proof (induction needle p rule: contains_loop.induct)
  case (2 needle c p)
  show ?case
  proof (cases "take (length needle) (c # p) = needle")
    case True
    then have "c # p = [] @ needle @ drop (length needle) (c # p)" by (metis append_Nil append_take_drop_id)
    then have "\<exists>a b. c # p = a @ needle @ b" by blast
    moreover have "length needle \<le> length (c # p)" using True by (metis length_take min.cobounded1)
    ultimately show ?thesis using True by simp
  next
    case False
    have "(\<exists>a b. c # p = a @ needle @ b) \<longleftrightarrow> (\<exists>a b. p = a @ needle @ b)"
    proof
      assume "\<exists>a b. c # p = a @ needle @ b"
      then obtain a b where ab: "c # p = a @ needle @ b" by blast
      with False have "a \<noteq> []" by (cases a) auto
      with ab show "\<exists>a b. p = a @ needle @ b" by (cases a) auto
    qed (metis append_Cons)
    moreover have "\<not> (\<exists>a b. p = a @ needle @ b)" if "\<not> length needle \<le> length (c # p)" using that by auto
    ultimately show ?thesis using False 2 by auto
  qed
qed simp

section \<open>Properties\<close>

text \<open>An audit library on which the hypotheses below hold.\<close>

definition sample_audit :: "(unit, nat) audit" where
  "sample_audit =
     \<lparr>ax_commit_evidence = \<lambda>t p f. (replicate 32 (hd p), f), ax_ledger_genesis = \<lambda>f. (0, f),
      ax_ledger_append = \<lambda>c h f. (Suc c, f), current_hash = \<lambda>c. replicate 32 (of_nat c),
      led_sequence = of_nat, cf_init = (), cf_any = \<lambda>_. 0\<rparr>"

definition sample_ledger :: "nat gw_ledger" where
  "sample_ledger = \<lparr>g_ctx = 0, g_fd = False, g_file = [], g_export_fd = False, g_export_file = [], g_last_payload = []\<rparr>"

definition sample_calm :: open_env where
  "sample_calm = \<lparr>oe_open_ok = True, oe_read_errs = [], oe_seeks = [], oe_end_ok = True, oe_trunc_ok = True\<rparr>"

definition sample_append :: append_env where
  "sample_append = \<lparr>ae_writes = [], ae_fsync_ok = True, ae_export_writes = []\<rparr>"

definition sample_entry :: "byte list \<times> byte list" where
  "sample_entry = (str ''T'', [0x31, 0x32])"

lemma sample_audit_ok:
  "commit_32 sample_audit" "genesis_ok sample_audit" "calm sample_calm" "entry_ok sample_entry"
  "genesis sample_audit = 0" "commit_ok sample_audit t p" "chain_ok sample_audit c h" "chain sample_audit c h = Suc c"
  by (simp_all add: commit_32_def genesis_ok_def genesis_def calm_def sample_audit_def sample_calm_def sample_entry_def
      entry_ok_def gwl_limits commit_ok_def chain_ok_def chain_def str_def)

lemma sample_open:
  "gwl_open sample_audit sample_calm [] True sample_ledger = (0, False, sample_ledger\<lparr>g_fd := True\<rparr>)"
  using reopen(1) [of sample_audit sample_calm "[]" 0 "[]" sample_entry "frame sample_audit sample_entry" sample_ledger]
  by (simp add: sample_audit_ok frame_nonempty last_payload_def) (simp add: sample_ledger_def)

lemma sample_inv: "ledger_inv sample_audit [] (sample_ledger\<lparr>g_fd := True\<rparr>)"
  by (simp add: ledger_inv_def sample_audit_ok sample_ledger_def)

lemma sample_append_ok:
  "\<exists>out st. gwl_append sample_audit sample_append (Some (str ''T'')) (Some [0x31, 0x32]) (sample_ledger\<lparr>g_fd := True\<rparr>) = ((0, out), st)"
proof -
  have ok: "entry_ok (c_str (str ''T''), [0x31, 0x32])" using sample_audit_ok(4) by (simp add: sample_entry_def)
  have w: "write_all [] f b = (True, f @ b, [])" for f b by (cases b) simp_all
  have "write_parts [] f ps = (True, f @ concat ps)" for f ps by (induction ps arbitrary: f) (simp_all add: w)
  then show ?thesis
    using ok by (simp add: append_eq sample_audit_ok sample_append_def Let_def)
qed

text \<open>
  C9: Acknowledged evidence survives: along every run of appends (through any
  pattern of short and failed writes), failed syncs, crashes, export attempts, refused
  restarts and restarts from a fresh file, in which no restart that cuts the file met a failed read, the entries whose
  append returned 0 before any append of the same process had failed are all in the file, in
  order: the file begins with the encoding of a list of entries that contains them, and while no append of the
  process has failed it is exactly that encoding, with the chain state of these entries in memory.
\<close>

theorem acknowledged_entries_survive:
  assumes "commit_32 A" "(gw_step A)\<^sup>*\<^sup>* ([], Stopped []) (acks, x)"
  shows "\<exists>es. subseq acks es \<and>
    (case x of Running st \<Rightarrow> g_file st = frames A es \<and> chain_of A (genesis A) es = Some (g_ctx st)
     | Failing st \<Rightarrow> prefix (frames A es) (g_file st) | Stopped f \<Rightarrow> prefix (frames A es) f)"
proof -
  have "gw_holds A [] (Stopped [])" using assms(1) by (simp add: begins_def)
  from ledger_run.acknowledged_held [OF assms(2) this] obtain es where "gw_holds A es x" "subseq acks es" by blast
  then show ?thesis by (cases x) (auto simp: ledger_inv_def begins_def)
qed

theorem acknowledged_entries_survive_witness:
  "\<exists>(st :: nat gw_ledger) es. g_file st = frames sample_audit es \<and> subseq [sample_entry] es"
proof -
  obtain out st where a: "gwl_append sample_audit sample_append (Some (str ''T'')) (Some [0x31, 0x32]) (sample_ledger\<lparr>g_fd := True\<rparr>) =
      ((0, out), st)"
    using sample_append_ok by blast
  have "gw_step sample_audit ([], Stopped []) ([], Running (sample_ledger\<lparr>g_fd := True\<rparr>))"
    by (rule restart [OF sample_open]) (simp_all add: sample_ledger_def)
  moreover have "gw_step sample_audit ([], Running (sample_ledger\<lparr>g_fd := True\<rparr>)) ([sample_entry], Running st)"
    using append_ok [OF a, of "[]"] by (simp add: sample_entry_def)
  ultimately have "(gw_step sample_audit)\<^sup>*\<^sup>* ([], Stopped []) ([sample_entry], Running st)" by auto
  then show ?thesis
    using acknowledged_entries_survive [of sample_audit "[sample_entry]" "Running st"] sample_audit_ok by auto
qed

text \<open>
  C19: What \<open>gwl_open\<close> accepts: if it returns 0, whatever the operating system did,
  the file was the encoding of a list of entries followed by a rest; the rest
  is empty unless truncation is reported, and the invariant of a running
  gateway holds for these entries - so a file with a wrong stored commit
  anywhere before that rest is refused.
\<close>

theorem open_accepts_only_frames:
  assumes "gwl_open A env f torn st = (0, truncated, st')" "\<not> g_export_fd st"
  shows "\<exists>es t. f = frames A es @ t \<and> ledger_inv A es st' \<and> (truncated \<or> t = [])"
  using open_establishes [OF assms] by blast

theorem open_accepts_only_frames_witness:
  "\<exists>(st :: nat gw_ledger) es t. frame sample_audit sample_entry = frames sample_audit es @ t \<and> ledger_inv sample_audit es st \<and> t = []"
proof -
  let ?st = "sample_ledger\<lparr>g_ctx := 1, g_last_payload := snd sample_entry, g_file := frame sample_audit sample_entry, g_fd := True\<rparr>"
  have "gwl_open sample_audit sample_calm (frame sample_audit sample_entry) True sample_ledger = (0, False, ?st)"
    using reopen(1) [of sample_audit sample_calm "[sample_entry]" 1 "[]" sample_entry "frame sample_audit sample_entry" sample_ledger]
    by (simp add: sample_audit_ok frame_nonempty last_payload_def Let_def)
  from open_accepts_only_frames [OF this] show ?thesis by (auto simp: sample_ledger_def)
qed

text \<open>
  A torn tail is healed: a file of complete records followed by a part of
  one more frame opens, when torn tails are allowed, with exactly the complete
  records and their chain state, reporting the truncation; when they are not
  allowed, it is refused.
\<close>

theorem torn_tail_healed:
  assumes "commit_32 A" "genesis_ok A" "calm env" "list_all entry_ok es" "chain_of A (genesis A) es = Some ctx"
    and "entry_ok e" "t @ u = frame A e" "t \<noteq> []" "u \<noteq> []"
  shows "gwl_open A env (frames A es @ t) True st =
      (0, True, st\<lparr>g_ctx := ctx, g_last_payload := last_payload (g_last_payload st) es, g_file := frames A es, g_fd := True\<rparr>) \<and>
    fst (gwl_open A env (frames A es @ t) False st) = -1"
proof -
  have "\<forall>e\<in>set es. entry_ok e" using assms(4) by (simp add: list_all_iff)
  then show ?thesis
    using reopen [OF assms(1-3) _ assms(5) _ assms(7,9)] assms(6,8) by simp
qed

text \<open>
  A record whose stored commit is not the commit of its tag and payload is
  refused at start-up, wherever it stands: replay never gets past it.
\<close>

theorem tampered_record_refused:
  assumes "commit_32 A" "calm env" "list_all entry_ok es" "chain_of A (genesis A) es = Some ctx"
    and "entry_ok (tag, payload)" "length stored = 32" "stored \<noteq> evidence_commit A (c_str tag) payload"
  shows "fst (gwl_open A env
    (frames A es @ wr_u32le (of_nat (length tag)) @ tag @ wr_u64le (of_nat (length payload)) @ payload @ stored @ rest)
    torn st) = -1"
proof -
  let ?f = "wr_u32le (of_nat (length tag)) @ tag @ wr_u64le (of_nat (length payload)) @ payload @ stored @ rest"
  have all: "\<forall>e\<in>set es. entry_ok e" using assms(3) by (simp add: list_all_iff)
  obtain cf where g: "ax_ledger_genesis A (cf_init A) = (genesis A, cf)"
    by (cases "ax_ledger_genesis A (cf_init A)") (simp add: genesis_def)
  have "fst (replay_loop A [] [] (genesis A) (g_last_payload st) 0 (frames A es @ ?f)) = Failed"
    unfolding replay_frames [OF assms(1) all assms(4)]
    using assms(7) by (subst replay_loop.simps) (simp add: parse_frame_complete [OF assms(5,6)] check_frame_eq Let_def)
  then show ?thesis
    using assms(2) by (auto simp: gwl_open_def g calm_def Let_def split: if_splits prod.splits)
qed

theorem tampered_record_refused_witness:
  "fst (gwl_open sample_audit sample_calm
     (wr_u32le 1 @ str ''T'' @ wr_u64le 2 @ [0x33, 0x32] @ replicate 32 0x31) True sample_ledger) = -1"
proof -
  have "evidence_commit sample_audit (c_str (str ''T'')) [0x33, 0x32] = replicate 32 0x33"
    by (simp add: evidence_commit_def sample_audit_def)
  moreover have "entry_ok (str ''T'', [0x33, 0x32])" by (simp add: entry_ok_def gwl_limits str_def)
  moreover have "replicate 32 (0x31 :: byte) \<noteq> replicate 32 0x33" by (simp add: numeral_eq_Suc)
  ultimately show ?thesis
    using tampered_record_refused [of sample_audit sample_calm "[]" 0 "str ''T''" "[0x33, 0x32]" "replicate 32 0x31" "[]" True sample_ledger]
    by (simp add: sample_audit_ok)
qed



text \<open>
  \<open>gwl_last_payload_contains\<close> is substring search for a non-empty C string in the
  payload of the last record.
\<close>

theorem last_payload_contains_spec:
  "gwl_last_payload_contains (Some s) st \<longleftrightarrow> c_str s \<noteq> [] \<and> (\<exists>a b. g_last_payload st = a @ c_str s @ b)"
proof (cases "c_str s = []")
  case False
  then have "g_last_payload st \<noteq> [] \<and> \<not> length (g_last_payload st) < length (c_str s)"
    if "\<exists>a b. g_last_payload st = a @ c_str s @ b" using that by auto
  with False show ?thesis by (auto simp: gwl_last_payload_contains_def contains_loop_iff)
qed (simp add: gwl_last_payload_contains_def)

text \<open>
  C40: A failed \<open>read()\<close> inside a frame is taken for a torn tail: with truncation
  allowed, a single read error while an intact record is replayed makes
  \<open>gwl_open\<close> succeed and cut that record, and everything after it, off the file.
\<close>

theorem read_error_truncates:
  assumes "commit_32 A" "genesis_ok A" "entry_ok e"
  shows "gwl_open A \<lparr>oe_open_ok = True, oe_read_errs = [False, True], oe_seeks = [], oe_end_ok = True, oe_trunc_ok = True\<rparr>
      (frame A e @ rest) True st =
    (0, True, st\<lparr>g_ctx := genesis A, g_file := [], g_fd := True\<rparr>)"
proof -
  obtain tag payload where e: "e = (tag, payload)" by (cases e)
  obtain cf where g: "ax_ledger_genesis A (cf_init A) = (genesis A, cf)"
    by (cases "ax_ledger_genesis A (cf_init A)") (simp add: genesis_def)
  have "parse_frame [False, True] (frame A e @ rest) = P_torn"
    unfolding e frame_eq parse_frame_def Let_def read_exact_def
    using entry_lengths(1-3) [OF assms(3) [unfolded e]]
    by (simp add: rd_wr_u32le read_full_def read_exact_def) (simp add: wr_u32le_def)
  then have "replay_loop A [False, True] [] (genesis A) (g_last_payload st) 0 (frame A e @ rest) =
      (Torn, genesis A, g_last_payload st, 0)"
    by (subst replay_loop.simps) simp
  then show ?thesis using assms(2) by (simp add: gwl_open_def g genesis_ok_def Let_def)
qed

theorem read_error_truncates_witness:
  "gwl_open sample_audit \<lparr>oe_open_ok = True, oe_read_errs = [False, True], oe_seeks = [], oe_end_ok = True, oe_trunc_ok = True\<rparr>
      (frame sample_audit sample_entry) True sample_ledger =
    (0, True, sample_ledger\<lparr>g_fd := True\<rparr>)"
  using read_error_truncates [of sample_audit sample_entry "[]" sample_ledger]
  by (simp add: sample_audit_ok) (simp add: sample_ledger_def)

text \<open>
  Bytes of a stored tag after an embedded NUL are not covered by the commit: a
  file in which such bytes were added to a tag is different and replays to the
  same chain.
\<close>

theorem tag_padding_not_covered:
  assumes "0 \<notin> set tag" "junk \<noteq> []"
  shows "chain_of A ctx [(tag @ 0 # junk, payload)] = chain_of A ctx [(tag, payload)] \<and>
    frames A [(tag @ 0 # junk, payload)] \<noteq> frames A [(tag, payload)]"
proof -
  have "length (frame A (tag @ 0 # junk, payload)) \<noteq> length (frame A (tag, payload))"
    using assms by (simp add: frame_eq)
  then have "frame A (tag @ 0 # junk, payload) \<noteq> frame A (tag, payload)" by metis
  then show ?thesis using assms(1) by simp
qed

theorem tag_padding_not_covered_witness:
  "chain_of sample_audit 0 [([0x54, 0, 0x58], [0x31])] = chain_of sample_audit 0 [([0x54], [0x31])]"
  using tag_padding_not_covered [of "[0x54]" "[0x58]" sample_audit 0 "[0x31]"] by simp

text \<open>
  The fixed-width numbers of a frame are little-endian and exact in both
  directions.
\<close>

theorem frame_numbers_roundtrip:
  "rd_u32le (wr_u32le v) = v \<and> rd_u64le (wr_u64le w) = w \<and>
   length (wr_u32le v) = 4 \<and> length (wr_u64le w) = 8"
  by (simp add: rd_wr_u32le rd_wr_u64le)

end
