(* ===== verification/CText.thy ===== *)
theory CText
  imports Canonical
begin

text \<open>
  What the gateway uses of the C library to read text: \<open>fgets()\<close> on a stream
  whose unread bytes are a list, \<open>strtol()\<close>, and the removal of line ends.
  \<open>long\<close> has 64 bits.
\<close>

section \<open>String literals\<close>

lemma of_char_byte_inject [simp]: "(of_char c :: byte) = of_char d \<longleftrightarrow> c = d"
proof
  have u: "unat (of_char c :: byte) = of_char c" for c
  proof -
    have "(of_char c :: byte) = of_nat (of_char c)" by (simp add: of_char_def)
    then show ?thesis by (simp only: unsigned_of_nat) (simp add: take_bit_nat_eq_self_iff)
  qed
  assume "(of_char c :: byte) = of_char d"
  then have "(of_char c :: nat) = of_char d" using u by metis
  then show "c = d" by simp
qed simp

lemma str_inject [simp]: "str a = str b \<longleftrightarrow> a = b"
  by (auto simp: str_def inj_def dest: map_injective)

lemma of_char_in_str [simp]: "of_char c \<in> set (str s) \<longleftrightarrow> c \<in> set s"
  by (auto simp: str_def)

section \<open>Lines\<close>

fun fgets_loop :: "nat \<Rightarrow> byte list \<Rightarrow> byte list \<times> byte list" where
  "fgets_loop 0 f = ([], f)"
| "fgets_loop (Suc k) [] = ([], [])"
| "fgets_loop (Suc k) (c # f) =
     (if c = 0x0A then ([c], f) else case fgets_loop k f of (l, r) \<Rightarrow> (c # l, r))"

lemma fgets_loop_split: "fgets_loop k f = (l, r) \<Longrightarrow> f = l @ r"
  by (induction k f arbitrary: l r rule: fgets_loop.induct) (auto split: if_splits prod.splits)

lemma fgets_loop_progress: "0 < k \<Longrightarrow> f \<noteq> [] \<Longrightarrow> fst (fgets_loop k f) \<noteq> []"
  by (cases "(k, f)" rule: fgets_loop.cases) (auto split: prod.splits)

lemma fgets_loop_shorter: "fgets_loop k f = (l, r) \<Longrightarrow> f \<noteq> [] \<Longrightarrow> 0 < k \<Longrightarrow> length r < length f"
  using fgets_loop_split [of k f l r] fgets_loop_progress [of k f] by auto

text \<open>
  The results of \<open>fgets(line, cap, f)\<close> until it returns \<open>NULL\<close>, each as the bytes
  stored before the terminating NUL.
\<close>

function fgets_all :: "nat \<Rightarrow> byte list \<Rightarrow> byte list list" where
  "fgets_all cap f =
     (if f = [] \<or> cap < 2 then []
      else case fgets_loop (cap - 1) f of (l, r) \<Rightarrow> l # fgets_all cap r)"
  by pat_completeness auto
termination
  by (relation "measure (\<lambda>(_, f). length f)") (auto dest!: sym [of "(_, _)"] intro: fgets_loop_shorter)

declare fgets_all.simps [simp del]

lemma fgets_all_Nil [simp]: "fgets_all cap [] = []"
  by (simp add: fgets_all.simps)

lemma fgets_loop_line:
  "0x0A \<notin> set l \<Longrightarrow> length l < k \<Longrightarrow> fgets_loop k (l @ 0x0A # r) = (l @ [0x0A], r)"
  by (induction l arbitrary: k) (auto simp: gr0_conv_Suc Suc_less_eq2)

lemma fgets_loop_last:
  "0x0A \<notin> set l \<Longrightarrow> length l \<le> k \<Longrightarrow> fgets_loop k l = (l, [])"
proof (induction l arbitrary: k)
  case (Cons c l)
  then show ?case by (cases k) auto
next
  case Nil
  then show ?case by (cases k) auto
qed

lemma fgets_loop_full: "0x0A \<notin> set l \<Longrightarrow> fgets_loop (length l) (l @ r) = (l, r)"
  by (induction l) auto

text \<open>A text of short lines is read line by line, an unfinished last line included.\<close>

lemma fgets_all_line:
  assumes "0x0A \<notin> set l" "Suc (length l) < cap"
  shows "fgets_all cap (l @ 0x0A # r) = (l @ [0x0A]) # fgets_all cap r"
  using assms fgets_loop_line [of l "cap - 1" r] by (simp add: fgets_all.simps [of cap "l @ 0x0A # r"])

lemma fgets_all_last:
  assumes "0x0A \<notin> set l" "length l < cap" "l \<noteq> []"
  shows "fgets_all cap l = [l]"
proof -
  have "\<not> cap < 2" using assms(2,3) by (cases l) auto
  then show ?thesis using assms fgets_loop_last [of l "cap - 1"] by (simp add: fgets_all.simps [of cap l])
qed

definition unlines :: "byte list list \<Rightarrow> byte list" where
  "unlines ls = concat (map (\<lambda>l. l @ [0x0A]) ls)"

lemma unlines_append: "unlines (a @ b) = unlines a @ unlines b"
  by (simp add: unlines_def)

lemma fgets_unlines:
  assumes "\<forall>l\<in>set ls. 0x0A \<notin> set l \<and> Suc (length l) < cap"
  shows "fgets_all cap (unlines ls @ r) = map (\<lambda>l. l @ [0x0A]) ls @ fgets_all cap r"
  using assms
proof (induction ls)
  case (Cons l ls)
  then have "fgets_all cap (l @ 0x0A # (unlines ls @ r)) = (l @ [0x0A]) # fgets_all cap (unlines ls @ r)"
    by (intro fgets_all_line) simp_all
  with Cons show ?case by (simp add: unlines_def)
qed (simp add: unlines_def)

definition is_eol :: "byte \<Rightarrow> bool" where
  "is_eol c \<longleftrightarrow> c = 0x0A \<or> c = 0x0D"

text \<open>\<open>while (l > 0 && (line[l-1] == '\n' || line[l-1] == '\r')) line[--l] = '\0';\<close>\<close>

definition chomp :: "byte list \<Rightarrow> byte list" where
  "chomp line = rev (dropWhile is_eol (rev (c_str line)))"

lemma chomp_line:
  assumes "0 \<notin> set l" "0x0A \<notin> set l" "0x0D \<notin> set l"
  shows "chomp (l @ [0x0A]) = l" "chomp l = l"
proof -
  have "dropWhile is_eol (rev l) = rev l"
    using assms by (cases "rev l") (auto simp: is_eol_def dest: arg_cong [of _ _ set])
  with assms(1) show "chomp (l @ [0x0A]) = l" "chomp l = l"
    by (auto simp: chomp_def is_eol_def)
qed

lemma printable_not_ctrl: "\<forall>c\<in>set l. 0x20 \<le> c \<Longrightarrow> 0 \<notin> set l \<and> 0x0A \<notin> set l \<and> 0x0D \<notin> set (l :: byte list)"
  by (auto simp: word_le_nat_alt)

lemma dec_int_printable: "c \<in> set (dec_int x) \<Longrightarrow> 0x20 \<le> c"
  by (auto simp: word_le_nat_alt dec_int_def dest!: dec_digits split: if_splits)

section \<open>Numbers\<close>

definition is_space :: "byte \<Rightarrow> bool" where
  "is_space c \<longleftrightarrow> c = 0x20 \<or> 0x09 \<le> c \<and> c \<le> 0x0D"

definition is_digit :: "byte \<Rightarrow> bool" where
  "is_digit c \<longleftrightarrow> 0x30 \<le> c \<and> c \<le> 0x39"

definition clamp_long :: "int \<Rightarrow> int" where
  "clamp_long i = max (- (2 ^ 63)) (min (2 ^ 63 - 1) i)"

definition strtol_sign :: "byte list \<Rightarrow> bool \<times> byte list" where
  "strtol_sign s = (case s of c # r \<Rightarrow> if c = 0x2D then (True, r) else if c = 0x2B then (False, r) else (False, s) | [] \<Rightarrow> (False, s))"

text \<open>
  \<open>strtol(s, &end, 10)\<close>: the value and the rest at \<open>end\<close>, or \<open>None\<close> if there is
  no number (the call returns 0 and \<open>end\<close> is \<open>s\<close>).
\<close>

definition strtol :: "byte list \<Rightarrow> (int \<times> byte list) option" where
  "strtol s =
     (let (neg, t) = strtol_sign (dropWhile is_space s); ds = takeWhile is_digit t in
      if ds = [] then None
      else Some (clamp_long (if neg then - int (dec_val ds) else int (dec_val ds)), dropWhile is_digit t))"

definition strtol_value :: "byte list \<Rightarrow> int" where
  "strtol_value s = (case strtol s of None \<Rightarrow> 0 | Some (v, _) \<Rightarrow> v)"

lemma dec_are_digits: "\<forall>c\<in>set (dec n). is_digit c"
  using dec_digits by (auto simp: is_digit_def word_le_nat_alt)

lemma digits_prefix:
  assumes "\<forall>c\<in>set ds. is_digit c" "r = [] \<or> \<not> is_digit (hd r)"
  shows "takeWhile is_digit (ds @ r) = ds" "dropWhile is_digit (ds @ r) = r"
  using assms by (cases r; auto simp: takeWhile_append dropWhile_append)+

lemma digit_not_sign: "is_digit c \<Longrightarrow> \<not> is_space c \<and> c \<noteq> 0x2D \<and> c \<noteq> 0x2B"
  by (auto simp: is_digit_def is_space_def word_le_nat_alt)

lemma strtol_dec:
  assumes "r = [] \<or> \<not> is_digit (hd r)"
  shows "strtol (dec_int i @ r) = Some (clamp_long i, r)"
proof -
  have d: "takeWhile is_digit (dec n @ r) = dec n" "dropWhile is_digit (dec n @ r) = r" for n
    using digits_prefix [OF dec_are_digits assms] by auto
  obtain c t where c: "dec (nat i) = c # t" by (cases "dec (nat i)") auto
  then have "is_digit c" using dec_are_digits [of "nat i"] by simp
  then have *: "\<not> is_space c" "c \<noteq> 0x2D" "c \<noteq> 0x2B" using digit_not_sign by auto
  show ?thesis
  proof (cases "i < 0")
    case True
    then show ?thesis using d [of "nat (- i)"]
      by (simp add: strtol_def dec_int_def strtol_sign_def is_space_def)
  next
    case False
    then have "dropWhile is_space (dec_int i @ r) = dec (nat i) @ r"
      "strtol_sign (dec (nat i) @ r) = (False, dec (nat i) @ r)" using * c by (simp_all add: dec_int_def strtol_sign_def)
    then show ?thesis using False d [of "nat i"] by (simp add: strtol_def)
  qed
qed

lemma clamp_sint32: "clamp_long (sint (w :: i32)) = sint w"
  using sint_lt [of w] sint_ge [of w] by (simp add: clamp_long_def)

lemma clamp_sint64: "clamp_long (sint (w :: i64)) = sint w"
  using sint_lt [of w] sint_ge [of w] by (simp add: clamp_long_def)

lemma strtol_value_dec: "strtol_value (dec_int i) = clamp_long i"
  using strtol_dec [of "[]" i] by (simp add: strtol_value_def)

lemma length_dec_int32: "length (dec_int (sint (w :: i32))) \<le> 21"
proof -
  have "sint (scast w :: i64) = sint w"
    using sint_lt [of w] sint_ge [of w] by (simp add: signed_scast_eq signed_take_bit_int_eq_self)
  then show ?thesis using length_dec_int [of "scast w"] by simp
qed

lemma dec_int_nonempty [simp]: "dec_int i \<noteq> []"
  by (simp add: dec_int_def)

end
