(* ===== verification/GwLog.thy ===== *)
theory GwLog
  imports GwJson CText "HOL-Library.Sublist"
begin

text \<open>
  The gateway's log, \<open>gateway/src/gw_log.c\<close>: one JSON object per line, with the
  API key scrubbed from the message while it is written.

  The file-static variables are the record \<open>gw_log_t\<close>: \<open>g_log\<close> is the stream
  with what has been appended to it (\<open>None\<close> if it is not open), \<open>g_secret\<close> the
  first \<open>g_secret_len\<close> bytes of the buffer of that name.  The time stamp that
  \<open>strftime()\<close> prints is an argument of \<open>gw_log\<close>.
\<close>

section \<open>Model\<close>

record gw_log_t =
  g_log :: "byte list option"
  g_secret :: "byte list"

definition G_SECRET_SIZE :: nat where "G_SECRET_SIZE = 256"

text \<open>\<open>stream\<close> is the result of \<open>fopen(path, "ab")\<close>.\<close>

definition gw_log_open :: "byte list option \<Rightarrow> byte list option \<Rightarrow> gw_log_t \<Rightarrow> int \<times> gw_log_t" where
  "gw_log_open stream secret st =
     (let st = st\<lparr>g_log := stream\<rparr> in
      if stream = None then (-1, st)
      else
        let st = st\<lparr>g_secret := []\<rparr> in
        case secret of
          None \<Rightarrow> (0, st)
        | Some s \<Rightarrow>
            let n = length (c_str s) in
            if 0 < n \<and> n < G_SECRET_SIZE then (0, st\<lparr>g_secret := c_str s\<rparr>) else (0, st))"

definition gw_log_close :: "gw_log_t \<Rightarrow> gw_log_t" where
  "gw_log_close st = st\<lparr>g_log := None, g_secret := []\<rparr>"

text \<open>What \<open>put_escaped\<close> writes for a byte that does not start the secret.\<close>

definition log_byte :: "byte \<Rightarrow> byte list" where
  "log_byte c =
     (if c = 0x22 then [0x5C, 0x22]
      else if c = 0x5C then [0x5C, 0x5C]
      else if c = 0x0A then [0x5C, 0x6E]
      else if c = 0x0D then [0x5C, 0x72]
      else if c = 0x09 then [0x5C, 0x74]
      else if c < 0x20 then [0x5C, 0x75, 0x30, 0x30, hexdigit (drop_bit 4 c AND 0x0F), hexdigit (c AND 0x0F)]
      else [c])"

definition redacted :: "byte list" where
  "redacted = str ''[redacted]''"

function put_escaped :: "byte list \<Rightarrow> byte list \<Rightarrow> byte list" where
  "put_escaped secret [] = []"
| "put_escaped secret (c # src) =
     (if 0 < length secret \<and> length secret \<le> length (c # src) \<and> take (length secret) (c # src) = secret
      then redacted @ put_escaped secret (drop (length secret) (c # src))
      else log_byte c @ put_escaped secret src)"
  by pat_completeness auto
termination
  by (relation "measure (\<lambda>(_, src). length src)") auto

text \<open>The optional members of a line.\<close>

definition log_message :: "byte list \<Rightarrow> byte list option \<Rightarrow> byte list" where
  \<open>log_message secret message =
     (case message of
        None \<Rightarrow> []
      | Some m \<Rightarrow> str '',"message":"'' @ put_escaped secret (c_str m) @ str ''"'')\<close>

definition gw_log :: "byte list \<Rightarrow> byte list \<Rightarrow> byte list \<Rightarrow> byte list option \<Rightarrow> i32 \<Rightarrow> i64 \<Rightarrow> u64 \<Rightarrow> gw_log_t \<Rightarrow> gw_log_t" where
  \<open>gw_log ts level event message attempt status seq st =
     (case g_log st of
        None \<Rightarrow> st
      | Some f \<Rightarrow>
          st\<lparr>g_log := Some (f @
               str ''{"ts":"'' @ c_str ts @ str ''","level":"'' @ c_str level @ str ''","event":"'' @ c_str event @ str ''"'' @
               log_message (g_secret st) message @
               (if 0 \<le> sint attempt then str '',"attempt":'' @ dec_int (sint attempt) else []) @
               (if 0 \<le> sint status then str '',"status":'' @ dec_int (sint status) else []) @
               (if 0 < seq then str '',"seq":'' @ dec (unat seq) else []) @
               str ''}'' @ [0x0A])\<rparr>)\<close>

section \<open>Scrubbing\<close>

text \<open>The message with every occurrence of the secret replaced, before escaping.\<close>

function scrub :: "byte list \<Rightarrow> byte list \<Rightarrow> byte list" where
  "scrub secret [] = []"
| "scrub secret (c # src) =
     (if secret \<noteq> [] \<and> prefix secret (c # src)
      then redacted @ scrub secret (drop (length secret) (c # src))
      else c # scrub secret src)"
  by pat_completeness auto
termination
  by (relation "measure (\<lambda>(_, src). length src)") auto

lemma log_byte_eq: "log_byte c = gw_esc c"
  by (simp add: log_byte_def gw_esc_cases hex_byte_def)

lemma redacted_bytes: "redacted = [0x5B, 0x72, 0x65, 0x64, 0x61, 0x63, 0x74, 0x65, 0x64, 0x5D]"
  by (simp add: redacted_def str_def)

lemma gw_escape_append: "gw_escape (a @ b) = gw_escape a @ gw_escape b"
  by (simp add: gw_escape_def)

lemma escape_redacted: "gw_escape redacted = redacted"
  by (simp add: redacted_bytes gw_escape_def gw_esc_cases)

lemma match_iff_prefix:
  "0 < length s \<and> length s \<le> length m \<and> take (length s) m = s \<longleftrightarrow> s \<noteq> [] \<and> prefix s m"
  by (auto simp: prefix_def) (metis append_take_drop_id)

lemma put_escaped_eq: "put_escaped s m = gw_escape (scrub s m)"
proof (induction s m rule: scrub.induct)
  case (2 s c m)
  then show ?case
    unfolding put_escaped.simps match_iff_prefix scrub.simps
    by (simp add: gw_escape_append escape_redacted gw_escape_Cons log_byte_eq)
qed (simp add: gw_escape_def)

text \<open>
  Keys the scrubbing can hide: non-empty, without the brackets of the
  replacement and not a part of it.
\<close>

definition scrubbable :: "byte list \<Rightarrow> bool" where
  "scrubbable s \<longleftrightarrow> s \<noteq> [] \<and> 0x5B \<notin> set s \<and> 0x5D \<notin> set s \<and> \<not> sublist s (str ''redacted'')"

text \<open>An occurrence in front of a byte that the word does not contain lies on one side of it.\<close>

lemma sublist_separator:
  assumes "d \<notin> set s" "sublist s (a @ d # b)"
  shows "sublist s a \<or> sublist s b"
  using assms
proof (induction a)
  case Nil
  then show ?case by (auto simp: sublist_Cons_right prefix_Cons)
next
  case (Cons x a)
  from Cons.prems(2) consider "prefix s (x # a @ d # b)" | "sublist s (a @ d # b)"
    by (auto simp: sublist_Cons_right)
  then show ?case
  proof cases
    case 1
    have "prefix s (x # a) \<or> (\<exists>t. s = (x # a) @ t \<and> prefix t (d # b))"
      using 1 prefix_append [of s "x # a" "d # b"] by auto
    with Cons.prems(1) have "prefix s (x # a)" by (auto simp: prefix_Cons)
    then show ?thesis by (simp add: prefix_imp_sublist)
  next
    case 2
    with Cons show ?thesis by (auto simp: sublist_Cons_right)
  qed
qed

text \<open>A word without brackets that starts in scrubbed text has not been scrubbed there.\<close>

lemma prefix_scrub:
  assumes "prefix t (scrub s m)" "0x5B \<notin> set t"
  shows "prefix t m"
  using assms
proof (induction t arbitrary: m)
  case (Cons a t)
  then obtain c m' where m: "m = c # m'" by (cases m) auto
  show ?case
  proof (cases "s \<noteq> [] \<and> prefix s m")
    case True
    with Cons.prems m show ?thesis by (simp add: redacted_bytes)
  next
    case False
    with Cons m show ?thesis by auto
  qed
qed simp

lemma sublist_redacted: "scrubbable s \<Longrightarrow> sublist s (redacted @ m) \<Longrightarrow> sublist s m"
proof -
  assume s: "scrubbable s" "sublist s (redacted @ m)"
  have "redacted @ m = [] @ 0x5B # (str ''redacted'' @ 0x5D # m)" by (simp add: redacted_bytes str_def)
  with s have "sublist s (str ''redacted'' @ 0x5D # m)"
    using sublist_separator [of "0x5B" s "[]" "str ''redacted'' @ 0x5D # m"] unfolding scrubbable_def by force
  with s(1) show "sublist s m"
    using sublist_separator [of "0x5D" s "str ''redacted''" m] unfolding scrubbable_def by blast
qed

lemma scrub_hides: "scrubbable s \<Longrightarrow> \<not> sublist s (scrub s m)"
proof (induction s m rule: scrub.induct)
  case (1 s)
  then show ?case by (simp add: scrubbable_def)
next
  case (2 s c m)
  show ?case
  proof (cases "s \<noteq> [] \<and> prefix s (c # m)")
    case True
    then have "scrub s (c # m) = redacted @ scrub s (drop (length s) (c # m))" by (simp only: scrub.simps if_True simp_thms)
    with 2(1) [OF True 2(3)] sublist_redacted [OF 2(3)] show ?thesis by metis
  next
    case False
    have "\<not> prefix s (scrub s (c # m))"
      using prefix_scrub [of s s "c # m"] False 2(3) by (auto simp: scrubbable_def)
    with 2 False show ?thesis by (auto simp: sublist_Cons_right simp del: prefix_Cons)
  qed
qed

text \<open>
  In the escaped text a key could still appear by accident, started by the tail
  of an escape sequence; a key that contains no backslash and does not start
  with such a byte cannot.
\<close>

definition escape_tail :: "byte list" where
  \<open>escape_tail = str ''"nrtu0123456789abcdef''\<close>

definition log_safe :: "byte list \<Rightarrow> bool" where
  "log_safe s \<longleftrightarrow> scrubbable s \<and> 0x5C \<notin> set s \<and> hd s \<notin> set escape_tail"

lemma sublist_skip:
  assumes "s \<noteq> []" "hd s \<notin> set a" "sublist s (a @ b)"
  shows "sublist s b"
  using assms(2,3)
proof (induction a)
  case (Cons x a)
  with assms(1) show ?case by (cases s) (auto simp: sublist_Cons_right)
qed simp

lemma gw_esc_tail:
  assumes "gw_esc c \<noteq> [c]"
  shows "\<exists>a. gw_esc c = 0x5C # a \<and> set a \<subseteq> insert 0x5C (set escape_tail)"
proof -
  have "set (hex_byte c) \<subseteq> set escape_tail"
    using hex_byte_chars [of c] by (auto simp: escape_tail_def str_def)
  moreover have "{0x22, 0x6E, 0x72, 0x74, 0x75, 0x30} \<subseteq> set escape_tail" by (simp add: escape_tail_def str_def)
  ultimately show ?thesis using assms by (auto simp: gw_esc_cases split: if_splits)
qed

lemma prefix_escape:
  assumes "prefix t (gw_escape m)" "0x5C \<notin> set t"
  shows "prefix t m"
  using assms
proof (induction t arbitrary: m)
  case (Cons a t)
  then obtain c m' where m: "m = c # m'" by (cases m) (auto simp: gw_escape_def)
  show ?case
  proof (cases "gw_esc c = [c]")
    case True
    with Cons m show ?thesis by (auto simp: gw_escape_Cons)
  next
    case False
    with gw_esc_tail [OF False] Cons.prems m show ?thesis by (auto simp: gw_escape_Cons)
  qed
qed simp

lemma sublist_escape:
  assumes "s \<noteq> []" "0x5C \<notin> set s" "hd s \<notin> set escape_tail" "sublist s (gw_escape m)"
  shows "sublist s m"
  using assms(4)
proof (induction m)
  case (Cons c m)
  show ?case
  proof (cases "gw_esc c = [c]")
    case True
    then have e: "gw_escape (c # m) = c # gw_escape m" by (simp add: gw_escape_Cons)
    with Cons.prems consider "prefix s (gw_escape (c # m))" | "sublist s (gw_escape m)"
      by (auto simp: sublist_Cons_right)
    then show ?thesis
    proof cases
      case 1
      then show ?thesis using prefix_escape [of s "c # m"] assms(2) by (simp add: prefix_imp_sublist)
    next
      case 2
      with Cons.IH show ?thesis by (simp add: sublist_Cons_right)
    qed
  next
    case False
    then obtain a where a: "gw_esc c = 0x5C # a" "set a \<subseteq> insert 0x5C (set escape_tail)"
      using gw_esc_tail by blast
    moreover have "hd s \<noteq> 0x5C" using assms(1,2) hd_in_set [of s] by metis
    ultimately have "hd s \<notin> set (gw_esc c)" using assms(3) by auto
    with Cons assms(1) sublist_skip [of s "gw_esc c" "gw_escape m"] show ?thesis
      by (simp add: gw_escape_Cons sublist_Cons_right)
  qed
qed (simp add: gw_escape_def)

lemma put_escaped_hides: "log_safe s \<Longrightarrow> \<not> sublist s (put_escaped s m)"
  using sublist_escape [of s "scrub s m"] scrub_hides [of s m]
  by (auto simp: put_escaped_eq log_safe_def scrubbable_def)

section \<open>Lines\<close>

lemma escaped_printable: "c \<in> set (gw_escape m) \<Longrightarrow> 0x20 \<le> c"
proof -
  have "\<forall>x\<in>set (gw_esc b). 0x20 \<le> x" for b
    using hex_byte_chars [of b] by (auto simp: gw_esc_cases str_def not_less)
  then show "c \<in> set (gw_escape m) \<Longrightarrow> 0x20 \<le> c" by (auto simp: gw_escape_def)
qed

lemma dec_printable: "c \<in> set (dec n) \<Longrightarrow> 0x20 \<le> c"
  by (auto simp: word_le_nat_alt dest!: dec_digits)

text \<open>What comes before the message in a line, and what comes after its closing quote.\<close>

definition line_head :: "byte list \<Rightarrow> byte list \<Rightarrow> byte list \<Rightarrow> byte list" where
  \<open>line_head ts level event =
     str ''{"ts":"'' @ c_str ts @ str ''","level":"'' @ c_str level @ str ''","event":"'' @ c_str event @ str ''"''\<close>

definition line_tail :: "i32 \<Rightarrow> i64 \<Rightarrow> u64 \<Rightarrow> byte list" where
  \<open>line_tail attempt status seq =
     (if 0 \<le> sint attempt then str '',"attempt":'' @ dec_int (sint attempt) else []) @
     (if 0 \<le> sint status then str '',"status":'' @ dec_int (sint status) else []) @
     (if 0 < seq then str '',"seq":'' @ dec (unat seq) else []) @ str ''}''\<close>

lemma gw_log_line:
  assumes "g_log st = Some f"
  shows "gw_log ts level event message attempt status seq st =
    st\<lparr>g_log := Some (f @ line_head ts level event @ log_message (g_secret st) message @
      line_tail attempt status seq @ [0x0A])\<rparr>"
  using assms by (simp add: gw_log_def line_head_def line_tail_def)

lemma log_open_secret:
  assumes "0 \<notin> set key" "key \<noteq> []" "length key < G_SECRET_SIZE"
  shows "gw_log_open (Some f) (Some key) st = (0, st\<lparr>g_log := Some f, g_secret := key\<rparr>)"
  using assms by (simp add: gw_log_open_def Let_def)

lemma log_message_printable: "c \<in> set (log_message s message) \<Longrightarrow> 0x20 \<le> c"
  using escaped_printable [of c] by (auto simp: log_message_def put_escaped_eq str_def split: option.splits)

lemma line_tail_printable: "c \<in> set (line_tail attempt status seq) \<Longrightarrow> 0x20 \<le> c"
  using dec_printable [of c] dec_int_printable [of c] by (auto simp: line_tail_def str_def split: if_splits)

lemma line_head_printable:
  assumes "\<forall>c\<in>set ts \<union> set level \<union> set event. 0x20 \<le> c" "c \<in> set (line_head ts level event)"
  shows "0x20 \<le> c"
  using assms by (auto simp: line_head_def str_def c_str_def dest: set_takeWhileD)

lemma plain_put_escaped:
  "\<forall>c\<in>set m. 0x20 \<le> c \<and> c \<noteq> 0x22 \<and> c \<noteq> 0x5C \<Longrightarrow> put_escaped [] m = m"
  by (induction m) (auto simp: log_byte_def)

text \<open>
  The whole line.  Its fields are strings in quotes, between which there are only punctuation and
  digits: a key that has no quote and some other byte than these can only occur inside one of the
  strings.
\<close>

definition punct :: "byte list" where
  "punct = str ''{}:,0123456789'' @ [0x0A]"

definition field_names :: "byte list list" where
  "field_names = map str [''ts'', ''level'', ''event'', ''message'', ''attempt'', ''status'', ''seq'']"

definition line_safe :: "byte list \<Rightarrow> bool" where
  "line_safe key \<longleftrightarrow> log_safe key \<and> 0x22 \<notin> set key \<and> \<not> set key \<subseteq> set punct \<and> (\<forall>n\<in>set field_names. \<not> sublist key n)"

text \<open>No occurrence of the key in the bytes, nor one that starts in punctuation before them.\<close>

definition clear :: "byte list \<Rightarrow> byte list \<Rightarrow> bool" where
  "clear key rest \<longleftrightarrow> (\<forall>pre. set pre \<subseteq> set punct \<longrightarrow> \<not> sublist key (pre @ rest))"

lemma clear_Nil: "\<not> set key \<subseteq> set punct \<Longrightarrow> clear key []"
  using set_mono_sublist by (fastforce simp: clear_def)

lemma clear_punct: "set a \<subseteq> set punct \<Longrightarrow> clear key rest \<Longrightarrow> clear key (a @ rest)"
  unfolding clear_def by (metis append_assoc le_sup_iff set_append)

lemma clear_quoted:
  assumes "line_safe key" "\<not> sublist key w" "clear key rest"
  shows "clear key (0x22 # w @ 0x22 # rest)"
proof -
  have q: "0x22 \<notin> set key" "\<not> set key \<subseteq> set punct" using assms(1) by (simp_all add: line_safe_def)
  have "\<not> sublist key rest" using assms(3) unfolding clear_def by (metis append_Nil empty_subsetI list.set(1))
  then have "\<not> sublist key (w @ 0x22 # rest)" using sublist_separator [OF q(1)] assms(2) by blast
  moreover have "\<not> sublist key pre" if "set pre \<subseteq> set punct" for pre
    using that set_mono_sublist q(2) by blast
  ultimately show ?thesis unfolding clear_def using sublist_separator [OF q(1)] by blast
qed

lemma dec_punct: "set (dec n) \<subseteq> set punct"
proof
  fix c assume "c \<in> set (dec n)"
  then have "unat c \<in> {48 ..< 58}" using dec_digits [of c n] by simp
  then have "c \<in> of_nat ` set [48 ..< 58]" by (intro image_eqI [of _ _ "unat c"]) (simp_all only: set_upt, simp)
  then show "c \<in> set punct" by (auto simp: punct_def str_def upt_rec)
qed

lemma number_member:
  assumes "line_safe key" "n \<in> set field_names" "clear key rest"
  shows "clear key (0x2C # 0x22 # n @ 0x22 # 0x3A # dec k @ rest)"
proof -
  have "clear key (([0x3A] @ dec k) @ rest)"
    using dec_punct [of k] assms(3) by (intro clear_punct) (simp_all add: punct_def str_def)
  then have "clear key (0x22 # n @ 0x22 # 0x3A # dec k @ rest)"
    using assms(1,2) by (intro clear_quoted) (simp_all add: line_safe_def)
  from clear_punct [OF _ this, of "[0x2C]"] show ?thesis by (simp add: punct_def str_def)
qed

lemma text_member:
  assumes "line_safe key" "n \<in> set field_names" "\<not> sublist key v" "clear key rest" "c \<in> set punct"
  shows "clear key (c # 0x22 # n @ 0x22 # 0x3A # 0x22 # v @ 0x22 # rest)"
proof -
  have "clear key ([0x3A] @ 0x22 # v @ 0x22 # rest)"
    using assms(1,3,4) by (intro clear_punct clear_quoted) (simp_all add: punct_def str_def)
  then have "clear key (0x22 # n @ 0x22 # 0x3A # 0x22 # v @ 0x22 # rest)"
    using assms(1,2) by (intro clear_quoted) (simp_all add: line_safe_def)
  from clear_punct [OF _ this, of "[c]"] assms(5) show ?thesis by simp
qed

lemma line_tail_clear:
  assumes "line_safe key"
  shows "clear key (line_tail attempt status seq @ [0x0A])"
proof -
  have n: "str ''attempt'' \<in> set field_names" "str ''status'' \<in> set field_names" "str ''seq'' \<in> set field_names"
    by (simp_all add: field_names_def)
  have e: "clear key [0x7D, 0x0A]"
    using clear_punct [OF _ clear_Nil, of "[0x7D, 0x0A]" key] assms by (simp add: line_safe_def punct_def str_def)
  note m = number_member [OF assms]
  show ?thesis
    unfolding line_tail_def using m [OF n(1)] m [OF n(2)] m [OF n(3)] e by (simp add: dec_int_def str_def)
qed

lemma line_clear:
  assumes "line_safe key" "\<not> sublist key (c_str ts)" "\<not> sublist key (c_str level)" "\<not> sublist key (c_str event)"
  shows "\<not> sublist key (line_head ts level event @ log_message key message @ line_tail attempt status seq @ [0x0A])"
proof -
  have n: "str ''ts'' \<in> set field_names" "str ''level'' \<in> set field_names" "str ''event'' \<in> set field_names" "str ''message'' \<in> set field_names"
    by (simp_all add: field_names_def)
  have c: "0x2C \<in> set punct" "0x7B \<in> set punct" by (simp_all add: punct_def str_def)
  note t = line_tail_clear [OF assms(1), of attempt status seq] and m = text_member [OF assms(1)]
  have "log_safe key" using assms(1) by (simp add: line_safe_def)
  then have "clear key (log_message key message @ line_tail attempt status seq @ [0x0A])"
    using m [OF n(4) put_escaped_hides t c(1)] t by (cases message) (simp_all add: log_message_def str_def)
  from m [OF n(1) assms(2) m [OF n(2) assms(3) m [OF n(3) assms(4) this c(1)] c(1)] c(2)]
  have "clear key (line_head ts level event @ log_message key message @ line_tail attempt status seq @ [0x0A])"
    by (simp add: line_head_def str_def)
  then show ?thesis unfolding clear_def by (metis append_Nil empty_subsetI list.set(1))
qed

section \<open>Properties\<close>

text \<open>
  C31: The log does not disclose a key that it can scrub.  Let the key be of fewer than 256 bytes without a NUL and
  \<open>line_safe\<close>: it has no quote, backslash or square bracket, does not start with a byte an escape sequence can end in, has a byte
  other than digits and punctuation, and is not a part of the word \<open>redacted\<close> or of a field name; and let the time stamp, level and event not contain it.  Then
  once the log has been opened with the key, no line that \<open>gw_log\<close> appends contains it, whatever the message; the
  line has the message with every occurrence of the key replaced, escaped, and a JSON reader gets exactly
  the scrubbed message from it.
\<close>

theorem log_redacts:
  assumes "line_safe key" "0 \<notin> set key" "length key < G_SECRET_SIZE"
    and "\<not> sublist key (c_str ts)" "\<not> sublist key (c_str level)" "\<not> sublist key (c_str event)"
    and "unat cap < 2 ^ 63" "length (scrub key (c_str m)) \<le> unat cap"
  shows \<open>\<exists>line rest.
      g_log (gw_log ts level event (Some m) attempt status seq (snd (gw_log_open (Some f) (Some key) st0))) = Some (f @ line) \<and>
      \<not> sublist key line \<and>
      line = line_head ts level event @ str '',"message":'' @ 0x22 # put_escaped key (c_str m) @ 0x22 # rest \<and>
      s_decode_string cap [] (0x22 # put_escaped key (c_str m) @ 0x22 # rest) = Some (scrub key (c_str m), rest)\<close>
proof -
  let ?rest = "line_tail attempt status seq @ [0x0A]"
  have "key \<noteq> []" using assms(1) by (simp add: line_safe_def log_safe_def scrubbable_def)
  then have st: "snd (gw_log_open (Some f) (Some key) st0) = st0\<lparr>g_log := Some f, g_secret := key\<rparr>"
    using assms(2,3) by (simp add: log_open_secret)
  have "s_decode_string cap [] (0x22 # put_escaped key (c_str m) @ 0x22 # r) = Some (scrub key (c_str m), r)" for r
    using gw_json.decode_string_escaped [OF assms(7), of "[]" "scrub key (c_str m)" r] assms(8)
    by (simp add: put_escaped_eq gw_escape_def gw_fit_def)
  then show ?thesis
    using line_clear [OF assms(1,4-6), of "Some m" attempt status seq]
    by (intro exI [of _ "line_head ts level event @ log_message key (Some m) @ ?rest"] exI [of _ ?rest])
      (simp add: st gw_log_line log_message_def str_def)
qed

theorem log_redacts_witness:
  "\<exists>line. g_log (gw_log (str ''2025-01-01T00:00:00Z'') (str ''error'') (str ''oracle_fail'') (Some (str ''key sk-7 refused'')) 2 401 9
       (snd (gw_log_open (Some []) (Some (str ''sk-7'')) \<lparr>g_log = None, g_secret = []\<rparr>))) = Some ([] @ line) \<and>
     \<not> sublist (str ''sk-7'') line \<and> put_escaped (str ''sk-7'') (str ''key sk-7 refused'') = str ''key [redacted] refused''"
proof -
  let ?k = "str ''sk-7''" and ?m = "str ''key sk-7 refused''"
  have "line_safe ?k" by code_simp
  moreover have "0 \<notin> set ?k" "length ?k < G_SECRET_SIZE" by code_simp+
  moreover have "unat (64 :: size_t) < 2 ^ 63" by simp
  moreover have "length (scrub ?k (c_str ?m)) \<le> unat (64 :: size_t)" by code_simp
  moreover have "\<not> sublist ?k (c_str (str ''2025-01-01T00:00:00Z''))" "\<not> sublist ?k (c_str (str ''error''))"
    "\<not> sublist ?k (c_str (str ''oracle_fail''))" by code_simp+
  ultimately have "\<exists>line. g_log (gw_log (str ''2025-01-01T00:00:00Z'') (str ''error'') (str ''oracle_fail'') (Some ?m) 2 401 9
       (snd (gw_log_open (Some []) (Some ?k) \<lparr>g_log = None, g_secret = []\<rparr>))) = Some ([] @ line) \<and> \<not> sublist ?k line"
    using log_redacts [of ?k _ _ _ 64 ?m] by blast
  moreover have "put_escaped ?k ?m = str ''key [redacted] refused''" by code_simp
  ultimately show ?thesis by blast
qed

text \<open>
  One object per line: whatever the message holds, a call appends exactly one
  line, in which no byte below 0x20 occurs before the final LF (provided the
  fixed fields hold none), and a log that is not open is left alone.
\<close>

theorem log_appends_one_line:
  assumes "\<forall>c\<in>set ts \<union> set level \<union> set event. 0x20 \<le> c"
  shows "case g_log st of
      None \<Rightarrow> gw_log ts level event message attempt status seq st = st
    | Some f \<Rightarrow> \<exists>line. gw_log ts level event message attempt status seq st = st\<lparr>g_log := Some (f @ line @ [0x0A])\<rparr> \<and>
        (\<forall>c\<in>set line. 0x20 \<le> c)"
proof (cases "g_log st")
  case None
  then show ?thesis by (simp add: gw_log_def)
next
  case (Some f)
  let ?line = "line_head ts level event @ log_message (g_secret st) message @ line_tail attempt status seq"
  have "\<forall>c\<in>set ?line. 0x20 \<le> c"
    using line_head_printable [OF assms] log_message_printable line_tail_printable by auto
  moreover have "gw_log ts level event message attempt status seq st = st\<lparr>g_log := Some (f @ ?line @ [0x0A])\<rparr>"
    using gw_log_line [OF Some] by simp
  ultimately show ?thesis unfolding Some option.case by blast
qed

theorem log_appends_one_line_witness:
  "\<exists>line. gw_log (str ''t'') (str ''warn'') (str ''fault'') (Some [0x0A, 0x22]) 2 429 7 \<lparr>g_log = Some [], g_secret = []\<rparr> =
     \<lparr>g_log = Some (line @ [0x0A]), g_secret = []\<rparr> \<and> (\<forall>c\<in>set line. 0x20 \<le> c)"
  using log_appends_one_line [of "str ''t''" "str ''warn''" "str ''fault''"
    "Some [0x0A, 0x22]" 2 429 7 "\<lparr>g_log = Some [], g_secret = []\<rparr>"] by (simp add: str_def)

text \<open>
  A key of 256 bytes or more is not stored, so it is not scrubbed: opened with
  such a key of printable bytes, the log shows it in a message that holds it.
\<close>

theorem long_key_is_logged:
  assumes "G_SECRET_SIZE \<le> length key" "\<forall>c\<in>set key. 0x20 \<le> c \<and> c \<noteq> 0x22 \<and> c \<noteq> 0x5C"
  shows "fst (gw_log_open (Some f) (Some key) st) = 0 \<and>
    put_escaped (g_secret (snd (gw_log_open (Some f) (Some key) st))) key = key"
proof -
  have "0 \<notin> set key" using assms(2) by (auto simp: word_le_nat_alt)
  then have "gw_log_open (Some f) (Some key) st = (0, st\<lparr>g_log := Some f, g_secret := []\<rparr>)"
    using assms(1) by (simp add: gw_log_open_def Let_def)
  with plain_put_escaped [OF assms(2)] show ?thesis by simp
qed

theorem long_key_is_logged_witness:
  "put_escaped (g_secret (snd (gw_log_open (Some []) (Some (replicate 256 0x6B)) \<lparr>g_log = None, g_secret = []\<rparr>)))
     (replicate 256 0x6B) = replicate 256 0x6B"
  using long_key_is_logged [of "replicate 256 0x6B" "[]" "\<lparr>g_log = None, g_secret = []\<rparr>"]
  by (simp add: G_SECRET_SIZE_def)

end
