(* ===== verification/GwWal.thy ===== *)
theory GwWal
  imports CText "HOL-Library.Sublist"
begin

text \<open>
  The write-ahead intent, \<open>gateway/src/gw_wal.c\<close>: a small text file that exists
  from before the oracle is called until the observation is in the ledger.

  The file at the path is a value of type \<open>byte list option\<close>, \<open>None\<close> if there is
  none; what the operating system does is an argument (\<open>wal_env\<close>).
\<close>

section \<open>Model\<close>

record gw_intent_t =
  input_hash_hex :: "byte list"
  wi_model_id :: "byte list"
  wi_max_tokens :: i32
  wi_seed :: i64
  temperature_q16 :: i32
  top_p_q16 :: i32

record dir_env =
  de_open_ok :: bool
  de_fsync_ok :: bool

record wal_env =
  we_open_ok :: bool
  we_write :: int
  we_fsync_ok :: bool
  we_dir :: dir_env

definition fsync_parent_dir :: "dir_env \<Rightarrow> byte list \<Rightarrow> int" where
  "fsync_parent_dir env path =
     (if 512 \<le> length (c_str path) then -1
      else if \<not> de_open_ok env then -1
      else if de_fsync_ok env then 0 else -1)"

definition wal_text :: "gw_intent_t \<Rightarrow> byte list" where
  "wal_text i =
     str ''input_hash='' @ c_str (input_hash_hex i) @ [0x0A] @
     str ''model_id='' @ c_str (wi_model_id i) @ [0x0A] @
     str ''max_tokens='' @ dec_int (sint (wi_max_tokens i)) @ [0x0A] @
     str ''seed='' @ dec_int (sint (wi_seed i)) @ [0x0A] @
     str ''temperature_q16='' @ dec_int (sint (temperature_q16 i)) @ [0x0A] @
     str ''top_p_q16='' @ dec_int (sint (top_p_q16 i)) @ [0x0A]"

definition gw_wal_write :: "wal_env \<Rightarrow> byte list \<Rightarrow> gw_intent_t \<Rightarrow> byte list option \<Rightarrow> int \<times> byte list option" where
  "gw_wal_write env path i file =
     (if file \<noteq> None \<or> \<not> we_open_ok env then (-1, file)
      else
        let buf = wal_text i in
        if 768 \<le> length buf then (-1, Some [])
        else if we_write env \<noteq> int (length buf) then (-1, Some (take (nat (we_write env)) buf))
        else if \<not> we_fsync_ok env then (-1, Some buf)
        else (fsync_parent_dir (we_dir env) path, Some buf))"

text \<open>\<open>unlink()\<close> fails if there is no file.\<close>

definition gw_wal_clear :: "bool \<Rightarrow> dir_env \<Rightarrow> byte list \<Rightarrow> byte list option \<Rightarrow> int \<times> byte list option" where
  "gw_wal_clear unlink_ok env path file =
     (if \<not> unlink_ok \<or> file = None then (-1, file)
      else (fsync_parent_dir env path, None))"

text \<open>The value of a \<open>key=value\<close> line, \<open>None\<close> where the C function returns -1.\<close>

definition parse_field :: "byte list \<Rightarrow> byte list \<Rightarrow> nat \<Rightarrow> byte list option" where
  "parse_field line key cap =
     (let kl = length key in
      if take kl line \<noteq> key then None
      else case drop kl line of
        [] \<Rightarrow> None
      | c # v \<Rightarrow>
          if c \<noteq> 0x3D then None
          else if v = [] \<or> cap \<le> length v then None
          else Some v)"

text \<open>One line: the intent and the two bits of \<open>have\<close>.\<close>

definition recover_line :: "byte list \<Rightarrow> gw_intent_t \<times> bool \<times> bool \<Rightarrow> gw_intent_t \<times> bool \<times> bool" where
  "recover_line line s =
     (case s of (i, have1, have2) \<Rightarrow>
      case parse_field line (str ''input_hash'') 65 of Some v \<Rightarrow> (i\<lparr>input_hash_hex := v\<rparr>, True, have2) | None \<Rightarrow>
      case parse_field line (str ''model_id'') 256 of Some v \<Rightarrow> (i\<lparr>wi_model_id := v\<rparr>, have1, True) | None \<Rightarrow>
      case parse_field line (str ''max_tokens'') 64 of Some v \<Rightarrow> (i\<lparr>wi_max_tokens := of_int (strtol_value v)\<rparr>, have1, have2) | None \<Rightarrow>
      case parse_field line (str ''seed'') 64 of Some v \<Rightarrow> (i\<lparr>wi_seed := of_int (strtol_value v)\<rparr>, have1, have2) | None \<Rightarrow>
      case parse_field line (str ''temperature_q16'') 64 of Some v \<Rightarrow> (i\<lparr>temperature_q16 := of_int (strtol_value v)\<rparr>, have1, have2) | None \<Rightarrow>
      case parse_field line (str ''top_p_q16'') 64 of Some v \<Rightarrow> (i\<lparr>top_p_q16 := of_int (strtol_value v)\<rparr>, have1, have2) | None \<Rightarrow>
      (i, have1, have2))"

definition intent_init :: gw_intent_t where
  "intent_init =
     \<lparr>input_hash_hex = [], wi_model_id = [], wi_max_tokens = -1, wi_seed = -1,
      temperature_q16 = AX_PARAMS_NULL_Q16, top_p_q16 = AX_PARAMS_NULL_Q16\<rparr>"

definition gw_wal_recover :: "bool \<Rightarrow> byte list option \<Rightarrow> gw_intent_t \<Rightarrow> int \<times> gw_intent_t" where
  "gw_wal_recover fopen_ok file out =
     (case (if fopen_ok then file else None) of
        None \<Rightarrow> (0, out)
      | Some f \<Rightarrow>
          let (i, have1, have2) =
                foldl (\<lambda>s line. recover_line (chomp line) s) (intent_init, False, False) (fgets_all 600 f)
          in
          if \<not> (have1 \<and> have2) \<or> length (input_hash_hex i) \<noteq> 64 then (-1, i)
          else (1, i))"

section \<open>The text of an intent\<close>

text \<open>An intent as the service builds it: a full hash and a model identifier without control bytes.\<close>

definition intent_ok :: "gw_intent_t \<Rightarrow> bool" where
  "intent_ok i \<longleftrightarrow>
     length (input_hash_hex i) = 64 \<and> (\<forall>c\<in>set (input_hash_hex i). 0x20 \<le> c) \<and>
     wi_model_id i \<noteq> [] \<and> length (wi_model_id i) < 256 \<and> (\<forall>c\<in>set (wi_model_id i). 0x20 \<le> c)"

text \<open>The lines of the text, without their line feeds.\<close>

definition wal_tail :: "gw_intent_t \<Rightarrow> byte list list" where
  "wal_tail i =
     [str ''model_id='' @ wi_model_id i,
      str ''max_tokens='' @ dec_int (sint (wi_max_tokens i)),
      str ''seed='' @ dec_int (sint (wi_seed i)),
      str ''temperature_q16='' @ dec_int (sint (temperature_q16 i)),
      str ''top_p_q16='' @ dec_int (sint (top_p_q16 i))]"

definition wal_head :: "gw_intent_t \<Rightarrow> byte list" where
  "wal_head i = str ''input_hash='' @ input_hash_hex i"

text \<open>A line that is read back as it was written.\<close>

definition plain_line :: "byte list \<Rightarrow> bool" where
  "plain_line l \<longleftrightarrow> l \<noteq> [] \<and> length l < 598 \<and> (\<forall>c\<in>set l. 0x20 \<le> c)"

lemma wal_text_lines:
  assumes "intent_ok i"
  shows "wal_text i = unlines (wal_head i # wal_tail i)"
proof -
  have "0 \<notin> set (input_hash_hex i)" "0 \<notin> set (wi_model_id i)"
    using assms printable_not_ctrl by (auto simp: intent_ok_def)
  then show ?thesis by (simp add: wal_text_def wal_head_def wal_tail_def unlines_def)
qed

lemma fgets_plain_lines:
  assumes "\<forall>l\<in>set ls. plain_line l"
  shows "fgets_all 600 (unlines ls @ r) = map (\<lambda>l. l @ [0x0A]) ls @ fgets_all 600 r"
  using assms printable_not_ctrl by (intro fgets_unlines) (auto simp: plain_line_def)

text \<open>What is left of a text of lines after a cut: complete lines and a part of the next.\<close>

lemma prefix_unlines:
  assumes "prefix p (unlines ls)"
  shows "\<exists>k q. k \<le> length ls \<and> p = unlines (take k ls) @ q \<and> (q = [] \<or> k < length ls \<and> prefix q (ls ! k))"
  using assms
proof (induction ls arbitrary: p)
  case (Cons l ls)
  then have "prefix p (l @ 0x0A # unlines ls)" by (simp add: unlines_def)
  then consider "prefix p l" | p' where "p = l @ 0x0A # p'" "prefix p' (unlines ls)"
    by (auto simp: prefix_append prefix_Cons)
  then show ?case
  proof cases
    case 1
    then show ?thesis by (intro exI [of _ 0] exI [of _ p]) (simp add: unlines_def)
  next
    case 2
    from Cons.IH [OF 2(2)] obtain k q where "k \<le> length ls" "p' = unlines (take k ls) @ q"
      "q = [] \<or> k < length ls \<and> prefix q (ls ! k)" by blast
    with 2(1) show ?thesis by (intro exI [of _ "Suc k"] exI [of _ q]) (simp add: unlines_def)
  qed
qed (simp add: unlines_def)

lemma fgets_cut:
  assumes "\<forall>l\<in>set ls. plain_line l" "k \<le> length ls" "q = [] \<or> k < length ls \<and> prefix q (ls ! k)"
  shows "map chomp (fgets_all 600 (unlines (take k ls) @ q)) = take k ls @ (if q = [] then [] else [q])"
proof -
  have c: "chomp (l @ [0x0A]) = l" if "plain_line l" for l
    using that printable_not_ctrl by (auto simp: plain_line_def intro!: chomp_line)
  have "map (chomp \<circ> (\<lambda>l. l @ [0x0A])) (take k ls) = take k ls"
    using assms(1) c by (intro map_idI) (auto dest: in_set_takeD)
  moreover have "map chomp (fgets_all 600 q) = (if q = [] then [] else [q])"
  proof (cases "q = []")
    case False
    with assms have "plain_line (ls ! k)" "prefix q (ls ! k)" by auto
    then have q: "\<forall>c\<in>set q. 0x20 \<le> c" "length q < 598"
      using set_mono_prefix [of q "ls ! k"] prefix_length_le [of q "ls ! k"] by (auto simp: plain_line_def)
    then have "fgets_all 600 q = [q]" "chomp q = q"
      using False printable_not_ctrl [OF q(1)] by (auto intro: fgets_all_last chomp_line)
    with False show ?thesis by simp
  qed simp
  ultimately show ?thesis
    using assms(1) by (simp add: fgets_plain_lines in_set_takeD [THEN bspec [OF assms(1)]] subset_code)
qed

section \<open>Reading it back\<close>

lemma parse_field_same:
  "parse_field (k @ 0x3D # v) k cap = (if v = [] \<or> cap \<le> length v then None else Some v)"
  by (simp add: parse_field_def)

lemma parse_field_other:
  assumes "0x3D \<notin> set k" "0x3D \<notin> set k'" "k \<noteq> k'"
  shows "parse_field (k @ 0x3D # v) k' cap = None"
proof (rule ccontr)
  assume "parse_field (k @ 0x3D # v) k' cap \<noteq> None"
  then obtain w where "take (length k') (k @ 0x3D # v) = k'" "drop (length k') (k @ 0x3D # v) = 0x3D # w"
    unfolding parse_field_def Let_def by (auto split: list.splits if_splits)
  then have "k @ 0x3D # v = k' @ 0x3D # w" by (metis append_take_drop_id)
  from delimited_unique [OF this assms(1,2)] assms(3) show False by simp
qed

text \<open>The keys, as the first part of a line.\<close>

definition field_line :: "string \<Rightarrow> byte list \<Rightarrow> byte list" where
  "field_line k v = str k @ 0x3D # v"

lemma parse_field_line:
  assumes "CHR ''='' \<notin> set k" "CHR ''='' \<notin> set k'"
  shows "parse_field (field_line k v) (str k') cap =
    (if k = k' \<and> v \<noteq> [] \<and> length v < cap then Some v else None)"
proof -
  have "0x3D \<notin> set (str k)" "0x3D \<notin> set (str k')"
    using assms of_char_in_str [of "CHR ''=''"] by simp_all
  then show ?thesis
    using parse_field_same [of "str k" v cap] parse_field_other [of "str k" "str k'" v cap]
    unfolding field_line_def by (cases "k = k'") auto
qed

lemma recover_field_lines:
  assumes "v \<noteq> []" "length v < 64"
  shows "recover_line (field_line ''max_tokens'' v) (i, a, b) = (i\<lparr>wi_max_tokens := of_int (strtol_value v)\<rparr>, a, b)"
    and "recover_line (field_line ''seed'' v) (i, a, b) = (i\<lparr>wi_seed := of_int (strtol_value v)\<rparr>, a, b)"
    and "recover_line (field_line ''temperature_q16'' v) (i, a, b) = (i\<lparr>temperature_q16 := of_int (strtol_value v)\<rparr>, a, b)"
    and "recover_line (field_line ''top_p_q16'' v) (i, a, b) = (i\<lparr>top_p_q16 := of_int (strtol_value v)\<rparr>, a, b)"
  unfolding recover_line_def using assms by (simp_all add: parse_field_line)

lemma recover_id_lines:
  "v \<noteq> [] \<Longrightarrow> length v < 65 \<Longrightarrow> recover_line (field_line ''input_hash'' v) (i, a, b) = (i\<lparr>input_hash_hex := v\<rparr>, True, b)"
  "v \<noteq> [] \<Longrightarrow> length v < 256 \<Longrightarrow> recover_line (field_line ''model_id'' v) (i, a, b) = (i\<lparr>wi_model_id := v\<rparr>, a, True)"
  unfolding recover_line_def by (simp_all add: parse_field_line)

lemma wal_lines_are_fields:
  "wal_head i = field_line ''input_hash'' (input_hash_hex i)"
  "wal_tail i = [field_line ''model_id'' (wi_model_id i),
     field_line ''max_tokens'' (dec_int (sint (wi_max_tokens i))), field_line ''seed'' (dec_int (sint (wi_seed i))),
     field_line ''temperature_q16'' (dec_int (sint (temperature_q16 i))), field_line ''top_p_q16'' (dec_int (sint (top_p_q16 i)))]"
  by (simp_all add: wal_head_def wal_tail_def field_line_def str_def)

lemmas dec_lengths = order.strict_trans1 [OF length_dec_int32] order.strict_trans1 [OF length_dec_int]

lemma recover_all_lines:
  assumes "intent_ok i"
  shows "foldl (\<lambda>s l. recover_line l s) (intent_init, False, False) (wal_head i # wal_tail i) = (i, True, True)"
proof -
  have "input_hash_hex i \<noteq> []" "length (input_hash_hex i) < 65" "wi_model_id i \<noteq> []" "length (wi_model_id i) < 256"
    using assms by (auto simp: intent_ok_def)
  then show ?thesis unfolding wal_lines_are_fields
    by (simp add: recover_id_lines recover_field_lines dec_lengths strtol_value_dec clamp_sint32 clamp_sint64)
qed

lemma recover_line_keeps_hash:
  assumes "parse_field line (str ''input_hash'') 65 = None"
  shows "\<exists>j b'. recover_line line (i, a, b) = (j, a, b') \<and> input_hash_hex j = input_hash_hex i"
  using assms by (auto simp: recover_line_def split: option.splits)

lemma recover_keeps_hash:
  assumes "\<forall>l\<in>set ls. parse_field l (str ''input_hash'') 65 = None"
  shows "\<exists>j b'. foldl (\<lambda>s l. recover_line l s) (i, a, b) ls = (j, a, b') \<and> input_hash_hex j = input_hash_hex i"
  using assms
proof (induction ls arbitrary: i b)
  case (Cons l ls)
  then obtain j b' where "recover_line l (i, a, b) = (j, a, b')" "input_hash_hex j = input_hash_hex i"
    using recover_line_keeps_hash [of l i a b] by auto
  with Cons.IH [of j b'] Cons.prems show ?case by auto
qed simp

lemma tail_not_hash:
  assumes "l \<in> set (wal_tail i)" "prefix q l"
  shows "parse_field q (str ''input_hash'') 65 = None"
proof -
  have "l \<noteq> [] \<and> hd l \<noteq> 0x69" using assms(1) by (auto simp: wal_tail_def str_def)
  with assms(2) have "q = [] \<or> hd q \<noteq> 0x69" by (cases q) (auto simp: prefix_def)
  then show ?thesis by (cases q) (auto simp: parse_field_def str_def)
qed

lemma wal_lines_plain:
  assumes "intent_ok i" "l \<in> set (wal_head i # wal_tail i)"
  shows "plain_line l"
proof -
  show ?thesis
    using assms length_dec_int32 [of "wi_max_tokens i"] length_dec_int32 [of "temperature_q16 i"]
      length_dec_int32 [of "top_p_q16 i"] length_dec_int [of "wi_seed i"]
    by (auto simp: plain_line_def wal_head_def wal_tail_def intent_ok_def str_def dest: dec_int_printable)
qed

lemma recover_cut:
  assumes "intent_ok i" "prefix p (wal_text i)"
  shows "let (r, j) = gw_wal_recover True (Some p) out in r = -1 \<or> r = 1 \<and> input_hash_hex j = input_hash_hex i"
proof -
  let ?ls = "wal_head i # wal_tail i" and ?step = "\<lambda>s l. recover_line l s"
  obtain k q where kq: "k \<le> length ?ls" "p = unlines (take k ?ls) @ q" "q = [] \<or> k < length ?ls \<and> prefix q (?ls ! k)"
    using prefix_unlines [of p ?ls] assms(2) unfolding wal_text_lines [OF assms(1)] by blast
  let ?ml = "take k ?ls @ (if q = [] then [] else [q])"
  have lines: "map chomp (fgets_all 600 p) = ?ml"
    unfolding kq(2) using wal_lines_plain [OF assms(1)] kq(1,3) by (intro fgets_cut) blast+
  have rec: "gw_wal_recover True (Some p) out =
    (let (j, a, b) = foldl ?step (intent_init, False, False) ?ml in
     if \<not> (a \<and> b) \<or> length (input_hash_hex j) \<noteq> 64 then (-1, j) else (1, j))"
    unfolding lines [symmetric] by (simp add: gw_wal_recover_def foldl_map)
  show ?thesis
  proof (cases k)
    case 0
    with kq(3) have "?ml = [] \<or> (\<exists>q. ?ml = [q] \<and> prefix q (wal_head i))" by auto
    moreover have "\<not> snd (snd (recover_line q (intent_init, False, False)))" if "prefix q (wal_head i)" for q
    proof -
      have "q = [] \<or> hd q = 0x69" using that by (cases q) (auto simp: wal_head_def str_def)
      then have "parse_field q (str ''model_id'') 256 = None" by (cases q) (auto simp: parse_field_def str_def)
      then show ?thesis by (auto simp: recover_line_def split: option.split)
    qed
    ultimately have "\<not> snd (snd (foldl ?step (intent_init, False, False) ?ml))" by (elim disjE exE conjE) simp_all
    then show ?thesis unfolding rec by (simp add: case_prod_beta Let_def)
  next
    case (Suc k')
    let ?rest = "take k' (wal_tail i) @ (if q = [] then [] else [q])"
    have "\<forall>l\<in>set ?rest. parse_field l (str ''input_hash'') 65 = None"
      using tail_not_hash [of _ i] tail_not_hash [OF nth_mem, of k' i q] kq(3) Suc by (auto dest: in_set_takeD)
    from recover_keeps_hash [OF this] obtain j b where
      "foldl ?step (intent_init\<lparr>input_hash_hex := input_hash_hex i\<rparr>, True, False) ?rest = (j, True, b)"
      "input_hash_hex j = input_hash_hex i" by fastforce
    moreover have "recover_line (wal_head i) (intent_init, False, False) = (intent_init\<lparr>input_hash_hex := input_hash_hex i\<rparr>, True, False)"
      unfolding wal_lines_are_fields using assms(1) by (intro recover_id_lines) (auto simp: intent_ok_def)
    ultimately show ?thesis unfolding rec by (simp add: Suc Let_def)
  qed
qed

lemma recover_whole:
  assumes "intent_ok i"
  shows "gw_wal_recover True (Some (wal_text i)) out = (1, i)"
proof -
  let ?ls = "wal_head i # wal_tail i"
  have "map chomp (fgets_all 600 (unlines (take (length ?ls) ?ls) @ [])) = take (length ?ls) ?ls @ (if [] = ([] :: byte list) then [] else [[]])"
    using wal_lines_plain [OF assms] by (intro fgets_cut) blast+
  then have "map chomp (fgets_all 600 (wal_text i)) = ?ls" by (simp add: wal_text_lines [OF assms])
  then have "foldl (\<lambda>s line. recover_line (chomp line) s) (intent_init, False, False) (fgets_all 600 (wal_text i)) = (i, True, True)"
    using recover_all_lines [OF assms] foldl_map [of "\<lambda>s l. recover_line l s" _ chomp "fgets_all 600 (wal_text i)"] by simp
  with assms show ?thesis by (simp add: gw_wal_recover_def intent_ok_def)
qed

lemma length_wal_text:
  assumes "intent_ok i"
  shows "length (wal_text i) < 768"
proof -
  have "length (dec_int (sint (w :: i32))) \<le> 21" "length (dec_int (sint (v :: i64))) \<le> 21" for v w
    using length_dec_int32 [of w] length_dec_int [of v] by simp_all
  from this(1) [of "wi_max_tokens i"] this(1) [of "temperature_q16 i"] this(1) [of "top_p_q16 i"] this(2) [of "wi_seed i"]
  show ?thesis using assms by (simp add: wal_text_lines unlines_def wal_head_def wal_tail_def intent_ok_def)
qed

section \<open>Properties\<close>

text \<open>
  C27: The intent survives: for a full hash and a printable model identifier
  \<open>gw_wal_write\<close> succeeds exactly if no intent is open and every call to the
  operating system succeeds (the text always fits the buffer), and then
  \<open>gw_wal_recover\<close> returns 1 with exactly the intent that was written.
\<close>

theorem wal_roundtrip:
  assumes "intent_ok i"
  shows "(fst (gw_wal_write env path i file) = 0 \<longleftrightarrow>
      file = None \<and> we_open_ok env \<and> we_write env = int (length (wal_text i)) \<and> we_fsync_ok env \<and>
      fsync_parent_dir (we_dir env) path = 0) \<and>
    (fst (gw_wal_write env path i file) = 0 \<longrightarrow> gw_wal_recover True (snd (gw_wal_write env path i file)) out = (1, i))"
  using length_wal_text [OF assms] recover_whole [OF assms, of out]
  by (auto simp: gw_wal_write_def Let_def)

definition sample_intent :: gw_intent_t where
  "sample_intent = \<lparr>input_hash_hex = replicate 64 0x61, wi_model_id = str ''m-1'', wi_max_tokens = 1024, wi_seed = -1,
     temperature_q16 = 0, top_p_q16 = AX_PARAMS_NULL_Q16\<rparr>"

definition calm_wal :: "gw_intent_t \<Rightarrow> wal_env" where
  "calm_wal i = \<lparr>we_open_ok = True, we_write = int (length (wal_text i)), we_fsync_ok = True,
     we_dir = \<lparr>de_open_ok = True, de_fsync_ok = True\<rparr>\<rparr>"

lemma sample_intent_ok: "intent_ok sample_intent"
  by (simp add: intent_ok_def sample_intent_def str_def)

theorem wal_roundtrip_witness:
  "gw_wal_recover True (snd (gw_wal_write (calm_wal sample_intent) (str ''/w'') sample_intent None)) intent_init = (1, sample_intent)"
  using wal_roundtrip [OF sample_intent_ok, of "calm_wal sample_intent" "str ''/w''" None intent_init]
  by (simp add: calm_wal_def fsync_parent_dir_def str_def)

text \<open>
  C28: A torn intent is never mistaken for another: whatever the operating system
  does during \<open>gw_wal_write\<close>, the file it leaves is a prefix of the intent's
  text, and from any such prefix \<open>gw_wal_recover\<close> returns -1 (the service
  refuses to start) or the input hash that was being written.
\<close>

theorem torn_intent_safe:
  assumes "intent_ok i"
  shows "(\<exists>p. snd (gw_wal_write env path i None) = (if we_open_ok env then Some p else None) \<and> prefix p (wal_text i)) \<and>
    (\<forall>p. prefix p (wal_text i) \<longrightarrow>
      (let (r, j) = gw_wal_recover True (Some p) out in r = -1 \<or> r = 1 \<and> input_hash_hex j = input_hash_hex i))"
  using recover_cut [OF assms] by (auto simp: gw_wal_write_def Let_def take_is_prefix)

theorem torn_intent_safe_witness:
  "let (r, j) = gw_wal_recover True (Some (take 100 (wal_text sample_intent))) intent_init in
     r = -1 \<or> r = 1 \<and> input_hash_hex j = replicate 64 0x61"
  using torn_intent_safe [OF sample_intent_ok, of "calm_wal sample_intent" "str ''/w''" intent_init] take_is_prefix [of 100 "wal_text sample_intent"]
  by (auto simp: sample_intent_def)

end
