(* ===== verification/GwConfig.thy ===== *)
theory GwConfig
  imports Obs CText
begin

text \<open>
  The gateway's configuration, \<open>gateway/src/gw_config.c\<close>: a file of
  \<open>key = value\<close> lines, read fail-closed.

  The character arrays of \<open>gw_config_t\<close> are the C strings they hold, \<open>long\<close>
  members are integers, \<open>raw\<close> with \<open>raw_len\<close> is one list.  The file is a list of
  bytes, \<open>None\<close> if it cannot be opened.  Messages to \<open>stderr\<close> are not modelled.
\<close>

section \<open>Model\<close>

definition GW_PATH_MAX :: nat where "GW_PATH_MAX = 512"
definition GW_ID_MAX :: nat where "GW_ID_MAX = 256"
definition GW_CONFIG_MAX :: nat where "GW_CONFIG_MAX = 8192"
definition GW_VERSION_MAX :: nat where "GW_VERSION_MAX = 64"

lemmas gw_limits = GW_PATH_MAX_def GW_ID_MAX_def GW_CONFIG_MAX_def GW_VERSION_MAX_def

record gw_config_t =
  socket_path :: "byte list"
  ledger_path :: "byte list"
  wal_path :: "byte list"
  log_path :: "byte list"
  api_url :: "byte list"
  anthropic_version :: "byte list"
  cfg_model_id :: "byte list"
  cfg_oracle_id :: "byte list"
  connect_timeout_s :: int
  response_timeout_s :: int
  max_attempts :: int
  max_response_bytes :: int
  call_budget :: int
  default_max_tokens :: int
  max_prompt_bytes :: int
  fixture_capture_path :: "byte list"
  export_path :: "byte list"
  raw :: "byte list"

text \<open>The setters: the value stored, or \<open>None\<close> where they return -1.\<close>

definition set_str :: "nat \<Rightarrow> byte list \<Rightarrow> byte list option" where
  "set_str cap v = (if v = [] \<or> cap \<le> length v then None else Some v)"

definition set_id :: "nat \<Rightarrow> nat \<Rightarrow> byte list \<Rightarrow> byte list option" where
  "set_id cap ax_max v =
     (let rc = ax_obs_identifier_check (Some v) (of_nat ax_max) in
      if rc = AX_ERR_SIZE then None
      else if rc \<noteq> AX_OK then None
      else if cap \<le> length v then None
      else set_str cap v)"

fun has_control :: "byte list \<Rightarrow> bool" where
  "has_control [] = False"
| "has_control (c # v) = (if c < 0x20 \<or> c = 0x7F then True else has_control v)"

definition set_header_value :: "nat \<Rightarrow> byte list \<Rightarrow> byte list option" where
  "set_header_value cap v = (if has_control v then None else set_str cap v)"

definition set_long :: "byte list \<Rightarrow> int \<Rightarrow> int \<Rightarrow> int option" where
  "set_long v lo hi =
     (case strtol v of
        None \<Rightarrow> None
      | Some (x, rest) \<Rightarrow> if rest \<noteq> [] \<or> x < lo \<or> hi < x then None else Some x)"

text \<open>The assignment a key and a value stand for.\<close>

definition config_set :: "byte list \<Rightarrow> byte list \<Rightarrow> gw_config_t \<Rightarrow> gw_config_t option" where
  "config_set key val cfg =
     (if key = str ''socket_path'' then map_option (\<lambda>v. cfg\<lparr>socket_path := v\<rparr>) (set_str GW_PATH_MAX val)
      else if key = str ''ledger_path'' then map_option (\<lambda>v. cfg\<lparr>ledger_path := v\<rparr>) (set_str GW_PATH_MAX val)
      else if key = str ''wal_path'' then map_option (\<lambda>v. cfg\<lparr>wal_path := v\<rparr>) (set_str GW_PATH_MAX val)
      else if key = str ''log_path'' then map_option (\<lambda>v. cfg\<lparr>log_path := v\<rparr>) (set_str GW_PATH_MAX val)
      else if key = str ''api_url'' then map_option (\<lambda>v. cfg\<lparr>api_url := v\<rparr>) (set_str GW_PATH_MAX val)
      else if key = str ''anthropic_version'' then
        map_option (\<lambda>v. cfg\<lparr>anthropic_version := v\<rparr>) (set_header_value GW_VERSION_MAX val)
      else if key = str ''model_id'' then
        map_option (\<lambda>v. cfg\<lparr>cfg_model_id := v\<rparr>) (set_id GW_ID_MAX AX_MAX_MODEL_ID_BYTES val)
      else if key = str ''oracle_id'' then
        map_option (\<lambda>v. cfg\<lparr>cfg_oracle_id := v\<rparr>) (set_id GW_ID_MAX AX_MAX_ORACLE_ID_BYTES val)
      else if key = str ''fixture_capture_path'' then map_option (\<lambda>v. cfg\<lparr>fixture_capture_path := v\<rparr>) (set_str GW_PATH_MAX val)
      else if key = str ''export_path'' then map_option (\<lambda>v. cfg\<lparr>export_path := v\<rparr>) (set_str GW_PATH_MAX val)
      else if key = str ''connect_timeout_s'' then map_option (\<lambda>x. cfg\<lparr>connect_timeout_s := x\<rparr>) (set_long val 1 600)
      else if key = str ''response_timeout_s'' then map_option (\<lambda>x. cfg\<lparr>response_timeout_s := x\<rparr>) (set_long val 1 3600)
      else if key = str ''max_attempts'' then map_option (\<lambda>x. cfg\<lparr>max_attempts := x\<rparr>) (set_long val 1 10)
      else if key = str ''max_response_bytes'' then
        map_option (\<lambda>x. cfg\<lparr>max_response_bytes := x\<rparr>) (set_long val 1024 (64 * 1024 * 1024))
      else if key = str ''call_budget'' then map_option (\<lambda>x. cfg\<lparr>call_budget := x\<rparr>) (set_long val 0 1000000)
      else if key = str ''default_max_tokens'' then map_option (\<lambda>x. cfg\<lparr>default_max_tokens := x\<rparr>) (set_long val 1 200000)
      else if key = str ''max_prompt_bytes'' then map_option (\<lambda>x. cfg\<lparr>max_prompt_bytes := x\<rparr>) (set_long val 1 (1024 * 1024))
      else None)"

definition is_blank :: "byte \<Rightarrow> bool" where
  "is_blank c \<longleftrightarrow> c = 0x20 \<or> c = 0x09"

text \<open>What a line stands for: nothing, an assignment, or an error.\<close>

datatype config_line = Skip | Assign "byte list" "byte list" | Malformed

definition parse_line :: "byte list \<Rightarrow> config_line" where
  "parse_line line =
     (let key = dropWhile is_blank (chomp line) in
      if key = [] \<or> hd key = 0x23 then Skip
      else if 0x3D \<notin> set key then Malformed
      else
        let name = takeWhile (\<lambda>c. c \<noteq> 0x3D) key;
            val = tl (dropWhile (\<lambda>c. c \<noteq> 0x3D) key)
        in Assign (rev (dropWhile is_blank (rev name))) (dropWhile is_blank val))"

fun config_loop :: "byte list list \<Rightarrow> gw_config_t \<Rightarrow> int \<times> gw_config_t" where
  "config_loop [] cfg = (0, cfg)"
| "config_loop (line # lines) cfg =
     (case parse_line line of
        Skip \<Rightarrow> config_loop lines cfg
      | Malformed \<Rightarrow> (-1, cfg)
      | Assign key val \<Rightarrow>
          (case config_set key val cfg of None \<Rightarrow> (-1, cfg) | Some cfg' \<Rightarrow> config_loop lines cfg'))"

definition config_defaults :: gw_config_t where
  "config_defaults =
     \<lparr>socket_path = [], ledger_path = [], wal_path = [], log_path = [],
      api_url = str ''https://api.anthropic.com/v1/messages'', anthropic_version = str ''2023-06-01'',
      cfg_model_id = [], cfg_oracle_id = str ''anthropic-messages-api'',
      connect_timeout_s = 10, response_timeout_s = 300, max_attempts = 3,
      max_response_bytes = 4 * 1024 * 1024, call_budget = 25, default_max_tokens = 1024, max_prompt_bytes = 32768,
      fixture_capture_path = [], export_path = [], raw = []\<rparr>"

definition gw_config_load :: "byte list option \<Rightarrow> int \<times> gw_config_t" where
  "gw_config_load file =
     (let cfg = config_defaults in
      case file of
        None \<Rightarrow> (-1, cfg)
      | Some f \<Rightarrow>
          let cfg = cfg\<lparr>raw := take GW_CONFIG_MAX f\<rparr> in
          if GW_CONFIG_MAX < length f then (-1, cfg)
          else if 0 \<in> set (raw cfg) then (-1, cfg)
          else
            let (rc, cfg) = config_loop (fgets_all 1024 f) cfg in
            if rc \<noteq> 0 then (rc, cfg)
            else if socket_path cfg = [] \<or> ledger_path cfg = [] \<or> wal_path cfg = [] \<or> log_path cfg = [] \<or>
                    cfg_model_id cfg = [] then (-1, cfg)
            else (0, cfg))"

section \<open>What is accepted\<close>

text \<open>The invariant of the members while the file is read; those without a default may still be empty.\<close>

definition path_ok :: "byte list \<Rightarrow> bool" where
  "path_ok v \<longleftrightarrow> length v < GW_PATH_MAX \<and> 0 \<notin> set v"

definition ident_ok :: "byte list \<Rightarrow> bool" where
  "ident_ok v \<longleftrightarrow> id_text v \<and> length v < GW_ID_MAX \<and> 0 \<notin> set v"

definition config_inv :: "gw_config_t \<Rightarrow> bool" where
  "config_inv c \<longleftrightarrow>
     path_ok (socket_path c) \<and> path_ok (ledger_path c) \<and> path_ok (wal_path c) \<and> path_ok (log_path c) \<and>
     path_ok (api_url c) \<and> api_url c \<noteq> [] \<and> path_ok (fixture_capture_path c) \<and> path_ok (export_path c) \<and>
     anthropic_version c \<noteq> [] \<and> length (anthropic_version c) < GW_VERSION_MAX \<and> \<not> has_control (anthropic_version c) \<and>
     (cfg_model_id c = [] \<or> ident_ok (cfg_model_id c)) \<and> ident_ok (cfg_oracle_id c) \<and>
     connect_timeout_s c \<in> {1..600} \<and> response_timeout_s c \<in> {1..3600} \<and> max_attempts c \<in> {1..10} \<and>
     max_response_bytes c \<in> {1024..64 * 1024 * 1024} \<and> call_budget c \<in> {0..1000000} \<and>
     default_max_tokens c \<in> {1..200000} \<and> max_prompt_bytes c \<in> {1..1024 * 1024}"

lemma set_str_ok: "set_str cap v = Some w \<Longrightarrow> w = v \<and> v \<noteq> [] \<and> length v < cap"
  by (auto simp: set_str_def split: if_splits)

lemma set_long_ok: "set_long v lo hi = Some x \<Longrightarrow> x \<in> {lo..hi}"
  by (auto simp: set_long_def split: option.splits if_splits)

lemma set_id_ok:
  assumes "set_id cap 256 v = Some w" "0 \<notin> set v"
  shows "w = v \<and> id_text v \<and> length v < cap"
proof -
  from assms have "ax_obs_identifier_check (Some v) 256 = AX_OK" "length v < cap" "w = v"
    by (auto simp: set_id_def set_str_def Let_def split: if_splits)
  with assms(2) show ?thesis
    by (auto simp: ax_obs_identifier_check_def id_well_formed_iff opt_text_def err_not_ok split: if_splits)
qed

lemma if_assign:
  "(if b then map_option f x else y) = Some z \<longleftrightarrow> b \<and> (\<exists>v. x = Some v \<and> z = f v) \<or> \<not> b \<and> y = Some z"
  by auto

lemma set_header_value_ok:
  "set_header_value cap v = Some w \<Longrightarrow> w = v \<and> v \<noteq> [] \<and> length v < cap \<and> \<not> has_control v"
  using set_str_ok by (fastforce simp: set_header_value_def split: if_splits)

lemma config_inv_path:
  assumes "config_inv c" "set_str GW_PATH_MAX val = Some v" "0 \<notin> set val"
  shows "config_inv (c\<lparr>socket_path := v\<rparr>)" "config_inv (c\<lparr>ledger_path := v\<rparr>)" "config_inv (c\<lparr>wal_path := v\<rparr>)"
    "config_inv (c\<lparr>log_path := v\<rparr>)" "config_inv (c\<lparr>api_url := v\<rparr>)" "config_inv (c\<lparr>fixture_capture_path := v\<rparr>)"
    "config_inv (c\<lparr>export_path := v\<rparr>)"
  using assms set_str_ok [OF assms(2)] by (simp_all add: config_inv_def path_ok_def)

lemma config_inv_text:
  assumes "config_inv c" "0 \<notin> set val"
  shows "set_header_value GW_VERSION_MAX val = Some v \<Longrightarrow> config_inv (c\<lparr>anthropic_version := v\<rparr>)"
    "set_id GW_ID_MAX AX_MAX_MODEL_ID_BYTES val = Some v \<Longrightarrow> config_inv (c\<lparr>cfg_model_id := v\<rparr>)"
    "set_id GW_ID_MAX AX_MAX_ORACLE_ID_BYTES val = Some v \<Longrightarrow> config_inv (c\<lparr>cfg_oracle_id := v\<rparr>)"
  using assms by (auto simp: config_inv_def ident_ok_def AX_MAX_MODEL_ID_BYTES_def AX_MAX_ORACLE_ID_BYTES_def
      dest: set_header_value_ok set_id_ok)

lemma config_inv_long:
  assumes "config_inv c"
  shows "set_long val 1 600 = Some x \<Longrightarrow> config_inv (c\<lparr>connect_timeout_s := x\<rparr>)"
    "set_long val 1 3600 = Some x \<Longrightarrow> config_inv (c\<lparr>response_timeout_s := x\<rparr>)"
    "set_long val 1 10 = Some x \<Longrightarrow> config_inv (c\<lparr>max_attempts := x\<rparr>)"
    "set_long val 1024 (64 * 1024 * 1024) = Some x \<Longrightarrow> config_inv (c\<lparr>max_response_bytes := x\<rparr>)"
    "set_long val 0 1000000 = Some x \<Longrightarrow> config_inv (c\<lparr>call_budget := x\<rparr>)"
    "set_long val 1 200000 = Some x \<Longrightarrow> config_inv (c\<lparr>default_max_tokens := x\<rparr>)"
    "set_long val 1 (1024 * 1024) = Some x \<Longrightarrow> config_inv (c\<lparr>max_prompt_bytes := x\<rparr>)"
  using assms by (simp_all add: config_inv_def set_long_ok [of val, simplified])

lemma config_set_inv:
  assumes "config_inv c" "0 \<notin> set val" "config_set key val c = Some c'"
  shows "config_inv c' \<and> raw c' = raw c"
proof -
  from assms(3) have "config_inv c'"
    unfolding config_set_def if_assign
    by (elim disjE exE conjE)
      (simp_all only: config_inv_path [OF assms(1) _ assms(2)] config_inv_text [OF assms(1,2)] config_inv_long [OF assms(1)]
        option.distinct)
  moreover from assms(3) have "raw c' = raw c"
    unfolding config_set_def if_assign by (elim disjE exE conjE) simp_all
  ultimately show ?thesis ..
qed

definition config_keys :: "string list" where
  "config_keys =
     [''socket_path'', ''ledger_path'', ''wal_path'', ''log_path'', ''api_url'', ''anthropic_version'', ''model_id'',
      ''oracle_id'', ''fixture_capture_path'', ''export_path'', ''connect_timeout_s'', ''response_timeout_s'',
      ''max_attempts'', ''max_response_bytes'', ''call_budget'', ''default_max_tokens'', ''max_prompt_bytes'']"

lemma config_set_known:
  assumes "config_set key val c = Some c'"
  shows "\<exists>k\<in>set config_keys. key = str k"
  using assms unfolding config_set_def if_assign config_keys_def by (elim disjE exE conjE) simp_all

lemma parse_line_no_nul:
  assumes "parse_line line = Assign key val"
  shows "0 \<notin> set val"
proof -
  have c: "set (dropWhile P xs) \<subseteq> set xs" for P and xs :: "byte list" using set_dropWhileD by fastforce
  have "set (chomp line) \<subseteq> set (c_str line)" unfolding chomp_def using c by (metis set_rev)
  moreover have "val = dropWhile is_blank (tl (dropWhile (\<lambda>c. c \<noteq> 0x3D) (dropWhile is_blank (chomp line))))"
    using assms by (auto simp: parse_line_def Let_def split: if_splits)
  moreover have "set (tl xs) \<subseteq> set xs" for xs :: "byte list" by (cases xs) auto
  ultimately have "set val \<subseteq> set (c_str line)" using c by (metis (no_types, lifting) order.trans)
  then show ?thesis using zero_notin_c_str [of line] by blast
qed

text \<open>A line the loader accepts: blank, a comment, or the assignment of a known key.\<close>

definition line_ok :: "byte list \<Rightarrow> bool" where
  "line_ok line \<longleftrightarrow>
     (case parse_line line of Skip \<Rightarrow> True | Malformed \<Rightarrow> False | Assign key val \<Rightarrow> \<exists>k\<in>set config_keys. key = str k)"

lemma config_loop_inv:
  assumes "config_loop ls c = (0, c')" "config_inv c"
  shows "config_inv c' \<and> raw c' = raw c \<and> (\<forall>l\<in>set ls. line_ok l)"
  using assms
proof (induction ls arbitrary: c)
  case (Cons l ls)
  show ?case
  proof (cases "parse_line l")
    case Skip
    with Cons show ?thesis by (auto simp: line_ok_def)
  next
    case (Assign key val)
    with Cons.prems(1) obtain d where d: "config_set key val c = Some d" "config_loop ls d = (0, c')"
      by (auto split: option.splits)
    then have "config_inv d \<and> raw d = raw c"
      using config_set_inv [OF Cons.prems(2) parse_line_no_nul [OF Assign]] by blast
    with Cons.IH [OF d(2)] config_set_known [OF d(1)] Assign show ?thesis by (auto simp: line_ok_def)
  qed (use Cons in simp)
qed simp

lemma config_loop_rc: "fst (config_loop ls c) = 0 \<or> fst (config_loop ls c) = -1"
  by (induction ls c rule: config_loop.induct) (auto split: config_line.splits option.splits)

lemma defaults_inv: "config_inv (config_defaults\<lparr>raw := r\<rparr>)"
proof -
  have "id_is_well_formed (Some (str ''anthropic-messages-api''))" by code_simp
  then have "id_text (str ''anthropic-messages-api'')" unfolding id_well_formed_iff by (simp add: opt_text_def)
  moreover have "\<not> has_control (str ''2023-06-01'')" by code_simp
  ultimately show ?thesis
    by (simp add: config_inv_def config_defaults_def path_ok_def ident_ok_def gw_limits) (simp add: str_def)
qed

lemma load_accepted:
  assumes "gw_config_load (Some f) = (0, c)"
  shows "length f \<le> GW_CONFIG_MAX \<and> 0 \<notin> set f \<and> raw c = f \<and>
    config_loop (fgets_all 1024 f) (config_defaults\<lparr>raw := f\<rparr>) = (0, c) \<and>
    socket_path c \<noteq> [] \<and> ledger_path c \<noteq> [] \<and> wal_path c \<noteq> [] \<and> log_path c \<noteq> [] \<and> cfg_model_id c \<noteq> []"
proof -
  have l: "length f \<le> GW_CONFIG_MAX"
    using assms by (auto simp: gw_config_load_def Let_def split: if_splits)
  then have "0 \<notin> set f" "config_loop (fgets_all 1024 f) (config_defaults\<lparr>raw := f\<rparr>) = (0, c)"
    "socket_path c \<noteq> [] \<and> ledger_path c \<noteq> [] \<and> wal_path c \<noteq> [] \<and> log_path c \<noteq> [] \<and> cfg_model_id c \<noteq> []"
    using assms by (auto simp: gw_config_load_def Let_def split: if_splits prod.splits)
  with l config_loop_inv [OF this(2) defaults_inv] show ?thesis by simp
qed

section \<open>Printing and reading back\<close>

lemma parse_line_assign:
  assumes "\<forall>c\<in>set (str k @ v). 0x20 \<le> c" "k \<noteq> []" "CHR ''='' \<notin> set k" "hd (str k) \<noteq> 0x23"
    "\<forall>c\<in>set (str k). \<not> is_blank c" "v = [] \<or> \<not> is_blank (hd v)"
  shows "parse_line (str k @ 0x3D # v @ [0x0A]) = Assign (str k) v"
proof -
  have n: "0x3D \<notin> set (str k)" using assms(3) of_char_in_str [of "CHR ''=''" k] by simp
  have "\<forall>c\<in>set (str k @ 0x3D # v). 0x20 \<le> c" using assms(1) by auto
  then have "chomp ((str k @ 0x3D # v) @ [0x0A]) = str k @ 0x3D # v"
    using printable_not_ctrl by (intro chomp_line) blast+
  moreover have "str k \<noteq> []" using assms(2) by (simp add: str_def)
  then have "\<not> is_blank (hd (str k @ 0x3D # v))" "\<not> is_blank (hd (rev (str k)))"
    using assms(5) by (simp_all add: hd_rev)
  then have "dropWhile is_blank (str k @ 0x3D # v) = str k @ 0x3D # v" "rev (dropWhile is_blank (rev (str k))) = str k"
    by (simp_all add: dropWhile_eq_self_iff [THEN iffD2])
  moreover have "takeWhile (\<lambda>c. c \<noteq> 0x3D) (str k @ 0x3D # v) = str k" "dropWhile (\<lambda>c. c \<noteq> 0x3D) (str k @ 0x3D # v) = 0x3D # v"
    using n by (auto simp: takeWhile_append dropWhile_append)
  moreover have "dropWhile is_blank v = v" using assms(6) by (cases v) auto
  moreover have "hd (str k @ 0x3D # v) \<noteq> 0x23" using assms(2,4) by (cases "str k") (auto simp: str_def)
  ultimately show ?thesis by (simp add: parse_line_def Let_def)
qed

lemma config_set_keys:
  "config_set (str ''socket_path'') v c = map_option (\<lambda>v. c\<lparr>socket_path := v\<rparr>) (set_str GW_PATH_MAX v)"
  "config_set (str ''ledger_path'') v c = map_option (\<lambda>v. c\<lparr>ledger_path := v\<rparr>) (set_str GW_PATH_MAX v)"
  "config_set (str ''wal_path'') v c = map_option (\<lambda>v. c\<lparr>wal_path := v\<rparr>) (set_str GW_PATH_MAX v)"
  "config_set (str ''log_path'') v c = map_option (\<lambda>v. c\<lparr>log_path := v\<rparr>) (set_str GW_PATH_MAX v)"
  "config_set (str ''api_url'') v c = map_option (\<lambda>v. c\<lparr>api_url := v\<rparr>) (set_str GW_PATH_MAX v)"
  "config_set (str ''anthropic_version'') v c = map_option (\<lambda>v. c\<lparr>anthropic_version := v\<rparr>) (set_header_value GW_VERSION_MAX v)"
  "config_set (str ''model_id'') v c = map_option (\<lambda>v. c\<lparr>cfg_model_id := v\<rparr>) (set_id GW_ID_MAX AX_MAX_MODEL_ID_BYTES v)"
  "config_set (str ''oracle_id'') v c = map_option (\<lambda>v. c\<lparr>cfg_oracle_id := v\<rparr>) (set_id GW_ID_MAX AX_MAX_ORACLE_ID_BYTES v)"
  "config_set (str ''fixture_capture_path'') v c = map_option (\<lambda>v. c\<lparr>fixture_capture_path := v\<rparr>) (set_str GW_PATH_MAX v)"
  "config_set (str ''export_path'') v c = map_option (\<lambda>v. c\<lparr>export_path := v\<rparr>) (set_str GW_PATH_MAX v)"
  "config_set (str ''connect_timeout_s'') v c = map_option (\<lambda>x. c\<lparr>connect_timeout_s := x\<rparr>) (set_long v 1 600)"
  "config_set (str ''response_timeout_s'') v c = map_option (\<lambda>x. c\<lparr>response_timeout_s := x\<rparr>) (set_long v 1 3600)"
  "config_set (str ''max_attempts'') v c = map_option (\<lambda>x. c\<lparr>max_attempts := x\<rparr>) (set_long v 1 10)"
  "config_set (str ''max_response_bytes'') v c = map_option (\<lambda>x. c\<lparr>max_response_bytes := x\<rparr>) (set_long v 1024 (64 * 1024 * 1024))"
  "config_set (str ''call_budget'') v c = map_option (\<lambda>x. c\<lparr>call_budget := x\<rparr>) (set_long v 0 1000000)"
  "config_set (str ''default_max_tokens'') v c = map_option (\<lambda>x. c\<lparr>default_max_tokens := x\<rparr>) (set_long v 1 200000)"
  "config_set (str ''max_prompt_bytes'') v c = map_option (\<lambda>x. c\<lparr>max_prompt_bytes := x\<rparr>) (set_long v 1 (1024 * 1024))"
  unfolding config_set_def by simp_all

lemma set_long_dec:
  assumes "x \<in> {lo..hi}" "- (2 ^ 63) \<le> lo" "hi < 2 ^ 63"
  shows "set_long (dec_int x) lo hi = Some x"
proof -
  have "clamp_long x = x" using assms by (simp add: clamp_long_def)
  with strtol_dec [of "[]" x] assms(1) show ?thesis by (simp add: set_long_def)
qed

lemma set_id_ident:
  assumes "ident_ok v"
  shows "set_id GW_ID_MAX 256 v = Some v"
proof -
  have "v \<noteq> []" "length v < 256" "id_text v" "0 \<notin> set v"
    using assms by (auto simp: ident_ok_def id_text_def gw_limits)
  then show ?thesis
    by (simp add: set_id_def Let_def ax_obs_identifier_check_def id_too_long_iff id_well_formed_iff opt_text_def
        set_str_def gw_limits AX_OK_def AX_ERR_SIZE_def)
qed

text \<open>The file that states every member, the optional ones if they are set.\<close>

definition assign :: "string \<Rightarrow> byte list \<Rightarrow> byte list" where
  "assign k v = str k @ 0x3D # v"

definition config_assigns :: "gw_config_t \<Rightarrow> (string \<times> byte list) list" where
  "config_assigns c =
     [(''socket_path'', socket_path c), (''ledger_path'', ledger_path c), (''wal_path'', wal_path c),
      (''log_path'', log_path c), (''api_url'', api_url c), (''anthropic_version'', anthropic_version c),
      (''model_id'', cfg_model_id c), (''oracle_id'', cfg_oracle_id c),
      (''connect_timeout_s'', dec_int (connect_timeout_s c)), (''response_timeout_s'', dec_int (response_timeout_s c)),
      (''max_attempts'', dec_int (max_attempts c)), (''max_response_bytes'', dec_int (max_response_bytes c)),
      (''call_budget'', dec_int (call_budget c)), (''default_max_tokens'', dec_int (default_max_tokens c)),
      (''max_prompt_bytes'', dec_int (max_prompt_bytes c))] @
     (if fixture_capture_path c = [] then [] else [(''fixture_capture_path'', fixture_capture_path c)]) @
     (if export_path c = [] then [] else [(''export_path'', export_path c)])"

definition config_lines :: "gw_config_t \<Rightarrow> byte list list" where
  "config_lines c = map (\<lambda>(k, v). assign k v) (config_assigns c)"

definition value_ok :: "byte list \<Rightarrow> bool" where
  "value_ok v \<longleftrightarrow> (\<forall>c\<in>set v. 0x20 \<le> c) \<and> (v = [] \<or> \<not> is_blank (hd v))"

definition printable_config :: "gw_config_t \<Rightarrow> bool" where
  "printable_config c \<longleftrightarrow> config_inv c \<and>
     socket_path c \<noteq> [] \<and> ledger_path c \<noteq> [] \<and> wal_path c \<noteq> [] \<and> log_path c \<noteq> [] \<and> cfg_model_id c \<noteq> [] \<and>
     (\<forall>v\<in>{socket_path c, ledger_path c, wal_path c, log_path c, api_url c, anthropic_version c, cfg_model_id c,
          cfg_oracle_id c, fixture_capture_path c, export_path c}. value_ok v)"

lemma value_ok_dec: "value_ok (dec_int x)"
proof -
  have "is_digit (hd (dec n))" for n using dec_are_digits [of n] by (cases "dec n") auto
  then have "\<not> is_blank (hd (dec n))" for n
    using digit_not_sign [of "hd (dec n)"] by (auto simp: is_blank_def is_space_def word_le_nat_alt)
  then have "\<not> is_blank (hd (dec_int x))" by (auto simp: dec_int_def is_blank_def)
  then show ?thesis using dec_int_printable [of _ x] by (simp add: value_ok_def)
qed

definition plain_key :: "string \<Rightarrow> bool" where
  "plain_key k \<longleftrightarrow> k \<noteq> [] \<and> CHR ''='' \<notin> set k \<and> hd (str k) \<noteq> 0x23 \<and> (\<forall>c\<in>set (str k). 0x20 \<le> c \<and> \<not> is_blank c)"

lemma keys_plain: "k \<in> set config_keys \<Longrightarrow> plain_key k"
proof -
  have "list_all plain_key config_keys" by (simp add: config_keys_def plain_key_def is_blank_def str_def)
  then show "k \<in> set config_keys \<Longrightarrow> plain_key k" by (simp add: list_all_iff)
qed

lemma parse_assign:
  assumes "k \<in> set config_keys" "value_ok v"
  shows "parse_line (assign k v @ [0x0A]) = Assign (str k) v"
  using parse_line_assign [of k v] keys_plain [OF assms(1)] assms(2)
  by (auto simp: plain_key_def value_ok_def assign_def)

lemma config_loop_assign:
  assumes "k \<in> set config_keys" "value_ok v"
  shows "config_loop ((assign k v @ [0x0A]) # ls) c =
    (case config_set (str k) v c of None \<Rightarrow> (-1, c) | Some c' \<Rightarrow> config_loop ls c')"
  using parse_assign [OF assms] by simp

lemma load_prints_back:
  assumes "printable_config c"
  shows "config_loop (map (\<lambda>l. l @ [0x0A]) (config_lines c)) (config_defaults\<lparr>raw := r\<rparr>) = (0, c\<lparr>raw := r\<rparr>)"
proof -
  have v: "value_ok (socket_path c)" "value_ok (ledger_path c)" "value_ok (wal_path c)" "value_ok (log_path c)"
    "value_ok (api_url c)" "value_ok (anthropic_version c)" "value_ok (cfg_model_id c)" "value_ok (cfg_oracle_id c)"
    "value_ok (fixture_capture_path c)" "value_ok (export_path c)"
    using assms by (auto simp: printable_config_def)
  have inv: "config_inv c" using assms by (simp add: printable_config_def)
  have s: "set_str GW_PATH_MAX (socket_path c) = Some (socket_path c)" "set_str GW_PATH_MAX (ledger_path c) = Some (ledger_path c)"
    "set_str GW_PATH_MAX (wal_path c) = Some (wal_path c)" "set_str GW_PATH_MAX (log_path c) = Some (log_path c)"
    "set_str GW_PATH_MAX (api_url c) = Some (api_url c)"
    "fixture_capture_path c \<noteq> [] \<Longrightarrow> set_str GW_PATH_MAX (fixture_capture_path c) = Some (fixture_capture_path c)"
    "export_path c \<noteq> [] \<Longrightarrow> set_str GW_PATH_MAX (export_path c) = Some (export_path c)"
    "set_header_value GW_VERSION_MAX (anthropic_version c) = Some (anthropic_version c)"
    using assms by (auto simp: printable_config_def config_inv_def path_ok_def set_str_def set_header_value_def)
  have i: "set_id GW_ID_MAX AX_MAX_MODEL_ID_BYTES (cfg_model_id c) = Some (cfg_model_id c)"
    "set_id GW_ID_MAX AX_MAX_ORACLE_ID_BYTES (cfg_oracle_id c) = Some (cfg_oracle_id c)"
    using assms by (auto simp: printable_config_def config_inv_def AX_MAX_MODEL_ID_BYTES_def AX_MAX_ORACLE_ID_BYTES_def
        intro!: set_id_ident)
  have l: "set_long (dec_int (connect_timeout_s c)) 1 600 = Some (connect_timeout_s c)"
    "set_long (dec_int (response_timeout_s c)) 1 3600 = Some (response_timeout_s c)"
    "set_long (dec_int (max_attempts c)) 1 10 = Some (max_attempts c)"
    "set_long (dec_int (max_response_bytes c)) 1024 (64 * 1024 * 1024) = Some (max_response_bytes c)"
    "set_long (dec_int (call_budget c)) 0 1000000 = Some (call_budget c)"
    "set_long (dec_int (default_max_tokens c)) 1 200000 = Some (default_max_tokens c)"
    "set_long (dec_int (max_prompt_bytes c)) 1 (1024 * 1024) = Some (max_prompt_bytes c)"
    using inv by (auto simp: config_inv_def intro!: set_long_dec)
  have loop: "config_loop (map (\<lambda>l. l @ [0x0A]) (config_lines c)) d =
    (0, d\<lparr>socket_path := socket_path c, ledger_path := ledger_path c, wal_path := wal_path c, log_path := log_path c,
      api_url := api_url c, anthropic_version := anthropic_version c, cfg_model_id := cfg_model_id c,
      cfg_oracle_id := cfg_oracle_id c, connect_timeout_s := connect_timeout_s c, response_timeout_s := response_timeout_s c,
      max_attempts := max_attempts c, max_response_bytes := max_response_bytes c, call_budget := call_budget c,
      default_max_tokens := default_max_tokens c, max_prompt_bytes := max_prompt_bytes c,
      fixture_capture_path := (if fixture_capture_path c = [] then fixture_capture_path d else fixture_capture_path c),
      export_path := (if export_path c = [] then export_path d else export_path c)\<rparr>)" for d
    unfolding config_lines_def config_assigns_def
    by (simp add: config_loop_assign config_keys_def v value_ok_dec config_set_keys s i l l(4,7) [simplified] del: config_loop.simps(2))
  show ?thesis unfolding loop by (simp add: config_defaults_def)
qed

lemma length_dec_int_small: "x \<in> {0..<10 ^ 9} \<Longrightarrow> length (dec_int x) \<le> 9"
proof -
  assume x: "x \<in> {0..<10 ^ 9}"
  then have "nat x < 10 ^ Suc 8" by (simp add: nat_less_iff)
  then have "length (dec (nat x)) \<le> Suc 8" by (rule length_dec)
  with x show ?thesis by (simp add: dec_int_def)
qed

lemma config_assigns_ok:
  assumes "printable_config c"
  shows "list_all (\<lambda>(k, v). k \<in> set config_keys \<and> value_ok v \<and> length v < 512) (config_assigns c)"
proof -
  have inv: "config_inv c" using assms by (simp add: printable_config_def)
  then have "length (dec_int (connect_timeout_s c)) \<le> 9" "length (dec_int (response_timeout_s c)) \<le> 9"
    "length (dec_int (max_attempts c)) \<le> 9" "length (dec_int (max_response_bytes c)) \<le> 9"
    "length (dec_int (call_budget c)) \<le> 9" "length (dec_int (default_max_tokens c)) \<le> 9" "length (dec_int (max_prompt_bytes c)) \<le> 9"
    by (auto simp: config_inv_def intro!: length_dec_int_small)
  moreover have "length (socket_path c) < 512" "length (ledger_path c) < 512" "length (wal_path c) < 512" "length (log_path c) < 512"
    "length (api_url c) < 512" "length (anthropic_version c) < 512" "length (cfg_model_id c) < 512" "length (cfg_oracle_id c) < 512"
    "length (fixture_capture_path c) < 512" "length (export_path c) < 512"
    using inv by (auto simp: config_inv_def path_ok_def ident_ok_def gw_limits)
  ultimately show ?thesis
    using assms by (simp add: config_assigns_def config_keys_def printable_config_def value_ok_dec)
qed

lemma config_line_shape:
  assumes "printable_config c" "l \<in> set (config_lines c)"
  shows "(\<forall>b\<in>set l. 0x20 \<le> b) \<and> Suc (length l) < 1024"
proof -
  obtain k v where l: "l = assign k v" "k \<in> set config_keys" "value_ok v" "length v < 512"
    using config_assigns_ok [OF assms(1)] assms(2) by (auto simp: config_lines_def list_all_iff)
  have "plain_key k" using keys_plain l(2) by blast
  moreover have "length k \<le> 20" using l(2) by (auto simp: config_keys_def)
  ultimately show ?thesis using l by (auto simp: assign_def plain_key_def value_ok_def)
qed

lemma config_text_no_nul:
  assumes "printable_config c"
  shows "0 \<notin> set (unlines (config_lines c))"
proof -
  have "0 \<notin> set l" if "l \<in> set (config_lines c)" for l
    using config_line_shape [OF assms that] printable_not_ctrl by blast
  then show ?thesis by (auto simp: unlines_def)
qed

lemma fgets_config_lines:
  assumes "printable_config c"
  shows "fgets_all 1024 (unlines (config_lines c)) = map (\<lambda>l. l @ [0x0A]) (config_lines c)"
  using fgets_unlines [of "config_lines c" 1024 "[]"] config_line_shape [OF assms] printable_not_ctrl by fastforce

lemma load_printed:
  assumes "printable_config c" "length (unlines (config_lines c)) \<le> GW_CONFIG_MAX"
  shows "gw_config_load (Some (unlines (config_lines c))) = (0, c\<lparr>raw := unlines (config_lines c)\<rparr>)"
  using assms(1) load_prints_back [OF assms(1)]
  by (simp add: gw_config_load_def Let_def assms(2) not_less config_text_no_nul [OF assms(1)] fgets_config_lines [OF assms(1)]
      printable_config_def)

section \<open>Properties\<close>

text \<open>
  C29: The configuration is read fail-closed: if \<open>gw_config_load\<close> returns 0, the file
  holds at most 8192 bytes and no NUL, every line is blank, a comment or the
  assignment of a known key, the required members are set, paths fit their
  buffers, both identifiers pass the check admission applies to them, the
  version can be sent as a header value, every number is within its range, and
  \<open>raw\<close> is the file.
\<close>

theorem config_accepted:
  assumes "gw_config_load (Some f) = (0, c)"
  shows "length f \<le> GW_CONFIG_MAX \<and> 0 \<notin> set f \<and> raw c = f \<and> config_inv c \<and>
    socket_path c \<noteq> [] \<and> ledger_path c \<noteq> [] \<and> wal_path c \<noteq> [] \<and> log_path c \<noteq> [] \<and>
    ax_obs_identifier_check (Some (cfg_model_id c)) (of_nat AX_MAX_MODEL_ID_BYTES) = AX_OK \<and>
    ax_obs_identifier_check (Some (cfg_oracle_id c)) (of_nat AX_MAX_ORACLE_ID_BYTES) = AX_OK \<and>
    (\<forall>l\<in>set (fgets_all 1024 f). line_ok l)"
proof -
  note a = load_accepted [OF assms]
  then have inv: "config_inv c" "\<forall>l\<in>set (fgets_all 1024 f). line_ok l"
    using config_loop_inv [OF _ defaults_inv, of "fgets_all 1024 f" f c] by auto
  then have "ident_ok (cfg_model_id c)" "ident_ok (cfg_oracle_id c)" using a by (auto simp: config_inv_def)
  then have "ax_obs_identifier_check (Some v) 256 = AX_OK" if "v = cfg_model_id c \<or> v = cfg_oracle_id c" for v
    using that by (auto simp: ident_ok_def ax_obs_identifier_check_def id_too_long_iff id_well_formed_iff opt_text_def gw_limits)
  with a inv show ?thesis by (simp add: AX_MAX_MODEL_ID_BYTES_def AX_MAX_ORACLE_ID_BYTES_def)
qed

definition sample_config :: gw_config_t where
  "sample_config = config_defaults\<lparr>socket_path := str ''/s'', ledger_path := str ''/l'', wal_path := str ''/w'',
     log_path := str ''/o'', cfg_model_id := str ''m-1'', call_budget := 2\<rparr>"

lemma sample_config_printable: "printable_config sample_config"
proof -
  have "id_is_well_formed (Some (str ''m-1''))" by code_simp
  then have "id_text (str ''m-1'')" unfolding id_well_formed_iff by (simp add: opt_text_def)
  then have "config_inv sample_config"
    using defaults_inv [of "[]"]
    by (simp add: sample_config_def config_inv_def path_ok_def ident_ok_def gw_limits config_defaults_def) (simp add: str_def)
  then show ?thesis
    by (simp add: printable_config_def sample_config_def config_defaults_def value_ok_def is_blank_def str_def)
qed

text \<open>
  Round trip: the file that states every member of an acceptable configuration
  is loaded as exactly that configuration, with the file itself as \<open>raw\<close>.
\<close>

theorem config_roundtrip:
  assumes "printable_config c" "length (unlines (config_lines c)) \<le> GW_CONFIG_MAX"
  shows "gw_config_load (Some (unlines (config_lines c))) = (0, c\<lparr>raw := unlines (config_lines c)\<rparr>)"
  using assms by (rule load_printed)

lemma sample_config_short: "length (unlines (config_lines sample_config)) \<le> GW_CONFIG_MAX"
  by (simp add: unlines_def config_lines_def config_assigns_def assign_def sample_config_def config_defaults_def gw_limits
      dec_int_def dec.simps)

theorem config_accepted_witness:
  "\<exists>f c. gw_config_load (Some f) = (0, c) \<and> config_inv c \<and> call_budget c = 2"
proof -
  have l: "gw_config_load (Some (unlines (config_lines sample_config))) = (0, sample_config\<lparr>raw := unlines (config_lines sample_config)\<rparr>)"
    using sample_config_printable sample_config_short by (rule load_printed)
  have "call_budget (sample_config\<lparr>raw := r\<rparr>) = 2" for r by (simp add: sample_config_def)
  with l config_accepted [OF l] show ?thesis by blast
qed

text \<open>
  A line of 1023 bytes or more is read in pieces, each of which counts as a
  line: what follows the first 1023 bytes of a comment is taken as an assignment.
\<close>

theorem long_comment_assigns:
  assumes "length c = 1022" "\<forall>b\<in>set c. 0x20 \<le> b" "k \<in> set config_keys" "value_ok v" "length v < 512"
  shows "config_loop (fgets_all 1024 (0x23 # c @ assign k v @ [0x0A])) cfg =
    (case config_set (str k) v cfg of None \<Rightarrow> (-1, cfg) | Some cfg' \<Rightarrow> (0, cfg'))"
proof -
  have c: "\<forall>b\<in>set (0x23 # c). 0x20 \<le> b" using assms(2) by simp
  have "fgets_loop (length (0x23 # c)) ((0x23 # c) @ assign k v @ [0x0A]) = (0x23 # c, assign k v @ [0x0A])"
    using printable_not_ctrl [OF c] by (intro fgets_loop_full) simp
  then have "fgets_all 1024 (0x23 # c @ assign k v @ [0x0A]) = (0x23 # c) # fgets_all 1024 (assign k v @ [0x0A])"
    using assms(1) by (subst fgets_all.simps) simp
  moreover have "parse_line (0x23 # c) = Skip"
    using chomp_line(2) [of "0x23 # c"] printable_not_ctrl [OF c] by (simp add: parse_line_def is_blank_def)
  moreover have "fgets_all 1024 (assign k v @ [0x0A]) = [assign k v @ [0x0A]]"
  proof -
    have k: "plain_key k" "length k \<le> 20" using keys_plain [OF assms(3)] assms(3) by (auto simp: config_keys_def)
    then have "\<forall>b\<in>set (assign k v). 0x20 \<le> b" "length (assign k v) < 533"
      using assms(4,5) by (auto simp: plain_key_def value_ok_def assign_def)
    then show ?thesis using fgets_all_line [of "assign k v" 1024 "[]"] printable_not_ctrl [of "assign k v"] by simp
  qed
  ultimately show ?thesis
    using config_loop_assign [OF assms(3,4), of "[]" cfg] by (simp split: option.split del: config_loop.simps(2) add: config_loop.simps(2) [of "0x23 # c"])
qed

theorem long_comment_assigns_witness:
  "config_loop (fgets_all 1024 (0x23 # replicate 1022 0x78 @ assign ''call_budget'' (str ''9'') @ [0x0A])) config_defaults =
     (0, config_defaults\<lparr>call_budget := 9\<rparr>)"
proof -
  have "value_ok (str ''9'')" "set_long (str ''9'') 0 1000000 = Some 9" by code_simp+
  then show ?thesis
    using long_comment_assigns [of "replicate 1022 0x78" "''call_budget''" "str ''9''" config_defaults]
    by (simp add: config_keys_def config_set_keys)
qed

end
