(* ===== verification/GwClient.thy ===== *)
theory GwClient
  imports GwConfig
begin

text \<open>
  The client of the oracle, \<open>gateway/src/gw_client.c\<close>: one HTTP call with bounded
  retries.

  libcurl is outside the sources.  What it does in one attempt is a value of type
  \<open>curl_attempt\<close>: whether the handle, the header list and the protocol
  restriction were set up, the headers and the pieces of the body it hands to the
  callbacks, the code \<open>curl_easy_perform\<close> returns, the HTTP status and the error
  text, and the value of \<open>rand()\<close>.  \<open>curl_env\<close> gives one such value for every attempt of
  every request (URL, header lines, body and time limits).  The pauses asked for between attempts are
  a result of the model.  \<open>None\<close> is undefined behaviour: a read past the end of a header line.
\<close>

section \<open>Model: callbacks\<close>

datatype curl_code = CURLE_OK | CURLE_WRITE_ERROR | CURLE_OPERATION_TIMEDOUT | CURLE_OTHER nat

record body_t =
  body_buf :: "byte list option"
  body_cap :: nat
  overcap :: bool

definition body_len :: "body_t \<Rightarrow> nat" where
  "body_len b = (case body_buf b of None \<Rightarrow> 0 | Some d \<Rightarrow> length d)"

text \<open>The number of bytes \<open>on_body\<close> returns and the body; \<open>alloc_ok\<close> is the success of \<open>realloc()\<close>.\<close>

definition on_body :: "bool \<Rightarrow> byte list \<Rightarrow> body_t \<Rightarrow> nat \<times> body_t" where
  "on_body alloc_ok piece b =
     (let n = length piece in
      if body_cap b < body_len b + n then (0, b\<lparr>overcap := True\<rparr>)
      else if \<not> alloc_ok then (0, b)
      else (n, b\<lparr>body_buf := Some ((case body_buf b of None \<Rightarrow> [] | Some d \<Rightarrow> d) @ piece)\<rparr>))"

definition to_lower :: "byte \<Rightarrow> byte" where
  "to_lower c = (if 0x41 \<le> c \<and> c \<le> 0x5A then c + 0x20 else c)"

text \<open>
  \<open>strtol()\<close> on bytes that no NUL follows: the blanks, the sign and the digits it reads end before the
  bytes do.
\<close>

definition strtol_stops :: "byte list \<Rightarrow> bool" where
  "strtol_stops s \<longleftrightarrow> dropWhile is_digit (snd (strtol_sign (dropWhile is_space s))) \<noteq> []"

text \<open>
  \<open>retry_after_s\<close> after a header line.  libcurl hands over the bytes of the line with their number and does not promise
  a NUL after them; \<open>None\<close> if \<open>strtol()\<close> reads on behind the line.
\<close>

definition on_header :: "byte list \<Rightarrow> int \<Rightarrow> int option" where
  "on_header line retry_after_s =
     (if 12 < length line \<and> map to_lower (take 12 line) = str ''retry-after:'' then
        if strtol_stops (drop 12 line) then
          let v = strtol_value (drop 12 line) in Some (if 0 < v \<and> v \<le> 3600 then v else retry_after_s)
        else None
      else Some retry_after_s)"

datatype curl_event = Header "byte list" | Piece bool "byte list"

text \<open>The callbacks of one transfer, in order; libcurl stops at the first piece that is not taken whole.\<close>

fun run_events :: "curl_event list \<Rightarrow> body_t \<Rightarrow> int \<Rightarrow> (body_t \<times> int) option" where
  "run_events [] b r = Some (b, r)"
| "run_events (Header h # es) b r = do { r \<leftarrow> on_header h r; run_events es b r }"
| "run_events (Piece ok p # es) b r =
     (case on_body ok p b of (n, b') \<Rightarrow> if n \<noteq> length p then Some (b', r) else run_events es b' r)"

text \<open>
  The milliseconds \<open>backoff_sleep\<close> asks \<open>nanosleep()\<close> for; it ignores the result, so a signal may end the pause early.
\<close>

definition backoff_ms :: "int \<Rightarrow> int \<Rightarrow> int \<Rightarrow> int" where
  "backoff_ms attempt retry_after_s rnd =
     (let ms = (if 0 < retry_after_s then retry_after_s * 1000 else 1000 * 2 ^ nat (attempt - 1) + rnd mod 500)
      in if 60000 < ms then 60000 else ms)"

section \<open>Model: the call\<close>

record curl_attempt =
  ca_init_ok :: bool
  ca_headers_ok :: bool
  ca_proto_ok :: bool
  ca_events :: "curl_event list"
  ca_rc :: curl_code
  ca_status :: int
  ca_err :: "byte list"
  ca_rand :: int

record curl_request =
  cq_url :: "byte list"
  cq_headers :: "byte list list"
  cq_body :: "byte list"
  cq_connect_timeout :: int
  cq_timeout :: int

record curl_env =
  attempt_of :: "curl_request \<Rightarrow> int \<Rightarrow> curl_attempt"
  easy_strerror :: "curl_code \<Rightarrow> byte list"

datatype gwc_outcome_t = GWC_OK | GWC_HTTP_FAIL | GWC_TIMEOUT | GWC_TRANSPORT | GWC_OVERCAP

record gwc_result_t =
  outcome :: gwc_outcome_t
  http_status :: int
  attempts :: int
  res_body :: "byte list option"
  errbuf :: "byte list"

definition result_init :: gwc_result_t where
  "result_init = \<lparr>outcome = GWC_OK, http_status = 0, attempts = 0, res_body = None, errbuf = []\<rparr>"

text \<open>\<open>snprintf(dst, cap, "%s", s)\<close>: at most \<open>cap - 1\<close> bytes.\<close>

definition cut :: "nat \<Rightarrow> byte list \<Rightarrow> byte list" where
  "cut cap s = take (cap - 1) (c_str s)"

definition request_headers :: "gw_config_t \<Rightarrow> byte list \<Rightarrow> byte list list" where
  "request_headers cfg api_key =
     [str ''content-type: application/json'', cut 512 (str ''x-api-key: '' @ c_str api_key),
      cut 128 (str ''anthropic-version: '' @ anthropic_version cfg)]"

definition easy_options :: "gw_config_t \<Rightarrow> byte list \<Rightarrow> byte list \<Rightarrow> curl_request" where
  "easy_options cfg api_key request_json =
     \<lparr>cq_url = api_url cfg, cq_headers = request_headers cfg api_key, cq_body = request_json,
      cq_connect_timeout = connect_timeout_s cfg, cq_timeout = response_timeout_s cfg\<rparr>"

definition http_error_text :: "int \<Rightarrow> body_t \<Rightarrow> byte list" where
  "http_error_text status b =
     cut 512 (str ''HTTP '' @ dec_int status @ (if 0 < body_len b then str '': '' else []) @
       c_str (take 400 (case body_buf b of None \<Rightarrow> [] | Some d \<Rightarrow> d)))"

definition curl_error_text :: "curl_env \<Rightarrow> curl_attempt \<Rightarrow> byte list" where
  "curl_error_text E w = cut 512 (if c_str (ca_err w) \<noteq> [] then ca_err w else easy_strerror E (ca_rc w))"

text \<open>One pass of the loop: \<open>Inl\<close> a return with its code, \<open>Inr\<close> another attempt after a pause.\<close>

definition gwc_attempt ::
    "curl_env \<Rightarrow> gw_config_t \<Rightarrow> curl_request \<Rightarrow> int \<Rightarrow> gwc_result_t \<Rightarrow> ((int \<times> gwc_result_t) + (gwc_result_t \<times> int)) option" where
  "gwc_attempt E cfg q attempt res =
     (let w = attempt_of E q attempt;
          res = res\<lparr>attempts := attempt\<rparr>
      in
      if \<not> ca_init_ok w then Some (Inl (-1, res))
      else if \<not> ca_headers_ok w then Some (Inl (-1, res))
      else if \<not> ca_proto_ok w then
        Some (Inl (0, res\<lparr>outcome := GWC_TRANSPORT, errbuf := str ''libcurl cannot restrict protocols to http,https''\<rparr>))
      else do {
        (body, retry_after_s) \<leftarrow> run_events (ca_events w) \<lparr>body_buf = None, body_cap = nat (max_response_bytes cfg), overcap = False\<rparr> 0;
        let rc = ca_rc w;
        let status = ca_status w;
        let res = res\<lparr>http_status := status\<rparr>;
        Some
          (if rc = CURLE_OPERATION_TIMEDOUT then Inl (0, res\<lparr>outcome := GWC_TIMEOUT, errbuf := curl_error_text E w\<rparr>)
           else if rc = CURLE_WRITE_ERROR \<and> overcap body then
             Inl (0, res\<lparr>outcome := GWC_OVERCAP,
                         errbuf := str ''response exceeded '' @ dec_int (max_response_bytes cfg) @ str '' bytes''\<rparr>)
           else if rc \<noteq> CURLE_OK then Inl (0, res\<lparr>outcome := GWC_TRANSPORT, errbuf := curl_error_text E w\<rparr>)
           else if status = 200 then Inl (0, res\<lparr>outcome := GWC_OK, res_body := body_buf body\<rparr>)
           else if (status = 429 \<or> 500 \<le> status \<and> status < 600) \<and> attempt < max_attempts cfg then
             Inr (res\<lparr>errbuf := http_error_text status body\<rparr>, backoff_ms attempt retry_after_s (ca_rand w))
           else Inl (0, res\<lparr>outcome := GWC_HTTP_FAIL, errbuf := http_error_text status body, res_body := body_buf body\<rparr>))
      })"

text \<open>Return code, result and the pauses that were asked for.\<close>

function gwc_loop :: "curl_env \<Rightarrow> gw_config_t \<Rightarrow> curl_request \<Rightarrow> int \<Rightarrow> gwc_result_t \<Rightarrow> (int \<times> gwc_result_t \<times> int list) option" where
  "gwc_loop E cfg q attempt res =
     (if attempt \<le> max_attempts cfg then
        do {
          x \<leftarrow> gwc_attempt E cfg q attempt res;
          case x of
            Inl (rc, res) \<Rightarrow> Some (rc, res, [])
          | Inr (res, ms) \<Rightarrow> do { (rc, res, ps) \<leftarrow> gwc_loop E cfg q (attempt + 1) res; Some (rc, res, ms # ps) }
        }
      else Some (0, res\<lparr>outcome := GWC_HTTP_FAIL\<rparr>, []))"
  by pat_completeness auto
termination
  by (relation "measure (\<lambda>(_, cfg, _, a, _). nat (max_attempts cfg + 1 - a))") auto

declare gwc_loop.simps [simp del]

definition gwc_call :: "curl_env \<Rightarrow> gw_config_t \<Rightarrow> byte list \<Rightarrow> byte list \<Rightarrow> (int \<times> gwc_result_t \<times> int list) option" where
  "gwc_call E cfg api_key request_json = gwc_loop E cfg (easy_options cfg api_key request_json) 1 result_init"

definition gwc_result_free :: "gwc_result_t \<Rightarrow> gwc_result_t" where
  "gwc_result_free res = res\<lparr>res_body := None\<rparr>"

text \<open>
  \<open>gwc_url_check\<close>: whether libcurl initialises, makes a URL handle and accepts the
  URL, and the scheme it reports, if any.
\<close>

definition gwc_url_check :: "bool \<Rightarrow> bool \<Rightarrow> bool \<Rightarrow> byte list option \<Rightarrow> int" where
  "gwc_url_check init_ok handle_ok accepted scheme =
     (if \<not> init_ok then -1
      else if \<not> handle_ok then -1
      else if \<not> accepted then -1
      else if scheme = Some (str ''http'') \<or> scheme = Some (str ''https'') then 0 else -1)"

section \<open>The response body is bounded\<close>

lemma on_body_bounded:
  assumes "on_body ok p b = (n, b')" "body_len b \<le> body_cap b"
  shows "body_len b' \<le> body_cap b' \<and> body_cap b' = body_cap b"
  using assms by (auto simp: on_body_def body_len_def Let_def split: if_splits option.splits)

lemma run_events_bounded:
  assumes "run_events es b r = Some (b', r')" "body_len b \<le> body_cap b"
  shows "body_len b' \<le> body_cap b"
  using assms
proof (induction es b r rule: run_events.induct)
  case (3 ok p es b r)
  obtain n b1 where b1: "on_body ok p b = (n, b1)" by (cases "on_body ok p b")
  note on_body_bounded [OF b1 "3.prems"(2)]
  with 3 b1 show ?case by (cases "n = length p") auto
qed (auto split: bind_splits)

section \<open>Retries\<close>

text \<open>Attempts that are made again: a completed transfer with status 429 or 5xx.\<close>

definition retryable :: "curl_attempt \<Rightarrow> bool" where
  "retryable w \<longleftrightarrow> ca_init_ok w \<and> ca_headers_ok w \<and> ca_proto_ok w \<and> ca_rc w = CURLE_OK \<and>
     (ca_status w = 429 \<or> 500 \<le> ca_status w \<and> ca_status w < 600)"

lemma attempt_again:
  assumes "gwc_attempt E cfg q a r = Some (Inr (r', ms))"
  shows "retryable (attempt_of E q a) \<and> a < max_attempts cfg \<and> res_body r' = res_body r \<and>
    (\<exists>k x. ms = backoff_ms a k x)"
  using assms by (fastforce simp: gwc_attempt_def retryable_def Let_def split: if_splits bind_splits)

lemma attempt_final:
  assumes "gwc_attempt E cfg q a r = Some (Inl (rc, r'))"
  shows "attempts r' = a \<and> (rc = 0 \<or> rc = -1) \<and> (retryable (attempt_of E q a) \<longrightarrow> max_attempts cfg \<le> a)"
  using assms by (auto simp: gwc_attempt_def retryable_def Let_def split: if_splits bind_splits)

lemma attempt_body:
  assumes "gwc_attempt E cfg q a r = Some (Inl (rc, r'))" "res_body r = None" "res_body r' = Some d"
  shows "length d \<le> nat (max_response_bytes cfg)"
proof -
  let ?b = "\<lparr>body_buf = None, body_cap = nat (max_response_bytes cfg), overcap = False\<rparr>"
  obtain b k where b: "run_events (ca_events (attempt_of E q a)) ?b 0 = Some (b, k)" and "body_buf b = Some d"
    using assms by (auto simp: gwc_attempt_def Let_def split: if_splits bind_splits)
  with run_events_bounded [OF b] show ?thesis by (auto simp: body_len_def)
qed

lemma loop_policy:
  assumes "gwc_loop E cfg q a r = Some (rc, r', ps)" "a \<le> max_attempts cfg" "res_body r = None"
  shows "\<exists>l r0. a \<le> l \<and> l \<le> max_attempts cfg \<and> (\<forall>j\<in>{a..<l}. retryable (attempt_of E q j)) \<and> res_body r0 = None \<and>
    gwc_attempt E cfg q l r0 = Some (Inl (rc, r')) \<and> length ps = nat (l - a) \<and>
    (\<forall>i<length ps. \<exists>k x. ps ! i = backoff_ms (a + int i) k x)"
  using assms
proof (induction E cfg q a r arbitrary: ps rule: gwc_loop.induct)
  case (1 E cfg q a r)
  show ?case
  proof (cases "\<exists>x. gwc_attempt E cfg q a r = Some (Inl x)")
    case True
    with 1 show ?thesis by (intro exI [of _ a] exI [of _ r]) (auto simp: gwc_loop.simps split: prod.splits)
  next
    case False
    with "1.prems"(1,2) obtain r1 ms where y: "gwc_attempt E cfg q a r = Some (Inr (r1, ms))"
      by (auto simp: gwc_loop.simps [of E cfg q a r] split: bind_splits sum.splits)
    note again = attempt_again [OF y]
    obtain ps' where ps': "gwc_loop E cfg q (a + 1) r1 = Some (rc, r', ps')" "ps = ms # ps'"
      using "1.prems"(1,2) y by (auto simp: gwc_loop.simps [of E cfg q a r] split: bind_splits)
    from "1.IH" [OF "1.prems"(2) y refl refl ps'(1)] again "1.prems"(3) obtain l r0 where
      l: "a + 1 \<le> l" "l \<le> max_attempts cfg" "\<forall>j\<in>{a + 1..<l}. retryable (attempt_of E q j)" "res_body r0 = None"
        "gwc_attempt E cfg q l r0 = Some (Inl (rc, r'))" "length ps' = nat (l - (a + 1))"
        "\<forall>i<length ps'. \<exists>k x. ps' ! i = backoff_ms (a + 1 + int i) k x" by auto
    have "\<forall>j\<in>{a..<l}. retryable (attempt_of E q j)" using l(3) again by (metis atLeastLessThan_iff le_less zless_add1_eq not_le)
    moreover have "\<exists>k x. ps ! i = backoff_ms (a + int i) k x" if "i < length ps" for i
      using that l(7) again ps'(2) by (cases i) (auto simp: ac_simps)
    ultimately show ?thesis using l ps'(2) by (intro exI [of _ l] exI [of _ r0]) auto
  qed
qed

lemma backoff_bounds:
  assumes "1 \<le> a"
  shows "1000 \<le> backoff_ms a k x \<and> backoff_ms a k x \<le> 60000"
proof -
  have "(1 :: int) \<le> 2 ^ nat (a - 1)" by simp
  then have "1000 \<le> 1000 * 2 ^ nat (a - 1) + x mod 500" using pos_mod_sign [of 500 x] by linarith
  then show ?thesis by (auto simp: backoff_ms_def Let_def)
qed

lemma call_policy:
  fixes E :: curl_env and cfg :: gw_config_t and key body :: "byte list"
  assumes "gwc_call E cfg key body = Some (rc, res, ps)" "1 \<le> max_attempts cfg"
  defines "q \<equiv> easy_options cfg key body"
  shows "attempts res \<in> {1..max_attempts cfg} \<and> (\<forall>j\<in>{1..<attempts res}. retryable (attempt_of E q j)) \<and>
    (retryable (attempt_of E q (attempts res)) \<longrightarrow> attempts res = max_attempts cfg) \<and>
    length ps = nat (attempts res - 1) \<and> (\<forall>p\<in>set ps. 1000 \<le> p \<and> p \<le> 60000) \<and> (rc = 0 \<or> rc = -1) \<and>
    (\<exists>r0. res_body r0 = None \<and> gwc_attempt E cfg q (attempts res) r0 = Some (Inl (rc, res)))"
proof -
  have "res_body result_init = None" by (simp add: result_init_def)
  from loop_policy [OF assms(1) [unfolded gwc_call_def, folded q_def] assms(2) this] obtain l r0 where
    l: "1 \<le> l" "l \<le> max_attempts cfg" "\<forall>j\<in>{1..<l}. retryable (attempt_of E q j)" "res_body r0 = None"
      "gwc_attempt E cfg q l r0 = Some (Inl (rc, res))" "length ps = nat (l - 1)"
      "\<forall>i<length ps. \<exists>k x. ps ! i = backoff_ms (1 + int i) k x" by blast
  have "1000 \<le> p \<and> p \<le> 60000" if "p \<in> set ps" for p
    using that l(7) backoff_bounds [of "1 + int _"] by (metis in_set_conv_nth le_add_same_cancel1 of_nat_0_le_iff)
  with l attempt_final [OF l(5)] show ?thesis by auto
qed

text \<open>The callbacks took every piece, and what they were given.\<close>

fun all_taken :: "curl_event list \<Rightarrow> body_t \<Rightarrow> bool" where
  "all_taken [] b = True"
| "all_taken (Header h # es) b = all_taken es b"
| "all_taken (Piece ok p # es) b = (case on_body ok p b of (n, b') \<Rightarrow> n = length p \<and> all_taken es b')"

fun pieces :: "curl_event list \<Rightarrow> byte list" where
  "pieces [] = []"
| "pieces (Header h # es) = pieces es"
| "pieces (Piece ok p # es) = p @ pieces es"

definition body_text :: "byte list option \<Rightarrow> byte list" where
  "body_text b = (case b of None \<Rightarrow> [] | Some d \<Rightarrow> d)"

lemma on_body_taken:
  assumes "on_body ok p b = (length p, b')"
  shows "body_text (body_buf b') = body_text (body_buf b) @ p"
  using assms by (auto simp: on_body_def body_text_def Let_def split: if_splits option.splits)

lemma run_events_text:
  assumes "run_events es b r = Some (b', r')" "all_taken es b"
  shows "body_text (body_buf b') = body_text (body_buf b) @ pieces es"
  using assms
proof (induction es b r rule: run_events.induct)
  case (3 ok p es b r)
  obtain n b1 where b1: "on_body ok p b = (n, b1)" by (cases "on_body ok p b")
  with 3 show ?case using on_body_taken [of ok p b b1] by auto
qed (auto split: bind_splits)

definition body_init :: "gw_config_t \<Rightarrow> body_t" where
  "body_init cfg = \<lparr>body_buf = None, body_cap = nat (max_response_bytes cfg), overcap = False\<rparr>"

text \<open>
  Documented behaviour of libcurl: a transfer one of whose pieces the write callback
  does not take whole is not reported as successful.
\<close>

definition aborts_reported :: "curl_env \<Rightarrow> gw_config_t \<Rightarrow> bool" where
  "aborts_reported E cfg \<longleftrightarrow> (\<forall>q a. ca_rc (attempt_of E q a) = CURLE_OK \<longrightarrow> all_taken (ca_events (attempt_of E q a)) (body_init cfg))"

lemma attempt_ok:
  assumes "gwc_attempt E cfg q a r = Some (Inl (0, r'))" "outcome r' = GWC_OK"
  shows "ca_rc (attempt_of E q a) = CURLE_OK \<and> ca_status (attempt_of E q a) = 200 \<and> ca_proto_ok (attempt_of E q a) \<and>
    (\<exists>b k. run_events (ca_events (attempt_of E q a)) (body_init cfg) 0 = Some (b, k) \<and> res_body r' = body_buf b)"
  using assms by (auto simp: gwc_attempt_def body_init_def Let_def split: if_splits bind_splits)

lemma has_control_append: "has_control (a @ b) \<longleftrightarrow> has_control a \<or> has_control b"
  by (induction a) auto

lemma has_control_take: "has_control (take n v) \<Longrightarrow> has_control v"
  using has_control_append [of "take n v" "drop n v"] by simp

lemma c_str_control: "\<not> has_control v \<Longrightarrow> c_str v = v"
  by (induction v) (auto split: if_splits)

section \<open>When a call is defined\<close>

text \<open>
  Header lines that end what \<open>strtol()\<close> reads: a line \<open>retry-after\<close> whose value is empty does not, and neither does
  one that ends with its digits.
\<close>

definition header_ends :: "byte list \<Rightarrow> bool" where
  "header_ends h \<longleftrightarrow> (12 < length h \<and> map to_lower (take 12 h) = str ''retry-after:'' \<longrightarrow> strtol_stops (drop 12 h))"

definition headers_end :: "curl_env \<Rightarrow> bool" where
  "headers_end E \<longleftrightarrow> (\<forall>q a h. Header h \<in> set (ca_events (attempt_of E q a)) \<longrightarrow> header_ends h)"

lemma run_events_defined: "\<forall>h. Header h \<in> set es \<longrightarrow> header_ends h \<Longrightarrow> run_events es b r \<noteq> None"
  by (induction es b r rule: run_events.induct) (auto simp: on_header_def header_ends_def Let_def split: prod.splits)

lemma attempt_defined:
  assumes "headers_end E"
  shows "\<exists>x. gwc_attempt E cfg q a r = Some x"
proof -
  have "\<exists>x. run_events (ca_events (attempt_of E q a)) b k = Some x" for b k
    using run_events_defined [of "ca_events (attempt_of E q a)" b k] assms by (auto simp: headers_end_def)
  from this [of "\<lparr>body_buf = None, body_cap = nat (max_response_bytes cfg), overcap = False\<rparr>" 0]
  show ?thesis by (auto simp: gwc_attempt_def Let_def)
qed

lemma loop_defined: "headers_end E \<Longrightarrow> gwc_loop E cfg q a r \<noteq> None"
proof (induction E cfg q a r rule: gwc_loop.induct)
  case (1 E cfg q a r)
  obtain x where "gwc_attempt E cfg q a r = Some x" using attempt_defined [OF "1.prems"] by blast
  with 1 show ?case
    by (subst gwc_loop.simps) (auto split: sum.splits prod.splits bind_splits simp del: not_None_eq)
qed

lemma call_defined: "headers_end E \<Longrightarrow> \<exists>rc res ps. gwc_call E cfg key body = Some (rc, res, ps)"
  using loop_defined [of E cfg "easy_options cfg key body" 1 result_init] by (auto simp: gwc_call_def)

section \<open>Properties\<close>

text \<open>
  C30: The retry policy: if every \<open>retry-after\<close> line that libcurl delivers ends what \<open>strtol()\<close> reads, a call
  returns after between 1 and \<open>max_attempts\<close> attempts; every
  attempt but the last was a completed transfer with status 429 or 5xx, and the
  last was not unless the attempts were used up; between two attempts \<open>nanosleep()\<close> is asked once for 1 to 60
  seconds (the jitter is only added); and the body it keeps never exceeds
  \<open>max_response_bytes\<close>.
\<close>

theorem client_retry_policy:
  fixes E :: curl_env and cfg :: gw_config_t and key body :: "byte list"
  assumes "1 \<le> max_attempts cfg" "headers_end E"
  defines "q \<equiv> easy_options cfg key body"
  shows "\<exists>rc res ps. gwc_call E cfg key body = Some (rc, res, ps) \<and>
    (rc = 0 \<or> rc = -1) \<and> attempts res \<in> {1..max_attempts cfg} \<and>
    (\<forall>j\<in>{1..<attempts res}. retryable (attempt_of E q j)) \<and>
    (retryable (attempt_of E q (attempts res)) \<longrightarrow> attempts res = max_attempts cfg) \<and>
    length ps = nat (attempts res - 1) \<and> (\<forall>p\<in>set ps. 1000 \<le> p \<and> p \<le> 60000) \<and>
    length (body_text (res_body res)) \<le> nat (max_response_bytes cfg)"
proof -
  obtain rc res ps where c: "gwc_call E cfg key body = Some (rc, res, ps)" using call_defined [OF assms(2)] by blast
  note policy = call_policy [OF c assms(1), folded q_def]
  then obtain r0 where "res_body r0 = None" "gwc_attempt E cfg q (attempts res) r0 = Some (Inl (rc, res))" by blast
  then have "length (body_text (res_body res)) \<le> nat (max_response_bytes cfg)"
    using attempt_body by (auto simp: body_text_def split: option.split)
  with policy c show ?thesis by simp
qed

definition sample_curl :: curl_env where
  "sample_curl = \<lparr>attempt_of = (\<lambda>_ a. \<lparr>ca_init_ok = True, ca_headers_ok = True, ca_proto_ok = True,
      ca_events = [Header (str ''Retry-After: 7'' @ [0x0D, 0x0A]), Piece True (str ''{}'')], ca_rc = CURLE_OK,
      ca_status = (if a = 1 then 429 else 200), ca_err = [], ca_rand = 3\<rparr>), easy_strerror = (\<lambda>_. str ''error'')\<rparr>"

definition sample_result :: gwc_result_t where
  "sample_result = \<lparr>outcome = GWC_OK, http_status = 200, attempts = 2, res_body = Some (str ''{}''),
     errbuf = str ''HTTP 429: {}''\<rparr>"

lemma sample_attempts: "max_attempts sample_config = 3"
  by (simp add: sample_config_def config_defaults_def)

lemma sample_run:
  "run_events [Header (str ''Retry-After: 7'' @ [0x0D, 0x0A]), Piece True (str ''{}'')] (body_init sample_config) 0 =
    Some ((body_init sample_config)\<lparr>body_buf := Some (str ''{}'')\<rparr>, 7)"
  "all_taken [Header (str ''Retry-After: 7'' @ [0x0D, 0x0A]), Piece True (str ''{}'')] (body_init sample_config)"
proof -
  have "on_header (str ''Retry-After: 7'' @ [0x0D, 0x0A]) 0 = Some 7" by code_simp
  moreover have "on_body True (str ''{}'') (body_init sample_config) = (2, (body_init sample_config)\<lparr>body_buf := Some (str ''{}'')\<rparr>)"
    by (simp add: on_body_def body_init_def body_len_def sample_config_def config_defaults_def)
  ultimately show "run_events [Header (str ''Retry-After: 7'' @ [0x0D, 0x0A]), Piece True (str ''{}'')] (body_init sample_config) 0 =
    Some ((body_init sample_config)\<lparr>body_buf := Some (str ''{}'')\<rparr>, 7)"
    "all_taken [Header (str ''Retry-After: 7'' @ [0x0D, 0x0A]), Piece True (str ''{}'')] (body_init sample_config)" by simp_all
qed

lemma sample_error_text: "http_error_text 429 (b\<lparr>body_buf := Some (str ''{}'')\<rparr>) = str ''HTTP 429: {}''"
  by (simp add: http_error_text_def body_len_def cut_def dec_int_def dec.simps str_def)

lemma sample_call: "gwc_call sample_curl sample_config key body = Some (0, sample_result, [7000])"
proof -
  let ?q = "easy_options sample_config key body"
  have "gwc_attempt sample_curl sample_config ?q 1 result_init =
      Some (Inr (result_init\<lparr>attempts := 1, http_status := 429, errbuf := str ''HTTP 429: {}''\<rparr>, 7000))"
    unfolding gwc_attempt_def body_init_def [symmetric]
    by (simp add: sample_curl_def sample_run sample_error_text sample_attempts backoff_ms_def del: run_events.simps)
  moreover have "gwc_attempt sample_curl sample_config ?q 2 (result_init\<lparr>attempts := 1, http_status := 429, errbuf := str ''HTTP 429: {}''\<rparr>) =
      Some (Inl (0, sample_result))"
    unfolding gwc_attempt_def body_init_def [symmetric]
    by (simp add: sample_curl_def sample_run sample_result_def result_init_def del: run_events.simps)
  ultimately show ?thesis
    by (simp add: gwc_call_def gwc_loop.simps [of sample_curl sample_config ?q 1] gwc_loop.simps [of sample_curl sample_config ?q 2]
        sample_attempts)
qed

lemma sample_headers_end: "headers_end sample_curl"
proof -
  have "header_ends (str ''Retry-After: 7'' @ [0x0D, 0x0A])" by code_simp
  then show ?thesis by (simp add: headers_end_def sample_curl_def)
qed

theorem client_retry_policy_witness:
  "gwc_call sample_curl sample_config (str ''k'') (str ''{}'') = Some (0, sample_result, [7000]) \<and>
   retryable (attempt_of sample_curl (easy_options sample_config (str ''k'') (str ''{}'')) 1)"
  using client_retry_policy [of sample_config sample_curl "str ''k''" "str ''{}''"] sample_headers_end
  by (simp add: sample_attempts sample_call) (simp add: sample_result_def)

text \<open>
  A line \<open>retry-after\<close> without a value makes the callback read past its end: \<open>strtol()\<close> skips the line
  end as blanks and goes on behind the bytes that libcurl handed over.
\<close>

theorem retry_after_overread:
  assumes "ca_init_ok w" "ca_headers_ok w" "ca_proto_ok w" "ca_events w = Header (str ''retry-after:'' @ [0x0D, 0x0A]) # es"
    and "attempt_of E (easy_options cfg key body) 1 = w" "1 \<le> max_attempts cfg"
  shows "gwc_call E cfg key body = None"
proof -
  have "on_header (str ''retry-after:'' @ [0x0D, 0x0A]) 0 = None" by code_simp
  with assms show ?thesis by (simp add: gwc_call_def gwc_loop.simps [of _ _ _ 1] gwc_attempt_def Let_def)
qed

text \<open>
  What a successful call returns: with outcome \<open>GWC_OK\<close> the transfer was
  restricted to HTTP and HTTPS, ended without error and with status 200, and the
  body is exactly the bytes that libcurl delivered - never a part of a response
  that was cut at the cap.
\<close>

theorem client_ok_body:
  fixes E :: curl_env and cfg :: gw_config_t and key body :: "byte list"
  assumes "aborts_reported E cfg" "1 \<le> max_attempts cfg" "gwc_call E cfg key body = Some (0, res, ps)" "outcome res = GWC_OK"
  defines "q \<equiv> easy_options cfg key body"
  shows "ca_proto_ok (attempt_of E q (attempts res)) \<and> ca_status (attempt_of E q (attempts res)) = 200 \<and>
    body_text (res_body res) = pieces (ca_events (attempt_of E q (attempts res)))"
proof -
  let ?w = "attempt_of E q (attempts res)"
  obtain r0 where "gwc_attempt E cfg q (attempts res) r0 = Some (Inl (0, res))"
    using call_policy [OF assms(3,2)] unfolding q_def by blast
  note ok = attempt_ok [OF this assms(4)]
  then obtain b k where b: "run_events (ca_events ?w) (body_init cfg) 0 = Some (b, k)" "res_body res = body_buf b" by blast
  have "all_taken (ca_events ?w) (body_init cfg)" using assms(1) ok by (simp add: aborts_reported_def)
  from run_events_text [OF b(1) this] ok b show ?thesis by (simp add: body_init_def body_text_def)
qed

theorem client_ok_body_witness:
  "body_text (res_body sample_result) =
     pieces (ca_events (attempt_of sample_curl (easy_options sample_config [] []) (attempts sample_result)))"
proof -
  have "aborts_reported sample_curl sample_config" using sample_run(2) by (simp add: aborts_reported_def sample_curl_def)
  moreover have "outcome sample_result = GWC_OK" by (simp add: sample_result_def)
  ultimately show ?thesis
    using client_ok_body [of sample_curl sample_config "[]" "[]" sample_result "[7000]"] by (simp add: sample_attempts sample_call)
qed

text \<open>
  No header can be injected: with an accepted configuration and a key without
  control characters none of the three header lines contains a control character
  or DEL, and a key of at most 500 bytes and the version are sent whole.
\<close>

theorem request_headers_clean:
  assumes "config_inv cfg" "\<not> has_control key"
  shows "(\<forall>h\<in>set (request_headers cfg key). \<not> has_control h) \<and>
    (length key \<le> 500 \<longrightarrow> str ''x-api-key: '' @ key \<in> set (request_headers cfg key)) \<and>
    str ''anthropic-version: '' @ anthropic_version cfg \<in> set (request_headers cfg key)"
proof -
  have v: "\<not> has_control (anthropic_version cfg)" "length (anthropic_version cfg) < 64"
    using assms(1) by (auto simp: config_inv_def gw_limits)
  have s: "\<not> has_control (str ''x-api-key: '')" "\<not> has_control (str ''anthropic-version: '')"
    "\<not> has_control (str ''content-type: application/json'')" by code_simp+
  have c: "cut 512 (str ''x-api-key: '' @ c_str key) = take 511 (str ''x-api-key: '' @ key)"
    "cut 128 (str ''anthropic-version: '' @ anthropic_version cfg) = str ''anthropic-version: '' @ anthropic_version cfg"
    using assms(2) v s by (simp_all add: cut_def c_str_control has_control_append)
  have "\<not> has_control (take 511 (str ''x-api-key: '' @ key))"
    using has_control_take [of 511 "str ''x-api-key: '' @ key"] assms(2) s by (auto simp: has_control_append)
  then show ?thesis using v s assms(2) by (auto simp: request_headers_def c has_control_append)
qed

theorem request_headers_clean_witness:
  "str ''x-api-key: sk-7'' \<in> set (request_headers sample_config (str ''sk-7''))"
proof -
  have "config_inv sample_config" "\<not> has_control (str ''sk-7'')"
    using sample_config_printable by (simp add: printable_config_def) code_simp
  then show ?thesis using request_headers_clean [of sample_config "str ''sk-7''"] by (simp add: str_def)
qed

end
