(* ===== verification/JsonObject.thy ===== *)
theory JsonObject
  imports GwJson CText
begin

text \<open>
  JSON documents as the scanner of \<open>gateway/src/gw_json.c\<close> reads them: which texts it takes
  for one value (strings, numbers, objects, an array of one object), and what
  \<open>gwj_top_string\<close> returns for a string member of an object.  The theories on the request
  body and on the canonical record use it for the texts the program writes.
\<close>

section \<open>Values\<close>

text \<open>
  \<open>json_value d v\<close>: at depth \<open>d\<close> the scanner of \<open>gw_json.c\<close> takes \<open>v\<close> as exactly one value,
  whatever follows it in a document.
\<close>

definition value_end :: "byte list \<Rightarrow> bool" where
  "value_end r \<longleftrightarrow> r = [] \<or> hd r \<in> {0x2C, 0x7D, 0x5D} \<or> is_ws (hd r)"

definition json_value :: "nat \<Rightarrow> byte list \<Rightarrow> bool" where
  "json_value d v \<longleftrightarrow> v \<noteq> [] \<and> (\<forall>n r. 2 * length v \<le> n \<longrightarrow> value_end r \<longrightarrow> s_skip_value n d (v @ r) = Some (Some r))"

lemma json_valueI:
  assumes "v \<noteq> []" "\<And>n r. 2 * length v \<le> Suc n \<Longrightarrow> value_end r \<Longrightarrow> s_skip_value (Suc n) d (v @ r) = Some (Some r)"
  shows "json_value d v"
  unfolding json_value_def
proof (intro conjI allI impI)
  fix n r
  assume n: "2 * length v \<le> n" and r: "value_end r"
  from assms(1) n obtain m where "n = Suc m" by (cases n) auto
  with assms(2) [of m r] n r show "s_skip_value n d (v @ r) = Some (Some r)" by blast
qed (rule assms(1))

lemma json_valueD: "json_value d v \<Longrightarrow> 2 * length v \<le> n \<Longrightarrow> value_end r \<Longrightarrow> s_skip_value n d (v @ r) = Some (Some r)"
  by (simp add: json_value_def)

context json_printer
begin

lemma json_string: "d \<le> 64 \<Longrightarrow> json_value d (quoted esc s)"
  using skip_quoted [of s] by (intro json_valueI) (simp_all add: quoted_def)

end

lemma tok_facts: "is_tok c \<Longrightarrow> \<not> is_ws c \<and> c \<noteq> 0x22 \<and> c \<noteq> 0x7B \<and> c \<noteq> 0x5B"
  by (auto simp: is_tok_def is_ws_def str_def)

lemma json_number:
  assumes "v \<noteq> []" "\<forall>c\<in>set v. is_tok c" "d \<le> 64"
  shows "json_value d v"
proof (rule json_valueI)
  fix n r
  assume r: "value_end r"
  from assms obtain c w where v: "v = c # w" "is_tok c" by (cases v) auto
  have "dropWhile is_tok (w @ r) = dropWhile is_tok r" using assms(2) v by (intro dropWhile_append2) simp
  also have "dropWhile is_tok r = r"
    using r by (cases r) (auto simp: value_end_def is_tok_def is_ws_def str_def)
  finally show "s_skip_value (Suc n) d (v @ r) = Some (Some r)"
    using assms(3) v tok_facts [OF v(2)] by simp
qed (rule assms(1))

lemma digit_tok: "is_digit c \<Longrightarrow> is_tok c"
proof -
  assume "is_digit c"
  then have "c \<in> of_nat ` {48..57}"
    by (intro image_eqI [of _ _ "unat c"]) (auto simp: is_digit_def word_le_nat_alt)
  moreover have "{48..57} = {48, 49, 50, 51, 52, 53, 54, 55, 56, 57 :: nat}"
    by (simp only: set_eq_iff atLeastAtMost_iff insert_iff empty_iff) presburger
  ultimately show ?thesis by (auto simp: is_tok_def str_def)
qed

lemma dec_toks: "\<forall>c\<in>set (dec n). is_tok c" "\<forall>c\<in>set (dec_int x). is_tok c"
proof -
  show d: "\<forall>c\<in>set (dec n). is_tok c" for n using dec_are_digits digit_tok by blast
  have "is_tok 45" by (simp add: is_tok_def str_def)
  with d show "\<forall>c\<in>set (dec_int x). is_tok c" by (auto simp: dec_int_def)
qed

lemma json_decimal:
  assumes "d \<le> 64"
  shows "json_value d (dec n)" "json_value d (dec_int x)"
  using assms dec_toks by (auto intro!: json_number)

section \<open>Objects\<close>

text \<open>Objects, as a list of members written without blanks; a key needs no escape.\<close>

definition bare_key :: "byte list \<Rightarrow> bool" where
  "bare_key k \<longleftrightarrow> length k < 64 \<and> (\<forall>c\<in>set k. 0x20 \<le> c \<and> c \<noteq> 0x22 \<and> c \<noteq> 0x5C)"

definition member :: "byte list \<times> byte list \<Rightarrow> byte list" where
  "member m = quoted gw_esc (fst m) @ [0x3A] @ snd m"

fun members :: "(byte list \<times> byte list) list \<Rightarrow> byte list" where
  "members [] = []"
| "members [m] = member m"
| "members (m # ms) = member m @ [0x2C] @ members ms"

definition json_object :: "(byte list \<times> byte list) list \<Rightarrow> byte list" where
  "json_object ms = [0x7B] @ members ms @ [0x7D]"

lemma members_snoc: "ms \<noteq> [] \<Longrightarrow> members (ms @ [m]) = members ms @ [0x2C] @ member m"
  by (induction ms rule: members.induct) simp_all

lemma skip_member:
  assumes "json_value (Suc d) (snd m)" "2 * length (snd m) \<le> n" "c = 0x2C \<or> c = 0x7D"
  shows "skip_members (Suc n) 0x7B 0x7D d (member m @ c # r) =
    (if c = 0x2C then skip_members n 0x7B 0x7D d r else Some (Some r))"
proof -
  have "s_skip_value n (Suc d) (snd m @ c # r) = Some (Some (c # r))"
    using assms by (intro json_valueD) (auto simp: value_end_def)
  moreover have "s_ws (quoted gw_esc (fst m) @ t) = quoted gw_esc (fst m) @ t" for t
    by (simp add: quoted_def)
  ultimately show ?thesis using assms(3) by (auto simp: member_def gw_print.skip_quoted)
qed

lemma skip_object_members:
  assumes "ms \<noteq> []" "\<forall>m\<in>set ms. json_value (Suc d) (snd m)" "2 * length (members ms) \<le> n"
  shows "skip_members n 0x7B 0x7D d (members ms @ 0x7D # r) = Some (Some r)"
  using assms
proof (induction ms arbitrary: n rule: members.induct)
  case (2 m)
  then obtain k where "n = Suc k" by (cases n) (auto simp: member_def quoted_def)
  with 2 skip_member [of d m k "0x7D" r] show ?case by (simp add: member_def quoted_def)
next
  case (3 m m' ms)
  then obtain k where k: "n = Suc k" by (cases n) (auto simp: member_def quoted_def)
  with 3 show ?case
    using skip_member [of d m k "0x2C" "members (m' # ms) @ 0x7D # r"] by (simp add: member_def quoted_def)
qed simp

lemma json_object_value:
  assumes "ms \<noteq> []" "\<forall>m\<in>set ms. json_value (Suc d) (snd m)" "d \<le> 64"
  shows "json_value d (json_object ms)"
proof (rule json_valueI)
  fix n r
  assume n: "2 * length (json_object ms) \<le> Suc n"
  obtain t where t: "members ms @ 0x7D # r = 0x22 # t"
    using assms(1) by (cases ms rule: members.cases) (auto simp: member_def quoted_def)
  have "skip_members n 0x7B 0x7D d (members ms @ 0x7D # r) = Some (Some r)"
    using n by (intro skip_object_members assms) (simp add: json_object_def)
  then show "s_skip_value (Suc n) d (json_object ms @ r) = Some (Some r)"
    using assms(3) by (simp add: json_object_def t)
qed (simp add: json_object_def)

lemma json_array1:
  assumes "json_value (Suc d) (0x7B # v)" "d \<le> 64"
  shows "json_value d (0x5B # 0x7B # v @ [0x5D])"
proof (rule json_valueI)
  fix n r
  assume n: "2 * length (0x5B # 0x7B # v @ [0x5D]) \<le> Suc n"
  then obtain k where k: "n = Suc k" by (cases n) auto
  have "s_skip_value k (Suc d) ((0x7B # v) @ 0x5D # r) = Some (Some (0x5D # r))"
    using n k by (intro json_valueD assms(1)) (auto simp: value_end_def)
  then show "s_skip_value (Suc n) d ((0x5B # 0x7B # v @ [0x5D]) @ r) = Some (Some r)"
    using assms(2) k by simp
qed simp

section \<open>Reading a string member of an object\<close>

definition plain_member :: "byte list \<times> byte list \<Rightarrow> bool" where
  "plain_member m \<longleftrightarrow> bare_key (fst m) \<and> json_value 0 (snd m) \<and> \<not> is_ws (hd (snd m))"

lemma quoted_bare: "bare_key k \<Longrightarrow> quoted gw_esc k = 0x22 # k @ [0x22]"
proof -
  assume "bare_key k"
  then have "gw_esc c = [c]" if "c \<in> set k" for c
    using that by (auto simp: bare_key_def gw_esc_cases split: if_splits)
  then have "concat (map gw_esc k) = k" by (induction k) auto
  then show ?thesis by (simp add: quoted_def)
qed

lemma key_bare:
  assumes "bare_key k" "v \<noteq> []" "\<not> is_ws (hd v)"
  shows "s_key 63 (quoted gw_esc k @ 0x3A # v @ t) = Some (k, v @ t)"
proof -
  obtain c w where v: "v = c # w" using assms(2) by (cases v) auto
  have "\<forall>c\<in>set k. c \<noteq> 0x22 \<and> c \<noteq> 0x5C \<and> c \<noteq> 0" using assms(1) by (auto simp: bare_key_def)
  with assms v s_key_plain [of 63 k c "w @ t"] show ?thesis
    by (simp add: quoted_bare) (simp add: bare_key_def)
qed

lemma top_skip:
  assumes "plain_member m" "fst m \<noteq> k"
  shows "top_loop (Suc n) k cap (member m @ 0x2C # r) = top_loop n k cap r"
proof -
  let ?v = "snd m"
  have v: "?v \<noteq> []" using assms(1) by (auto simp: plain_member_def json_value_def)
  have "s_skip_value (scan_fuel (?v @ 0x2C # r)) 0 (?v @ 0x2C # r) = Some (Some (0x2C # r))"
    using assms(1) by (intro json_valueD) (simp_all add: plain_member_def scan_fuel_def value_end_def)
  moreover have "s_key 63 (quoted gw_esc (fst m) @ 0x3A # ?v @ 0x2C # r) = Some (fst m, ?v @ 0x2C # r)"
    using assms(1) v by (intro key_bare) (simp_all add: plain_member_def)
  moreover have "s_ws (quoted gw_esc (fst m) @ t) = quoted gw_esc (fst m) @ t" "s_expect 0x7D (quoted gw_esc (fst m) @ t) = None" for t
    by (simp_all add: quoted_def)
  ultimately show ?thesis using assms(2) by (simp add: member_def)
qed

context json_printer
begin

lemma top_hit:
  assumes "bare_key k" "length s < unat cap" "unat cap < 2 ^ 63"
  shows "top_loop (Suc n) k cap (member (k, quoted esc s) @ t) = Some (Some (s @ [0]))"
proof -
  have "cap \<noteq> 0" using assms(2) by auto
  then have "s_decode_string (cap - 1) [] (quoted esc s @ t) = Some (s, t)"
    using decode_quoted [of "cap - 1" "[]" s t] assms(2,3) by (simp add: unat_pred gw_fit_def)
  moreover have "s_key 63 (quoted gw_esc k @ 0x3A # quoted esc s @ t) = Some (k, quoted esc s @ t)"
    using assms(1) by (intro key_bare) (simp_all add: quoted_def)
  moreover have "s_ws (quoted gw_esc k @ u) = quoted gw_esc k @ u" "s_expect 0x7D (quoted gw_esc k @ u) = None" for u
    by (simp_all add: quoted_def)
  ultimately show ?thesis by (simp add: member_def)
qed

lemma top_members:
  assumes "\<forall>m\<in>set ms. plain_member m \<and> fst m \<noteq> k" "bare_key k" "length s < unat cap" "unat cap < 2 ^ 63" "length ms < n"
  shows "top_loop n k cap (members (ms @ (k, quoted esc s) # ms') @ t) = Some (Some (s @ [0]))"
  using assms(1,5)
proof (induction ms arbitrary: n)
  case Nil
  then obtain i where "n = Suc i" by (cases n) auto
  then show ?case using top_hit [OF assms(2-4), of i] by (cases ms') (simp_all del: top_loop.simps)
next
  case (Cons m ms)
  then obtain i where i: "n = Suc i" by (cases n) auto
  have "members ((m # ms) @ (k, quoted esc s) # ms') = member m @ 0x2C # members (ms @ (k, quoted esc s) # ms')"
    by (cases ms) simp_all
  with Cons i show ?case by (simp add: top_skip del: top_loop.simps)
qed

lemma length_members: "length ms \<le> length (members ms)"
  by (induction ms rule: members.induct) (simp_all add: member_def quoted_def)

text \<open>The value of a string member, wherever it stands in an object.\<close>

lemma top_string_member:
  assumes "\<forall>m\<in>set ms. plain_member m \<and> fst m \<noteq> k" "bare_key k" "length s < unat cap" "unat cap < 2 ^ 63"
  shows "gwj_top_string (json_object (ms @ (k, quoted esc s) # ms')) k cap = Some (Some (s @ [0]))"
proof -
  let ?b = "members (ms @ (k, quoted esc s) # ms')"
  have "length ms < scan_fuel (?b @ [0x7D])" using length_members [of "ms @ (k, quoted esc s) # ms'"] by (simp add: scan_fuel_def)
  from top_members [OF assms this, of ms' "[0x7D]"] show ?thesis
    by (simp add: gwj_top_string_def json_object_def del: top_loop.simps)
qed

end

end
