(* ===== verification/GwContent.thy ===== *)
theory GwContent
  imports JsonObject
begin

text \<open>
  What \<open>gwj_content_text\<close> of \<open>gateway/src/gw_json.c\<close> makes of the body of an answer: an object with
  a \<open>content\<close> array of blocks among other members.  Each block is an object
  of a type, a text and other members, in any order; blanks may stand wherever the scanner skips
  them, and each byte of a string may be written in any of its escapes.
\<close>

section \<open>Bodies\<close>

text \<open>A string literal: each byte with the way it is written.\<close>

type_synonym literal = "(byte \<times> byte list) list"

definition lit_ok :: "literal \<Rightarrow> bool" where
  "lit_ok l \<longleftrightarrow> (\<forall>(c, b)\<in>set l. esc_form c b)"

definition lit_text :: "literal \<Rightarrow> byte list" where
  "lit_text l = map fst l"

definition lit_bytes :: "literal \<Rightarrow> byte list" where
  "lit_bytes l = 0x22 # concat (map snd l) @ [0x22]"

text \<open>A member of an object: the four places for blanks, the key and the value.\<close>

type_synonym gaps = "byte list \<times> byte list \<times> byte list \<times> byte list"

definition blank :: "byte list \<Rightarrow> bool" where
  "blank w \<longleftrightarrow> (\<forall>c\<in>set w. is_ws c)"

definition gaps_ok :: "gaps \<Rightarrow> bool" where
  "gaps_ok g = (case g of (a, b, c, d) \<Rightarrow> blank a \<and> blank b \<and> blank c \<and> blank d)"

definition spaced :: "gaps \<Rightarrow> byte list \<Rightarrow> byte list \<Rightarrow> byte list" where
  "spaced g k v = (case g of (a, b, c, d) \<Rightarrow> a @ quoted gw_esc k @ b @ 0x3A # c @ v @ d)"

datatype item = Kind literal | Words literal | Other "byte list" "byte list"

fun item_key :: "item \<Rightarrow> byte list" where
  "item_key (Kind l) = str ''type''"
| "item_key (Words l) = str ''text''"
| "item_key (Other k v) = k"

fun item_value :: "item \<Rightarrow> byte list" where
  "item_value (Kind l) = lit_bytes l"
| "item_value (Words l) = lit_bytes l"
| "item_value (Other k v) = v"

text \<open>
  \<open>n\<close> is the capacity for a key.  A type is at most 15 bytes long, and any other value is one that the
  scanner takes for one value.
\<close>

fun item_ok :: "nat \<Rightarrow> item \<Rightarrow> bool" where
  "item_ok n (Kind l) \<longleftrightarrow> lit_ok l \<and> length l \<le> 15 \<and> 0 \<notin> set (lit_text l)"
| "item_ok n (Words l) \<longleftrightarrow> lit_ok l"
| "item_ok n (Other k v) \<longleftrightarrow> bare_key k \<and> length k \<le> n \<and> json_value 0 v \<and> \<not> is_ws (hd v)"

type_synonym field = "gaps \<times> item"

definition field_text :: "field \<Rightarrow> byte list" where
  "field_text f = spaced (fst f) (item_key (snd f)) (item_value (snd f))"

fun commas :: "byte list list \<Rightarrow> byte list" where
  "commas [] = []"
| "commas [x] = x"
| "commas (x # y # xs) = x @ 0x2C # commas (y # xs)"

text \<open>A block, with the blanks around it, and its text: the last \<open>text\<close> if the type is \<open>text\<close>, and nothing otherwise.\<close>

type_synonym block = "byte list \<times> field list \<times> byte list"

definition block_bytes :: "block \<Rightarrow> byte list" where
  "block_bytes b = (case b of (v, fs, w) \<Rightarrow> v @ 0x7B # commas (map field_text fs) @ 0x7D # w)"

definition field_ok :: "nat \<Rightarrow> field \<Rightarrow> bool" where
  "field_ok n f \<longleftrightarrow> gaps_ok (fst f) \<and> item_ok n (snd f)"

text \<open>In a block no other member is called \<open>type\<close> or \<open>text\<close>.\<close>

definition block_field :: "field \<Rightarrow> bool" where
  "block_field f \<longleftrightarrow> field_ok 31 f \<and> (case snd f of Other k v \<Rightarrow> k \<noteq> str ''type'' \<and> k \<noteq> str ''text'' | _ \<Rightarrow> True)"

definition block_ok :: "block \<Rightarrow> bool" where
  "block_ok b = (case b of (v, fs, w) \<Rightarrow> blank v \<and> blank w \<and> (\<forall>f\<in>set fs. block_field f))"

fun item_kind :: "item \<Rightarrow> bool" where
  "item_kind (Kind l) \<longleftrightarrow> lit_text l = str ''text''"
| "item_kind _ \<longleftrightarrow> False"

fun item_words :: "item \<Rightarrow> literal list" where
  "item_words (Words l) = [l]"
| "item_words _ = []"

definition is_text_block :: "field list \<Rightarrow> bool" where
  "is_text_block fs \<longleftrightarrow> list_ex (\<lambda>f. item_kind (snd f)) fs"

definition words_of :: "field list \<Rightarrow> literal list" where
  "words_of fs = concat (map (\<lambda>f. item_words (snd f)) fs)"

definition block_text :: "block \<Rightarrow> byte list" where
  "block_text b = (case b of (v, fs, w) \<Rightarrow>
     if is_text_block fs \<and> words_of fs \<noteq> [] then lit_text (last (words_of fs)) else [])"

text \<open>The body: members before and after \<open>content\<close>, and whatever follows the object.\<close>

definition answer_body :: "byte list \<Rightarrow> field list \<Rightarrow> gaps \<Rightarrow> byte list \<Rightarrow> block list \<Rightarrow> field list \<Rightarrow> byte list \<Rightarrow> byte list" where
  "answer_body w pre g e bs post rest =
     w @ 0x7B # commas (map field_text pre @ [spaced g (str ''content'') (0x5B # e @ commas (map block_bytes bs) @ [0x5D])] @ map field_text post) @
     0x7D # rest"

text \<open>A member beside \<open>content\<close>; \<open>type\<close> and \<open>text\<close> mean nothing there.\<close>

fun plain_field :: "field \<Rightarrow> bool" where
  "plain_field (g, Other k v) \<longleftrightarrow> field_ok 63 (g, Other k v) \<and> k \<noteq> str ''content''"
| "plain_field _ \<longleftrightarrow> False"

section \<open>Scanning\<close>

lemma ws_blank: "blank w \<Longrightarrow> s_ws (w @ r) = s_ws r"
  by (induction w) (simp_all add: blank_def)

lemma ws_value: "v \<noteq> [] \<Longrightarrow> \<not> is_ws (hd v) \<Longrightarrow> s_ws (v @ r) = v @ r"
  by (cases v) simp_all

lemma ws_punct: "blank w \<Longrightarrow> \<not> is_ws c \<Longrightarrow> s_ws (w @ c # r) = c # r"
  by (simp add: ws_blank)

lemma key_spaced:
  assumes "bare_key k" "unat cap < 2 ^ 63" "length k \<le> unat cap" "blank b" "blank c" "v \<noteq> []" "\<not> is_ws (hd v)"
  shows "s_key cap (quoted gw_esc k @ b @ 0x3A # c @ v @ t) = Some (k, v @ t)"
proof -
  have "0 \<notin> set k" using assms(1) by (auto simp: bare_key_def)
  then have "c_str k = k" by simp
  with assms gw_print.decode_quoted [OF assms(2), of "[]" k] show ?thesis
    by (simp add: s_key_def gw_fit_def ws_punct ws_blank ws_value)
qed

lemma lit_decode:
  assumes "lit_ok l" "unat cap < 2 ^ 63" "length dst \<le> unat cap"
  shows "s_decode_string cap dst (lit_bytes l @ r) = gw_fit cap (dst @ lit_text l) \<bind> (\<lambda>d. Some (d, r))"
proof -
  have "decode_loop cap dst (concat (map snd l) @ 0x22 # r) = gw_fit cap (dst @ lit_text l) \<bind> (\<lambda>d. Some (d, r))"
    using assms(1,3)
  proof (induction l arbitrary: dst)
    case Nil
    then show ?case by (simp add: gw_fit_def lit_text_def)
  next
    case (Cons x l)
    obtain c b where x: "x = (c, b)" by (cases x)
    have "put_bytes cap dst [c] = gw_fit cap (dst @ [c])" using assms(2) Cons.prems by (intro put_bytes_fit) simp_all
    moreover have "decode_loop cap dst (b @ t) = put_bytes cap dst [c] \<bind> (\<lambda>d. decode_loop cap d t)" for t
      using Cons.prems(1) by (intro decode_esc_form) (simp add: x lit_ok_def)
    ultimately show ?case using Cons by (simp add: x gw_fit_def lit_ok_def lit_text_def)
  qed
  then show ?thesis by (simp add: s_decode_string_def lit_bytes_def)
qed

lemma lit_skip: "lit_ok l \<Longrightarrow> s_skip_string (lit_bytes l @ r) = Some r"
proof -
  have "lit_ok l \<Longrightarrow> skip_string_loop (concat (map snd l) @ 0x22 # r) = Some r"
    by (induction l) (auto simp: lit_ok_def skip_esc_form)
  then show "lit_ok l \<Longrightarrow> s_skip_string (lit_bytes l @ r) = Some r" by (simp add: s_skip_string_def lit_bytes_def)
qed

lemma bare_names: "bare_key (str ''type'')" "bare_key (str ''text'')" "bare_key (str ''content'')"
  by (simp_all add: bare_key_def str_def)

lemma item_parts:
  assumes "item_ok n x" "4 \<le> n"
  shows "bare_key (item_key x)" "length (item_key x) \<le> n" "item_value x \<noteq> []" "\<not> is_ws (hd (item_value x))"
  using assms bare_names by (cases x; simp add: lit_bytes_def str_def json_value_def)+

lemma skip_spaced:
  assumes "json_value 0 v" "blank d" "c \<in> {0x2C, 0x7D, 0x5D}"
  shows "s_skip_value (scan_fuel (v @ d @ c # r)) 0 (v @ d @ c # r) = Some (Some (d @ c # r))"
proof -
  have "value_end (d @ c # r)" using assms(2,3) by (cases d) (auto simp: value_end_def blank_def)
  then show ?thesis using assms(1) by (intro json_valueD) (simp_all add: scan_fuel_def)
qed

text \<open>One member of a block: whether the block is a text so far, and where its text starts.\<close>

definition item_at :: "item \<Rightarrow> byte list option \<Rightarrow> byte list \<Rightarrow> byte list option" where
  "item_at x at r = (case x of Words l \<Rightarrow> Some (lit_bytes l @ r) | _ \<Rightarrow> at)"

lemma element_item:
  assumes "item_ok 31 x" "case x of Other k v \<Rightarrow> k \<noteq> str ''type'' \<and> k \<noteq> str ''text'' | _ \<Rightarrow> True" "blank d" "c \<in> {0x2C, 0x7D}"
  shows "element_value b at (item_key x) (item_value x @ d @ c # r) =
    Some (Some (b \<or> item_kind x, item_at x at (d @ c # r), d @ c # r))"
proof (cases x)
  case (Kind l)
  then have "s_decode_string 15 [] (lit_bytes l @ d @ c # r) = Some (lit_text l, d @ c # r)" "c_str (lit_text l) = lit_text l"
    using assms(1) lit_decode [of l 15 "[]" "d @ c # r"] by (simp_all add: gw_fit_def lit_text_def)
  with Kind show ?thesis by (simp add: element_value_def item_at_def)
next
  case (Words l)
  then show ?thesis using assms(1) lit_skip [of l] by (simp add: element_value_def item_at_def key_lits)
next
  case (Other k v)
  with assms skip_spaced [of v d c r] show ?thesis by (auto simp: element_value_def item_at_def)
qed

lemma element_field:
  assumes "block_field f" "c \<in> {0x2C, 0x7D}"
  shows "\<exists>at'. element_loop (Suc n) b at (field_text f @ c # r) =
      (if c = 0x2C then element_loop n (b \<or> item_kind (snd f)) at' r else Some (Some (b \<or> item_kind (snd f), at', r))) \<and>
    (case item_words (snd f) of [] \<Rightarrow> at' = at | l # _ \<Rightarrow> \<exists>u. at' = Some (lit_bytes l @ u))"
proof -
  obtain p q s t x where f: "f = ((p, q, s, t), x)" by (cases f) auto
  have ok: "blank p" "blank q" "blank s" "blank t" "item_ok 31 x" using assms(1) by (simp_all add: f block_field_def field_ok_def gaps_ok_def)
  note i = item_parts [OF ok(5)]
  have k: "s_key 31 (quoted gw_esc (item_key x) @ q @ 0x3A # s @ item_value x @ t @ c # r) = Some (item_key x, item_value x @ t @ c # r)"
    using i ok(2,3) by (intro key_spaced) simp_all
  have w: "s_ws (p @ quoted gw_esc (item_key x) @ u) = quoted gw_esc (item_key x) @ u" "s_expect 0x7D (quoted gw_esc (item_key x) @ u) = None" for u
    using ok(1) by (simp_all add: ws_blank quoted_def)
  have v: "element_value b at (item_key x) (item_value x @ t @ c # r) = Some (Some (b \<or> item_kind x, item_at x at (t @ c # r), t @ c # r))"
    using ok assms by (intro element_item) (simp_all add: f block_field_def)
  have "s_ws (t @ c # r) = c # r" using ok(4) assms(2) by (intro ws_punct) auto
  then show ?thesis
    using assms(2) k w v by (intro exI [of _ "item_at x at (t @ c # r)"]) (cases x, auto simp: f field_text_def spaced_def item_at_def)
qed

lemma words_of_Cons: "words_of (f # fs) = item_words (snd f) @ words_of fs"
  by (simp add: words_of_def)

lemma is_text_block_Cons: "is_text_block (f # fs) \<longleftrightarrow> item_kind (snd f) \<or> is_text_block fs"
  by (simp add: is_text_block_def)

lemma element_fields:
  assumes "\<forall>f\<in>set fs. block_field f" "length fs < n"
  shows "\<exists>at'. element_loop n b at (commas (map field_text fs) @ 0x7D # r) = Some (Some (b \<or> is_text_block fs, at', r)) \<and>
    (if words_of fs = [] then at' = at else \<exists>u. at' = Some (lit_bytes (last (words_of fs)) @ u))"
  using assms
proof (induction fs arbitrary: n b at)
  case Nil
  then obtain m where "n = Suc m" by (cases n) auto
  then show ?case by (simp add: words_of_def is_text_block_def)
next
  case (Cons f fs)
  then obtain m where n: "n = Suc m" by (cases n) auto
  let ?c = "if fs = [] then 0x7D else 0x2C :: byte" and ?r = "if fs = [] then r else commas (map field_text fs) @ 0x7D # r"
  have t: "commas (map field_text (f # fs)) @ 0x7D # r = field_text f @ ?c # ?r" by (cases fs) simp_all
  have f: "block_field f" and c: "?c \<in> {0x2C, 0x7D}" using Cons.prems(1) by simp_all
  from element_field [OF f c, of m b at ?r] obtain at1 where s: "element_loop n b at (field_text f @ ?c # ?r) =
      (if ?c = 0x2C then element_loop m (b \<or> item_kind (snd f)) at1 ?r else Some (Some (b \<or> item_kind (snd f), at1, ?r)))"
    "case item_words (snd f) of [] \<Rightarrow> at1 = at | l # _ \<Rightarrow> \<exists>u. at1 = Some (lit_bytes l @ u)"
    unfolding n by blast
  have one: "item_words (snd f) = [] \<or> (\<exists>l. item_words (snd f) = [l])" by (cases "snd f") simp_all
  show ?case
  proof (cases "fs = []")
    case True
    with s one show ?thesis unfolding t by (auto simp: words_of_def is_text_block_def)
  next
    case False
    from Cons.IH [of m "b \<or> item_kind (snd f)" at1] Cons.prems n obtain at' where
      "element_loop m (b \<or> item_kind (snd f)) at1 ?r = Some (Some ((b \<or> item_kind (snd f)) \<or> is_text_block fs, at', r))"
      "if words_of fs = [] then at' = at1 else \<exists>u. at' = Some (lit_bytes (last (words_of fs)) @ u)" using False by auto
    with s one False show ?thesis
      unfolding t words_of_Cons is_text_block_Cons by (intro exI [of _ at']) (auto split: if_splits)
  qed
qed

lemma length_commas: "\<forall>x\<in>set xs. x \<noteq> [] \<Longrightarrow> length xs \<le> length (commas xs)"
proof (induction xs rule: commas.induct)
  case (2 x)
  then show ?case by (cases x) simp_all
qed simp_all

lemma spaced_nonempty [simp]: "spaced g k v \<noteq> []" "[] \<noteq> spaced g k v"
  by (cases g, simp add: spaced_def)+

lemma words_ok: "\<forall>f\<in>set fs. field_ok n f \<Longrightarrow> l \<in> set (words_of fs) \<Longrightarrow> lit_ok l"
proof -
  have "l \<in> set (item_words x) \<Longrightarrow> item_ok n x \<Longrightarrow> lit_ok l" for x by (cases x) auto
  then show "\<forall>f\<in>set fs. field_ok n f \<Longrightarrow> l \<in> set (words_of fs) \<Longrightarrow> lit_ok l" by (auto simp: words_of_def field_ok_def)
qed

text \<open>The elements of the array.\<close>

lemma array_step:
  assumes "block_ok b" "unat cap < 2 ^ 63" "length dst \<le> unat cap" "c \<in> {0x2C, 0x5D}"
  shows "array_loop (Suc n) cap dst (block_bytes b @ c # r) =
    (case gw_fit cap (dst @ block_text b) of None \<Rightarrow> Some None
     | Some d \<Rightarrow> if c = 0x2C then array_loop n cap d r else Some (Some (d, r)))"
proof -
  obtain v fs w where b: "b = (v, fs, w)" by (cases b)
  let ?s = "commas (map field_text fs) @ 0x7D # w @ c # r"
  have ok: "blank v" "blank w" "\<forall>f\<in>set fs. block_field f"
    using assms(1) by (simp_all add: b block_ok_def)
  have "length fs < scan_fuel ?s" using length_commas [of "map field_text fs"] by (simp add: scan_fuel_def field_text_def)
  from element_fields [OF ok(3) this, of False None "w @ c # r"] obtain at' where
    e: "element_loop (scan_fuel ?s) False None ?s = Some (Some (is_text_block fs, at', w @ c # r))"
    "if words_of fs = [] then at' = None else \<exists>u. at' = Some (lit_bytes (last (words_of fs)) @ u)" by auto
  have l: "lit_ok (last (words_of fs))" if "words_of fs \<noteq> []" using words_ok [of fs 31] ok(3) that by (meson block_field_def last_in_set)
  have "(case at' of Some t \<Rightarrow> if is_text_block fs then map_option fst (s_decode_string cap dst t) else Some dst | None \<Rightarrow> Some dst) =
      gw_fit cap (dst @ block_text b)"
    using e(2) lit_decode [OF l assms(2,3)] assms(3)
    by (auto simp: b block_text_def gw_fit_def split: if_splits)
  moreover have "s_ws (w @ c # r) = c # r" using ok(2) assms(4) by (intro ws_punct) auto
  ultimately show ?thesis
    using e(1) ok(1) assms(4) by (auto simp: b block_bytes_def ws_blank simp del: element_loop.simps split: option.split)
qed

lemma array_text:
  assumes "\<forall>b\<in>set bs. block_ok b" "bs \<noteq> []" "unat cap < 2 ^ 63" "length dst \<le> unat cap" "length bs \<le> n"
  shows "array_loop n cap dst (commas (map block_bytes bs) @ 0x5D # r) =
    Some (gw_fit cap (dst @ concat (map block_text bs)) \<bind> (\<lambda>d. Some (d, r)))"
  using assms(1,2,4,5)
proof (induction bs arbitrary: n dst)
  case (Cons b bs)
  then obtain m where n: "n = Suc m" by (cases n) auto
  let ?c = "if bs = [] then 0x5D else 0x2C :: byte" and ?r = "if bs = [] then r else commas (map block_bytes bs) @ 0x5D # r"
  have t: "commas (map block_bytes (b # bs)) @ 0x5D # r = block_bytes b @ ?c # ?r" by (cases bs) simp_all
  have s: "array_loop n cap dst (block_bytes b @ ?c # ?r) =
    (case gw_fit cap (dst @ block_text b) of None \<Rightarrow> Some None
     | Some d \<Rightarrow> if ?c = 0x2C then array_loop m cap d ?r else Some (Some (d, ?r)))"
    unfolding n using Cons.prems assms(3) by (intro array_step) auto
  show ?case
  proof (cases "length (dst @ block_text b) \<le> unat cap \<and> bs \<noteq> []")
    case True
    with Cons.IH [of "dst @ block_text b" m] Cons.prems n show ?thesis
      unfolding t s by (simp add: gw_fit_def [of cap "dst @ block_text b"])
  next
    case False
    then show ?thesis unfolding t s by (auto simp: gw_fit_def)
  qed
qed simp

lemma block_bytes_nonempty [simp]: "block_bytes b \<noteq> []"
  by (cases b) (simp add: block_bytes_def)

lemma content_array:
  assumes "\<forall>b\<in>set bs. block_ok b" "blank e" "unat cap < 2 ^ 63" "length dst \<le> unat cap"
  shows "content_value cap dst (0x5B # e @ commas (map block_bytes bs) @ 0x5D # r) =
    Some (gw_fit cap (dst @ concat (map block_text bs)) \<bind> (\<lambda>d. Some (d, r)))"
proof (cases bs)
  case Nil
  then show ?thesis using assms(2,4) by (simp add: content_value_def ws_punct gw_fit_def)
next
  case (Cons b bs')
  obtain v fs w where b: "b = (v, fs, w)" by (cases b)
  let ?b = "([], fs, w)" and ?s = "commas (map block_bytes (([], fs, w) # bs')) @ 0x5D # r"
  have v: "blank v" using assms(1) Cons by (simp add: b block_ok_def)
  have m: "commas (map block_bytes bs) @ u = v @ commas (map block_bytes (?b # bs')) @ u" for u
    unfolding Cons b by (cases bs') (simp_all add: block_bytes_def)
  obtain t where t: "?s = 0x7B # t" by (cases bs') (simp_all add: block_bytes_def)
  have s: "s_ws (e @ commas (map block_bytes bs) @ 0x5D # r) = ?s" unfolding m ws_blank [OF assms(2)] ws_blank [OF v] t by simp
  have "length (?b # bs') \<le> length (commas (map block_bytes (?b # bs')))"
    using length_commas [of "map block_bytes (?b # bs')"] by auto
  then have "length (?b # bs') \<le> scan_fuel ?s" by (simp add: scan_fuel_def)
  moreover have "\<forall>x\<in>set (?b # bs'). block_ok x" using assms(1) Cons by (simp add: b block_ok_def blank_def)
  ultimately have "array_loop (scan_fuel ?s) cap dst ?s = Some (gw_fit cap (dst @ concat (map block_text (?b # bs'))) \<bind> (\<lambda>d. Some (d, r)))"
    using assms(3,4) by (intro array_text) simp_all
  moreover have "concat (map block_text (?b # bs')) = concat (map block_text bs)" by (simp add: Cons b block_text_def)
  moreover have "s_expect 0x5D ?s = None" unfolding t by simp
  ultimately show ?thesis by (simp only: content_value_def s_expect.simps simp_thms if_True option.case Let_def s)
qed

text \<open>The members of the body.\<close>

lemma content_skip:
  assumes "plain_field f" "c \<in> {0x2C, 0x7D}"
  shows "content_loop (Suc n) cap found dst (field_text f @ c # r) =
    (if c = 0x2C then content_loop n cap found dst r else Some (Some (found, dst)))"
proof -
  obtain p q s t x where f: "f = ((p, q, s, t), x)" by (cases f) auto
  then obtain k v where x: "x = Other k v" using assms(1) by (cases x) auto
  have ok: "blank p" "blank q" "blank s" "blank t" "bare_key k" "length k \<le> 63" "json_value 0 v" "\<not> is_ws (hd v)" "k \<noteq> str ''content''"
    using assms(1) by (simp_all add: f x field_ok_def gaps_ok_def)
  have "v \<noteq> []" using ok(7) by (simp add: json_value_def)
  with ok have key: "s_key 63 (quoted gw_esc k @ q @ 0x3A # s @ v @ t @ c # r) = Some (k, v @ t @ c # r)"
    by (intro key_spaced) simp_all
  have w: "s_ws (p @ quoted gw_esc k @ u) = quoted gw_esc k @ u" "s_expect 0x7D (quoted gw_esc k @ u) = None" for u
    using ok(1) by (simp_all add: ws_blank quoted_def)
  have "s_skip_value (scan_fuel (v @ t @ c # r)) 0 (v @ t @ c # r) = Some (Some (t @ c # r))"
    using ok assms(2) by (intro skip_spaced) auto
  moreover have "s_ws (t @ c # r) = c # r" using ok(4) assms(2) by (intro ws_punct) auto
  ultimately show ?thesis using key w ok(9) assms(2) by (auto simp: f x field_text_def spaced_def)
qed

lemma content_member:
  assumes "gaps_ok g" "\<forall>b\<in>set bs. block_ok b" "blank e" "unat cap < 2 ^ 63" "length dst \<le> unat cap" "c \<in> {0x2C, 0x7D}"
  shows "content_loop (Suc n) cap found dst (spaced g (str ''content'') (0x5B # e @ commas (map block_bytes bs) @ [0x5D]) @ c # r) =
    (case gw_fit cap (dst @ concat (map block_text bs)) of None \<Rightarrow> Some None
     | Some d \<Rightarrow> if c = 0x2C then content_loop n cap True d r else Some (Some (True, d)))"
proof -
  obtain p q s t where g: "g = (p, q, s, t)" by (cases g)
  have ok: "blank p" "blank q" "blank s" "blank t" using assms(1) by (simp_all add: g gaps_ok_def)
  let ?k = "str ''content''" and ?v = "0x5B # e @ commas (map block_bytes bs) @ [0x5D]"
  have key: "s_key 63 (quoted gw_esc ?k @ q @ 0x3A # s @ ?v @ t @ c # r) = Some (?k, ?v @ t @ c # r)"
    using ok bare_names(3) by (intro key_spaced) (simp_all add: str_def)
  have w: "s_ws (p @ quoted gw_esc ?k @ u) = quoted gw_esc ?k @ u" "s_expect 0x7D (quoted gw_esc ?k @ u) = None" for u
    using ok(1) by (simp_all add: ws_blank quoted_def)
  have v: "content_value cap dst (?v @ t @ c # r) = Some (gw_fit cap (dst @ concat (map block_text bs)) \<bind> (\<lambda>d. Some (d, t @ c # r)))"
    using content_array [OF assms(2-5), of "t @ c # r"] by simp
  have "s_ws (t @ c # r) = c # r" using ok(4) assms(6) by (intro ws_punct) auto
  then show ?thesis using key w v assms(6) by (auto simp: g spaced_def split: option.split)
qed

lemma content_after:
  assumes "\<forall>f\<in>set post. plain_field f" "length post < n"
  shows "content_loop n cap True dst (commas (map field_text post) @ 0x7D # r) = Some (Some (True, dst))"
  using assms
proof (induction post arbitrary: n)
  case Nil
  then obtain m where "n = Suc m" by (cases n) auto
  then show ?case by simp
next
  case (Cons f fs)
  then obtain m where n: "n = Suc m" by (cases n) auto
  have f: "plain_field f" using Cons.prems by simp
  show ?case
  proof (cases fs)
    case Nil
    then show ?thesis using content_skip [OF f, of "0x7D" m] n by (simp del: content_loop.simps)
  next
    case (Cons f' fs')
    then show ?thesis using content_skip [OF f, of "0x2C" m] Cons.IH [of m] Cons.prems n by (simp del: content_loop.simps)
  qed
qed

lemma content_body:
  assumes "\<forall>f\<in>set pre. plain_field f" "\<forall>f\<in>set post. plain_field f" "gaps_ok g" "\<forall>b\<in>set bs. block_ok b" "blank e"
    and "unat cap < 2 ^ 63" "length pre + length post + 1 < n"
  shows "content_loop n cap False [] (commas (map field_text pre @
      [spaced g (str ''content'') (0x5B # e @ commas (map block_bytes bs) @ [0x5D])] @ map field_text post) @ 0x7D # r) =
    Some (gw_fit cap (concat (map block_text bs)) \<bind> (\<lambda>d. Some (True, d)))"
  using assms(1,7)
proof (induction pre arbitrary: n)
  case Nil
  then obtain m where n: "n = Suc m" by (cases n) auto
  let ?m = "spaced g (str ''content'') (0x5B # e @ commas (map block_bytes bs) @ [0x5D])"
  let ?c = "if post = [] then 0x7D else 0x2C :: byte" and ?r = "if post = [] then r else commas (map field_text post) @ 0x7D # r"
  have t: "commas ([?m] @ map field_text post) @ 0x7D # r = ?m @ ?c # ?r" by (cases post) simp_all
  have c: "?c \<in> {0x2C, 0x7D}" "length ([] :: byte list) \<le> unat cap" by simp_all
  have a: "content_loop m cap True d ?r = Some (Some (True, d))" if "post \<noteq> []" for d
    using content_after [OF assms(2), of m cap d r] Nil n that by simp
  show ?case
    unfolding n list.map append_Nil t content_member [OF assms(3-6) c(2,1)]
    using a by (auto split: option.split simp del: content_loop.simps)
next
  case (Cons f pre)
  then obtain m where n: "n = Suc m" by (cases n) auto
  let ?t = "map field_text pre @ [spaced g (str ''content'') (0x5B # e @ commas (map block_bytes bs) @ [0x5D])] @ map field_text post"
  have "commas (field_text f # ?t) = field_text f @ 0x2C # commas ?t" by (cases pre) simp_all
  with Cons content_skip [of f "0x2C" m] n show ?case by (simp del: content_loop.simps)
qed

section \<open>Properties\<close>


text \<open>A thinking block, a text block with its members in an unusual order, and a member on each side of \<open>content\<close>.\<close>

definition raw_lit :: "string \<Rightarrow> literal" where
  "raw_lit s = map (\<lambda>c. (c, [c])) (str s)"

definition sample_blocks :: "block list" where
  "sample_blocks =
     [([], [((([], [], [0x20], [])), Kind (raw_lit ''thinking'')), (([0x20], [], [], []), Words (raw_lit ''hm''))], []),
      ([0x0A], [(([], [], [], []), Words (raw_lit ''yes'')), (([], [], [], []), Other (str ''index'') (str ''2'')),
        (([], [], [], [0x0A]), Kind (raw_lit ''text''))], [0x20])]"

lemma raw_lit_ok: "\<forall>c\<in>set (str s). c \<noteq> 0x22 \<and> c \<noteq> 0x5C \<Longrightarrow> lit_ok (raw_lit s)"
  by (auto simp: lit_ok_def raw_lit_def esc_form_def)


end
