(* ===== verification/RecordJson.thy ===== *)
theory RecordJson
  imports JsonObject Obs
begin

text \<open>
  Where the library meets the gateway's reader: the canonical record of
  \<open>src/canonical.c\<close>, read by the scanner of \<open>gateway/src/gw_json.c\<close>.  The canonical text is
  an object of eleven members; the scanner takes it as one value, and its string
  members read back as the fields of the record.
\<close>

section \<open>The canonical text as an object\<close>

definition params_members :: "ax_oracle_params_t \<Rightarrow> (byte list \<times> byte list) list" where
  "params_members p =
     [(str ''max_tokens'', param_text (ax_params_max_tokens_is_null p) (sint (p_max_tokens p))),
      (str ''seed'', param_text (ax_params_seed_is_null p) (sint (p_seed p))),
      (str ''temperature'', param_text (ax_params_temperature_is_null p) (sint (p_temperature p))),
      (str ''top_p'', param_text (ax_params_top_p_is_null p) (sint (p_top_p p)))]"

definition obs_members :: "ax_obs_record_t \<Rightarrow> (byte list \<times> byte list) list" where
  "obs_members r =
     [(str ''completion_state'', completion_text (completion_state r)),
      (str ''failure_type'', failure_text (failure_type r)),
      (str ''input_hash'', quoted esc_byte (hex_text (input_hash r))),
      (str ''ledger_seq'', dec (unat (ledger_seq r))),
      (str ''model_id'', quoted esc_byte (opt_text (model_id r))),
      (str ''obs_hash'', quoted esc_byte (c_str (obs_hash r))),
      (str ''oracle_id'', quoted esc_byte (opt_text (oracle_id r))),
      (str ''output'', quoted esc_byte (opt_text (obs_output r))),
      (str ''output_size'', dec (unat (output_size r))),
      (str ''params'', params_text (params r)),
      (str ''schema_version'', quoted esc_byte (opt_text (schema_version r)))]"

text \<open>The hash and the version are written as they are: they must need no escape.\<close>

definition verbatim :: "byte list \<Rightarrow> bool" where
  "verbatim s \<longleftrightarrow> (\<forall>c\<in>set s. 0x20 \<le> c \<and> c \<noteq> 0x22 \<and> c \<noteq> 0x5C)"

lemma quoted_verbatim: "verbatim s \<Longrightarrow> quoted esc_byte s = 0x22 # s @ [0x22]"
proof -
  assume "verbatim s"
  then have "concat (map esc_byte s) = s" by (induction s) (auto simp: verbatim_def esc_byte_def)
  then show ?thesis by (simp add: quoted_def)
qed

lemma verbatim_hex: "verbatim (hex_text bs)"
proof -
  have "set (hex_text bs) \<subseteq> set (str ''0123456789abcdef'')" using hex_byte_chars by (auto simp: hex_text_def)
  then show ?thesis unfolding verbatim_def hexdigits by auto
qed

lemma keys_bare:
  "\<forall>k\<in>set (map fst (params_members p) @ map fst (obs_members r)). bare_key k"
  by (auto simp: params_members_def obs_members_def bare_key_def str_def)

lemma member_bare: "bare_key k \<Longrightarrow> member (k, v) = 0x22 # k @ 0x22 # 0x3A # v"
  by (simp add: member_def quoted_bare)

lemma params_text_object: "params_text p = json_object (params_members p)"
  using keys_bare [of p r] by (simp add: json_object_def params_members_def member_bare params_text_def) (simp add: str_def)

lemma obs_text_object:
  assumes "verbatim (c_str (obs_hash r))" "verbatim (opt_text (schema_version r))"
  shows "obs_text r True = json_object (obs_members r)"
  using keys_bare [of p r] quoted_verbatim [OF assms(1)] quoted_verbatim [OF assms(2)] quoted_verbatim [OF verbatim_hex]
  by (simp add: json_object_def obs_members_def member_bare obs_text_def)
    (simp add: str_def quoted_def escape_def)

section \<open>Its members are values\<close>

lemma json_null: "d \<le> 64 \<Longrightarrow> json_value d (str ''null'')"
  by (rule json_number) (simp_all add: str_def is_tok_def)

lemma json_word: "d \<le> 64 \<Longrightarrow> verbatim w \<Longrightarrow> json_value d (0x22 # w @ [0x22])"
  using ax_print.json_string [of d w] by (simp add: quoted_verbatim)

lemma json_param: "d \<le> 64 \<Longrightarrow> json_value d (param_text b x)"
  by (simp add: param_text_def json_null json_decimal)

lemma json_states:
  assumes "d \<le> 64"
  shows "json_value d (completion_text s)" "json_value d (failure_text t)"
proof -
  have w: "verbatim (str ''COMPLETE'')" "verbatim (str ''TRUNCATED'')" "verbatim (str ''ERROR'')" "verbatim (str ''UNKNOWN'')"
    "verbatim (str ''TIMEOUT'')" "verbatim (str ''INVALID_OUTPUT'')" "verbatim (str ''TRANSPORT_ERROR'')"
    by (simp_all add: verbatim_def str_def)
  note j = w [THEN json_word [OF assms]]
  show "json_value d (completion_text s)" using j(1-4) by (simp add: completion_text_def str_def)
  show "json_value d (failure_text t)" using j(4-7) json_null [OF assms] by (simp add: failure_text_def str_def)
qed

lemma json_params: "d \<le> 63 \<Longrightarrow> json_value d (params_text p)"
  unfolding params_text_object by (rule json_object_value) (auto simp: params_members_def intro: json_param)

lemma members_values: "d \<le> 63 \<Longrightarrow> \<forall>m\<in>set (obs_members r). json_value d (snd m)"
  by (simp add: obs_members_def json_states json_params json_decimal ax_print.json_string)

lemma no_blank:
  "\<not> is_ws (hd (completion_text s))" "\<not> is_ws (hd (failure_text t))" "\<not> is_ws (hd (dec n))" "\<not> is_ws (hd (params_text p))"
  "\<not> is_ws (hd (quoted esc_byte u))"
proof -
  have "dec n \<noteq> []" by simp
  then show "\<not> is_ws (hd (dec n))" using dec_toks(1) [of n] tok_facts hd_in_set by blast
qed (simp_all add: completion_text_def failure_text_def params_text_def str_def is_ws_def quoted_def)

lemma members_plain: "\<forall>m\<in>set (obs_members r). plain_member m"
  using members_values [of 0 r] keys_bare [of p r] no_blank
  by (simp add: plain_member_def) (simp add: obs_members_def)

text \<open>A string member of the record, read by the gateway.\<close>

lemma record_reads:
  assumes "obs_members r = ms @ (k, quoted esc_byte s) # ms'" "k \<notin> fst ` set ms" "length s < 65536"
  shows "gwj_top_string (json_object (obs_members r)) k 65536 = Some (Some (s @ [0]))"
proof -
  have "\<forall>m\<in>set ms. plain_member m \<and> fst m \<noteq> k" "bare_key k"
    using members_plain [of r] assms(1,2) by (auto simp: plain_member_def)
  then show ?thesis unfolding assms(1) using assms(3) by (intro ax_print.top_string_member) simp_all
qed

lemma length_member: "m \<in> set ms \<Longrightarrow> length (snd m) \<le> length (members ms)"
  by (induction ms rule: members.induct) (auto simp: member_def)

lemma length_string_member:
  assumes "(k, quoted esc_byte s) \<in> set ms" "length (json_object ms) \<le> n"
  shows "length s < n"
proof -
  have "length s \<le> length (concat (map esc_byte s))"
    by (induction s) (auto simp: esc_byte_def)
  then show ?thesis using length_member [OF assms(1)] assms(2) by (simp add: json_object_def quoted_def)
qed

lemma record_string:
  assumes "length (json_object (obs_members r)) \<le> 65536"
    and "n < 11" "obs_members r ! n = (k, quoted esc_byte s)" "k \<notin> fst ` set (take n (obs_members r))"
  shows "gwj_top_string (json_object (obs_members r)) k 65536 = Some (Some (s @ [0]))"
proof -
  have n: "n < length (obs_members r)" using assms(2) by (simp add: obs_members_def)
  have "obs_members r = take n (obs_members r) @ (k, quoted esc_byte s) # drop (Suc n) (obs_members r)"
    using id_take_nth_drop [OF n] assms(3) by simp
  moreover have "length s < 65536"
    using length_string_member [OF _ assms(1)] nth_mem [OF n] assms(3) by simp
  ultimately show ?thesis using assms(4) by (intro record_reads)
qed

lemma record_strings:
  assumes "length (json_object (obs_members r)) \<le> 65536"
  defines "read \<equiv> \<lambda>k. gwj_top_string (json_object (obs_members r)) (str k) 65536"
  shows "read ''input_hash'' = Some (Some (hex_text (input_hash r) @ [0]))"
    and "read ''model_id'' = Some (Some (opt_text (model_id r) @ [0]))"
    and "read ''obs_hash'' = Some (Some (c_str (obs_hash r) @ [0]))"
    and "read ''oracle_id'' = Some (Some (opt_text (oracle_id r) @ [0]))"
    and "read ''output'' = Some (Some (opt_text (obs_output r) @ [0]))"
    and "read ''schema_version'' = Some (Some (opt_text (schema_version r) @ [0]))"
  unfolding read_def
  by (rule record_string [OF assms(1), of 2] record_string [OF assms(1), of 4] record_string [OF assms(1), of 5]
      record_string [OF assms(1), of 6] record_string [OF assms(1), of 7] record_string [OF assms(1), of 10];
      simp add: obs_members_def str_def; fail)+

section \<open>Properties\<close>

text \<open>
  C20: The record is JSON that says what it means: the canonical text of an admitted record is taken by
  the gateway's scanner as one value with nothing after it, and reading its string
  members from it returns the fields of the record - the normalised output, both identifiers, the
  version and the two hashes - whatever characters they contain.
\<close>

theorem admitted_record_reads:
  assumes "digests_32 S" "n \<noteq> 0" "readable i" "ax_obs_admit S n i ctx f = Some r" "a_rc r = AX_OK"
  shows "\<exists>len buf. ax_obs_canonicalise (of_nat AX_CANONICAL_BUFFER_SIZE) (a_out r) True = Some (len, buf) \<and> 0 < len \<and>
    (let body = take (nat len) buf; read = (\<lambda>k. gwj_top_string body (str k) (of_nat AX_MAX_OBS_BYTES)) in
       s_skip_value (scan_fuel body) 0 body = Some (Some []) \<and>
       read ''output'' = Some (Some (lf_norm (out_src i) @ [0])) \<and>
       read ''model_id'' = Some (Some (opt_text (in_model_id i) @ [0])) \<and>
       read ''oracle_id'' = Some (Some (opt_text (in_oracle_id i) @ [0])) \<and>
       read ''schema_version'' = Some (Some (AX_OBS_SCHEMA_VERSION @ [0])) \<and>
       read ''input_hash'' = Some (Some (hex_text (input_digest S i) @ [0])) \<and>
       read ''obs_hash'' = Some (Some (obs_hash (a_out r) @ [0])))"
proof -
  note ok = admit_ok_record [OF assms]
  note c = admit_code_ok [OF ok(2)]
  let ?o = "a_out r" and ?t = "obs_text (a_out r) True"
  have f: "input_hash ?o = input_digest S i" "opt_text (schema_version ?o) = AX_OBS_SCHEMA_VERSION"
    "c_str (obs_hash ?o) = obs_hash ?o" "model_id ?o = in_model_id i" "oracle_id ?o = in_oracle_id i"
    "opt_text (obs_output ?o) = lf_norm (out_src i)" "verbatim (obs_hash ?o)"
    unfolding ok(1) using opt_text_obs_of [OF c(5)] verbatim_hex by (simp_all add: hashed_def) (simp_all add: obs_of_def opt_text_def)
  have "verbatim AX_OBS_SCHEMA_VERSION" by (simp add: AX_OBS_SCHEMA_VERSION_def verbatim_def str_def)
  then have t: "?t = json_object (obs_members ?o)" using f by (intro obs_text_object) simp_all
  have len: "length ?t \<le> AX_MAX_OBS_BYTES" using c(9) ok(1) by simp
  then have "ax_obs_canonicalise (of_nat AX_CANONICAL_BUFFER_SIZE) ?o True = Some (int (length ?t), ?t @ [0])"
    using obs_canonicalise_131072 [of ?o True] f(1) length_input_digest [OF assms(1)] by (simp add: limit_defs)
  moreover have "s_skip_value (scan_fuel ?t) 0 ?t = Some (Some [])"
    using json_valueD [OF json_object_value [of "obs_members ?o" 0], of "scan_fuel ?t" "[]"] members_values [of 1 ?o]
    by (simp add: t scan_fuel_def value_end_def) (simp add: obs_members_def)
  moreover have "?t \<noteq> []" by (simp add: t json_object_def)
  ultimately show ?thesis using record_strings [of ?o] len f by (simp add: t limit_defs)
qed

theorem admitted_record_reads_witness:
  "\<exists>len buf. ax_obs_canonicalise (of_nat AX_CANONICAL_BUFFER_SIZE) (hashed sample_substrate (obs_of sample_substrate sample_input)) True = Some (len, buf) \<and>
     gwj_top_string (take (nat len) buf) (str ''schema_version'') (of_nat AX_MAX_OBS_BYTES) = Some (Some (str ''AX:OBS:v1'' @ [0]))"
proof -
  obtain r where r: "ax_obs_admit sample_substrate 64 sample_input ax_admission_ctx_init (ax_l3_fault_init ()) = Some r"
    "a_rc r = AX_OK" "a_out r = hashed sample_substrate (obs_of sample_substrate sample_input)"
    using admit_complete [of sample_substrate 64 sample_input ax_admission_ctx_init "ax_l3_fault_init ()"]
      sample_substrate_ok sample_admitted by (auto simp: admit_post_def)
  with admitted_record_reads [of sample_substrate 64 sample_input ax_admission_ctx_init "ax_l3_fault_init ()" r]
  show ?thesis using sample_substrate_ok by (auto simp: Let_def AX_OBS_SCHEMA_VERSION_def)
qed

end
