(* ===== verification/GwRequest.thy ===== *)
theory GwRequest
  imports JsonObject GwConfig
begin

text \<open>
  The request side of the gateway service, \<open>gateway/src/gw_main.c\<close>: the line
  protocol, the body sent to the oracle and the header of the response.
\<close>

section \<open>Model: helpers\<close>

definition hex32 :: "byte list \<Rightarrow> byte list" where
  "hex32 h = concat (map (\<lambda>b. [hexdigit (drop_bit 4 b AND 0xF), hexdigit (b AND 0xF)]) (take 32 h))"

text \<open>\<open>%06u\<close>\<close>

definition pad6 :: "nat \<Rightarrow> byte list" where
  "pad6 n = replicate (6 - length (dec n)) 0x30 @ dec n"

definition q16_to_dec :: "nat \<Rightarrow> i32 \<Rightarrow> byte list option" where
  "q16_to_dec cap q =
     (if sint q < 0 then None
      else
        let ip = drop_bit 16 q;
            fp = ucast (drop_bit 16 ((ucast (q AND 0xFFFF) :: u64) * 1000000)) :: 32 word;
            text = dec (unat ip) @ [0x2E] @ pad6 (unat fp)
        in if length text < cap then Some text else None)"

definition gw_reqjson_cap :: "gw_config_t \<Rightarrow> nat" where
  "gw_reqjson_cap cfg = nat (max_prompt_bytes cfg) * 6 + GW_ID_MAX * 6 + 1024"

text \<open>\<open>req_put\<close> with the formatted text; the buffer is what has been put so far.\<close>

definition req_put :: "nat \<Rightarrow> byte list \<Rightarrow> byte list \<Rightarrow> byte list option" where
  "req_put cap buf text =
     (if cap \<le> length buf then None
      else if cap - length buf \<le> length text then None
      else Some (buf @ text))"

section \<open>Model: the line protocol\<close>

fun read_line_loop :: "nat \<Rightarrow> byte list \<Rightarrow> byte list \<Rightarrow> (byte list \<times> byte list) option" where
  "read_line_loop 0 buf f = None"
| "read_line_loop (Suc k) buf [] = None"
| "read_line_loop (Suc k) buf (c # f) = (if c = 0x0A then Some (buf, f) else read_line_loop k (buf @ [c]) f)"

text \<open>\<open>f\<close> is what the connection still delivers; a read at its end returns 0.\<close>

definition read_line :: "nat \<Rightarrow> byte list \<Rightarrow> (byte list \<times> byte list) option" where
  "read_line cap f = read_line_loop (cap - 1) [] f"

text \<open>\<open>sscanf(line, "name: %ld", &x) == 1\<close>\<close>

definition sscanf_ld :: "string \<Rightarrow> byte list \<Rightarrow> int option" where
  "sscanf_ld name line =
     (if take (length name) line = str name then map_option fst (strtol (drop (length name) line)) else None)"

record req_params =
  prompt_len :: int
  rq_max_tokens :: int
  temp_q16 :: int
  rq_top_p_q16 :: int

lemma read_line_shorter: "read_line_loop k buf f = Some (l, r) \<Longrightarrow> length r < length f"
  by (induction k buf f rule: read_line_loop.induct) (auto split: if_splits)

text \<open>The header lines: the reason of a rejection, or the parameters and what follows the blank line.\<close>

function ingest_loop :: "req_params \<Rightarrow> byte list \<Rightarrow> string + (req_params \<times> byte list)" where
  "ingest_loop p f =
     (case read_line 256 f of
        None \<Rightarrow> Inl ''bad_request''
      | Some (buf, r) \<Rightarrow>
          let line = c_str buf in
          if line = [] then Inr (p, r)
          else case sscanf_ld ''prompt_len:'' line of Some x \<Rightarrow> ingest_loop (p\<lparr>prompt_len := x\<rparr>) r | None \<Rightarrow>
          case sscanf_ld ''max_tokens:'' line of Some x \<Rightarrow> ingest_loop (p\<lparr>rq_max_tokens := x\<rparr>) r | None \<Rightarrow>
          case sscanf_ld ''temperature_q16:'' line of Some x \<Rightarrow> ingest_loop (p\<lparr>temp_q16 := x\<rparr>) r | None \<Rightarrow>
          case sscanf_ld ''top_p_q16:'' line of Some x \<Rightarrow> ingest_loop (p\<lparr>rq_top_p_q16 := x\<rparr>) r | None \<Rightarrow>
          if take 5 line = str ''seed:'' then Inl ''seed_unsupported''
          else Inl ''unknown_key'')"
  by pat_completeness auto
termination
  by (relation "measure (\<lambda>(_, f). length f)") (auto simp: read_line_def dest: read_line_shorter)

declare ingest_loop.simps [simp del]

definition check_params :: "gw_config_t \<Rightarrow> req_params \<Rightarrow> string option" where
  "check_params cfg p =
     (if prompt_len p \<le> 0 \<or> max_prompt_bytes cfg < prompt_len p then Some ''bad_prompt_len''
      else if rq_max_tokens p \<le> 0 \<or> 200000 < rq_max_tokens p then Some ''bad_max_tokens''
      else if temp_q16 p < 0 then Some ''temperature_required''
      else if 131072 < temp_q16 p \<or> 65536 < rq_top_p_q16 p then Some ''bad_param_range''
      else None)"

text \<open>Step 1 of a request: a rejection, or the parameters and the prompt.\<close>

definition ingest :: "gw_config_t \<Rightarrow> byte list \<Rightarrow> string + (req_params \<times> byte list)" where
  "ingest cfg f =
     (case ingest_loop \<lparr>prompt_len = -1, rq_max_tokens = default_max_tokens cfg, temp_q16 = -1, rq_top_p_q16 = -1\<rparr> f of
        Inl reason \<Rightarrow> Inl reason
      | Inr (p, r) \<Rightarrow>
          (case check_params cfg p of
             Some reason \<Rightarrow> Inl reason
           | None \<Rightarrow> if length r < nat (prompt_len p) then Inl ''short_prompt'' else Inr (p, take (nat (prompt_len p)) r)))"

definition request_params :: "req_params \<Rightarrow> ax_oracle_params_t" where
  "request_params p =
     (let ps = ax_oracle_params_init_null\<lparr>p_max_tokens := of_int (rq_max_tokens p)\<rparr>;
          ps = (if 0 \<le> temp_q16 p then ps\<lparr>p_temperature := of_int (temp_q16 p)\<rparr> else ps)
      in if 0 \<le> rq_top_p_q16 p then ps\<lparr>p_top_p := of_int (rq_top_p_q16 p)\<rparr> else ps)"

definition proto_error :: "string \<Rightarrow> byte list" where
  "proto_error reason = str ''status: error'' @ [0x0A] @ str ''reason: '' @ str reason @ [0x0A, 0x0A]"

section \<open>Model: the body sent to the oracle\<close>

text \<open>\<open>None\<close> is the failure that is answered with \<open>internal\<close> before any network I/O.\<close>

definition request_body :: "gw_config_t \<Rightarrow> byte list \<Rightarrow> ax_oracle_params_t \<Rightarrow> byte list option" where
  \<open>request_body cfg norm ps =
     (let cap = gw_reqjson_cap cfg;
          (mn, model_esc) = gwj_escape_utf8 (of_nat (GW_ID_MAX * 6 + 1)) (Some (cfg_model_id cfg)) (of_nat (length (cfg_model_id cfg)));
          (en, escaped) = gwj_escape_utf8 (of_nat (nat (max_prompt_bytes cfg) * 6 + 1)) (Some norm) (of_nat (length norm))
      in
      if mn < 0 \<or> en < 0 then None
      else do {
        b \<leftarrow> req_put cap [] (str ''{"model":"'' @ c_str (take (nat mn) model_esc) @ str ''","max_tokens":'' @
               dec_int (sint (p_max_tokens ps)));
        b \<leftarrow> (if ax_params_temperature_is_null ps then Some b
              else do { d \<leftarrow> q16_to_dec 24 (p_temperature ps); req_put cap b (str '',"temperature":'' @ d) });
        b \<leftarrow> (if ax_params_top_p_is_null ps then Some b
              else do { d \<leftarrow> q16_to_dec 24 (p_top_p ps); req_put cap b (str '',"top_p":'' @ d) });
        req_put cap b (str '',"messages":[{"role":"user","content":"'' @ c_str (take (nat en) escaped) @ str ''"}]}'')
      })\<close>

section \<open>Model: the header of the response\<close>

definition state_name :: "ax_completion_state_t \<Rightarrow> byte list" where
  "state_name s =
     (if s = AX_COMPLETION_COMPLETE then str ''COMPLETE''
      else if s = AX_COMPLETION_TRUNCATED then str ''TRUNCATED'' else str ''ERROR'')"

definition failure_name :: "ax_failure_type_t \<Rightarrow> byte list" where
  "failure_name f =
     (if f = AX_FAILURE_NULL then str ''NULL''
      else if f = AX_FAILURE_TIMEOUT then str ''TIMEOUT''
      else if f = AX_FAILURE_INVALID_OUTPUT then str ''INVALID_OUTPUT'' else str ''TRANSPORT_ERROR'')"

definition HDR_SIZE :: nat where "HDR_SIZE = 384 + GW_ID_MAX"

text \<open>\<open>None\<close> if the header does not fit its buffer.\<close>

definition response_header ::
    "bool \<Rightarrow> ax_completion_state_t \<Rightarrow> ax_failure_type_t \<Rightarrow> byte list \<Rightarrow> byte list \<Rightarrow> u64 \<Rightarrow> byte list \<Rightarrow> ax_oracle_params_t \<Rightarrow> nat \<Rightarrow>
     byte list option" where
  "response_header ok state ftype obs_hash_hex head_hex seq model ps output_len =
     (let temp_str = (if ax_params_temperature_is_null ps then str ''null'' else dec_int (sint (p_temperature ps)));
          hdr = str ''status: '' @ (if ok then str ''ok'' else str ''error'') @ [0x0A] @
                str ''completion_state: '' @ state_name state @ [0x0A] @
                str ''failure_type: '' @ failure_name ftype @ [0x0A] @
                str ''obs_hash: '' @ obs_hash_hex @ [0x0A] @
                str ''chain_head: '' @ head_hex @ [0x0A] @
                str ''seq: '' @ dec (unat seq) @ [0x0A] @
                str ''snapshot_id: '' @ model @ [0x0A] @
                str ''temperature_q16: '' @ temp_str @ [0x0A] @
                str ''output_len: '' @ dec output_len @ [0x0A, 0x0A]
      in if HDR_SIZE \<le> length hdr then None else Some hdr)"


section \<open>Decimal text of a Q16.16 value\<close>

lemma length_dec_less: "n < 10 ^ Suc k \<Longrightarrow> length (dec n) \<le> Suc k"
proof (induction k arbitrary: n)
  case 0
  then show ?case by (simp add: dec.simps)
next
  case (Suc k)
  from Suc.prems have "n div 10 < 10 ^ Suc k" by (simp add: div_less_iff_less_mult)
  with Suc.IH show ?case by (simp add: dec.simps [of n])
qed

lemma length_pad6: "n < 1000000 \<Longrightarrow> length (pad6 n) = 6"
  using length_dec_less [of n 5] by (simp add: pad6_def)

text \<open>The millionths of a value, rounded down.\<close>

definition millionths :: "i32 \<Rightarrow> nat" where
  "millionths q = unat q * 1000000 div 65536"

lemma unat_low16: "unat (q AND 0xFFFF :: i32) = unat q mod 65536"
proof -
  have "q AND 0xFFFF = take_bit 16 q" by (simp add: take_bit_eq_mask mask_eq_exp_minus_1)
  then show ?thesis by (simp add: unsigned_take_bit_eq) (simp add: take_bit_eq_mod)
qed

lemma q16_fraction:
  "unat (ucast (drop_bit 16 ((ucast (q AND 0xFFFF) :: u64) * 1000000)) :: 32 word) = unat (q :: i32) mod 65536 * 1000000 div 65536"
proof -
  have b: "unat q mod 65536 * 1000000 < 65536 * 1000000" by simp
  have "unat (ucast (q AND 0xFFFF) :: u64) = unat q mod 65536"
    using mod_less_divisor [of 65536 "unat q"] by (simp add: unat_low16 unsigned_ucast_eq take_bit_nat_eq_self_iff)
  with b have p: "unat ((ucast (q AND 0xFFFF) :: u64) * 1000000) = unat q mod 65536 * 1000000"
    by (simp add: unat_word_ariths)
  have "unat q mod 65536 * 1000000 div 65536 < 2 ^ 32" using b by (simp add: div_less_iff_less_mult)
  then show ?thesis by (simp add: unsigned_ucast_eq unat_drop_bit_eq p) (simp add: drop_bit_eq_div take_bit_nat_eq_self_iff)
qed

lemma q16_parts:
  "millionths q div 1000000 = unat (drop_bit 16 q)" "millionths q mod 1000000 = unat q mod 65536 * 1000000 div 65536"
proof -
  let ?r = "unat q mod 65536 * 1000000 div 65536"
  have r: "?r < 1000000" by (simp add: div_less_iff_less_mult)
  have "unat q * 1000000 = 65536 * (unat q div 65536 * 1000000) + unat q mod 65536 * 1000000"
    using div_mult_mod_eq [of "unat q" 65536] by linarith
  then have "millionths q = unat q div 65536 * 1000000 + ?r"
    unfolding millionths_def by simp
  with r show "millionths q div 1000000 = unat (drop_bit 16 q)" "millionths q mod 1000000 = ?r"
    by (simp_all add: unat_drop_bit_eq) (simp add: drop_bit_eq_div)
qed

definition q16_text :: "i32 \<Rightarrow> byte list" where
  "q16_text q = dec (millionths q div 1000000) @ [0x2E] @ pad6 (millionths q mod 1000000)"

lemma unat_less_32: "unat (w :: 32 word) < 4294967296"
proof -
  have "unat w < 2 ^ LENGTH(32)" by (rule unsigned_less)
  then show ?thesis by simp
qed

lemma length_q16_text: "length (q16_text q) \<le> 12"
proof -
  have "unat (drop_bit 16 q) < 10 ^ Suc 4"
    using unat_less_32 [of q] by (simp add: unat_drop_bit_eq) (simp add: drop_bit_eq_div div_less_iff_less_mult)
  with length_dec_less [of "unat (drop_bit 16 q)" 4] length_pad6 [of "millionths q mod 1000000"]
  show ?thesis by (simp add: q16_text_def q16_parts(1))
qed

lemma q16_to_dec_eq: "12 < cap \<Longrightarrow> q16_to_dec cap q = (if sint q < 0 then None else Some (q16_text q))"
  using length_q16_text [of q]
  by (simp add: q16_to_dec_def Let_def q16_fraction flip: q16_parts) (simp add: q16_text_def)

section \<open>The body of the request\<close>

definition request_members :: "gw_config_t \<Rightarrow> byte list \<Rightarrow> ax_oracle_params_t \<Rightarrow> (byte list \<times> byte list) list" where
  "request_members cfg norm ps =
     [(str ''model'', quoted gw_esc (cfg_model_id cfg)), (str ''max_tokens'', dec_int (sint (p_max_tokens ps)))] @
     (if ax_params_temperature_is_null ps then [] else [(str ''temperature'', q16_text (p_temperature ps))]) @
     (if ax_params_top_p_is_null ps then [] else [(str ''top_p'', q16_text (p_top_p ps))]) @
     [(str ''messages'', [0x5B] @ json_object [(str ''role'', quoted gw_esc (str ''user'')), (str ''content'', quoted gw_esc norm)] @ [0x5D])]"

definition sendable :: "ax_oracle_params_t \<Rightarrow> bool" where
  "sendable ps \<longleftrightarrow> (ax_params_temperature_is_null ps \<or> 0 \<le> sint (p_temperature ps)) \<and>
     (ax_params_top_p_is_null ps \<or> 0 \<le> sint (p_top_p ps))"

lemma req_put_fits: "length buf + length text < cap \<Longrightarrow> req_put cap buf text = Some (buf @ text)"
  by (auto simp: req_put_def)

lemma req_put_bound: "req_put cap buf text = Some b \<Longrightarrow> length b < cap"
  by (auto simp: req_put_def split: if_splits)

lemma length_gw_escape: "length (gw_escape s) \<le> 6 * length s"
proof (induction s)
  case (Cons c s)
  then show ?case using length_gw_esc [of c] by (simp add: gw_escape_Cons)
qed (simp add: gw_escape_def)

lemma c_str_gw_escape: "c_str (gw_escape s) = gw_escape s"
proof (rule c_str_id)
  show "0 \<notin> set (gw_escape s)" unfolding gw_escape_def by (auto simp: gw_esc_cases split: if_splits)
qed

lemma escape_text:
  assumes "utf8_text s" "length s \<le> n" "n \<le> 1048576"
  shows "gwj_escape_utf8 (of_nat (n * 6 + 1)) (Some s) (of_nat (length s)) = (int (length (gw_escape s)), gw_escape s)"
proof -
  have n: "unat (of_nat (n * 6 + 1) :: size_t) = n * 6 + 1" "unat (of_nat (length s) :: size_t) = length s"
    using assms by (intro unat_of_nat_size; simp)+
  with assms length_gw_escape [of s] have "gwj_escape (of_nat (n * 6 + 1)) s = (int (length (gw_escape s)), gw_escape s)"
    by (intro gwj_escape_fits) simp_all
  with n(2) assms(1) show ?thesis by (simp add: gwj_escape_utf8_def gw_utf8.scan_iff_text)
qed

lemma ident_utf8: "ident_ok v \<Longrightarrow> utf8_text v"
  by (auto simp: ident_ok_def id_text_def utf8_text_def plain_id_cp_def)

lemma quoted_escape: "quoted gw_esc s = [0x22] @ gw_escape s @ [0x22]"
  by (simp add: quoted_def gw_escape_def)

lemma quoted_word:
  \<open>quoted gw_esc (str ''model'') = str ''"model"''\<close> \<open>quoted gw_esc (str ''max_tokens'') = str ''"max_tokens"''\<close>
  \<open>quoted gw_esc (str ''temperature'') = str ''"temperature"''\<close> \<open>quoted gw_esc (str ''top_p'') = str ''"top_p"''\<close>
  \<open>quoted gw_esc (str ''messages'') = str ''"messages"''\<close> \<open>quoted gw_esc (str ''role'') = str ''"role"''\<close>
  \<open>quoted gw_esc (str ''content'') = str ''"content"''\<close> \<open>quoted gw_esc (str ''user'') = str ''"user"''\<close>
  by (simp_all add: str_def quoted_def gw_esc_cases)

lemma request_body_eq:
  assumes "config_inv cfg" "ident_ok (cfg_model_id cfg)" "utf8_text norm" "length norm \<le> nat (max_prompt_bytes cfg)" "sendable ps"
  shows "request_body cfg norm ps = Some (json_object (request_members cfg norm ps))"
proof -
  let ?m = "gw_escape (cfg_model_id cfg)" and ?e = "gw_escape norm"
  have mp: "nat (max_prompt_bytes cfg) \<le> 1048576" using assms(1) by (auto simp: config_inv_def)
  have "length (cfg_model_id cfg) \<le> GW_ID_MAX" using assms(2) by (simp add: ident_ok_def)
  note em = escape_text [OF ident_utf8 [OF assms(2)] this] and ee = escape_text [OF assms(3,4) mp]
  have lens: "length ?m \<le> 1530" "length ?e \<le> 6 * nat (max_prompt_bytes cfg)" "length (dec_int (sint (p_max_tokens ps))) \<le> 21"
    using length_gw_escape [of "cfg_model_id cfg"] length_gw_escape [of norm] assms(2,4) length_dec_int32
    by (simp_all add: ident_ok_def GW_ID_MAX_def)
  note q = length_q16_text [of "p_temperature ps"] length_q16_text [of "p_top_p ps"]
  show ?thesis
    using lens q assms(5) em ee
    by (simp add: request_body_def gw_reqjson_cap_def GW_ID_MAX_def c_str_gw_escape req_put_fits q16_to_dec_eq sendable_def
        request_members_def json_object_def member_def quoted_word) (auto simp: quoted_escape str_def)
qed

lemma json_q16: "d \<le> 64 \<Longrightarrow> json_value d (q16_text q)"
proof -
  have "is_tok 0x2E" "is_tok 0x30" by (simp_all add: is_tok_def str_def)
  then have "\<forall>c\<in>set (q16_text q). is_tok c" using dec_toks by (auto simp: q16_text_def pad6_def)
  then show "d \<le> 64 \<Longrightarrow> json_value d (q16_text q)" by (intro json_number) (simp_all add: q16_text_def)
qed

lemma request_members_values: "\<forall>m\<in>set (request_members cfg norm ps). json_value 1 (snd m)"
proof -
  have "json_value 2 (json_object [(str ''role'', quoted gw_esc (str ''user'')), (str ''content'', quoted gw_esc norm)])"
    by (rule json_object_value) (auto intro: gw_print.json_string)
  then have "json_value (Suc 1) (0x7B # members [(str ''role'', quoted gw_esc (str ''user'')), (str ''content'', quoted gw_esc norm)] @ [0x7D])"
    by (simp add: json_object_def eval_nat_numeral)
  note a = json_array1 [OF this]
  show ?thesis
    using a by (auto simp: request_members_def json_object_def intro: gw_print.json_string json_decimal json_q16)
qed

lemma request_body_fits: "request_body cfg norm ps = Some body \<Longrightarrow> length body < gw_reqjson_cap cfg"
  by (auto simp: request_body_def Let_def bind_eq_Some_conv dest: req_put_bound split: if_splits prod.splits)

section \<open>What ingestion accepts\<close>

definition params_ok :: "gw_config_t \<Rightarrow> req_params \<Rightarrow> bool" where
  "params_ok cfg p \<longleftrightarrow> prompt_len p \<in> {1..max_prompt_bytes cfg} \<and> rq_max_tokens p \<in> {1..200000} \<and>
     temp_q16 p \<in> {0..131072} \<and> rq_top_p_q16 p \<le> 65536"

lemma check_params_iff: "check_params cfg p = None \<longleftrightarrow> params_ok cfg p"
  by (auto simp: check_params_def params_ok_def)

lemma ingest_ok:
  assumes "ingest cfg f = Inr (p, prompt)"
  shows "params_ok cfg p" "length prompt = nat (prompt_len p)"
  using assms by (auto simp: ingest_def check_params_iff split: sum.splits option.splits if_splits)

lemma sint_of_int32: "- (2 ^ 31) \<le> x \<Longrightarrow> x < 2 ^ 31 \<Longrightarrow> sint (of_int x :: i32) = x"
  by (simp add: signed_of_int signed_take_bit_int_eq_self)

lemma request_params_ok:
  assumes "params_ok cfg p"
  shows "sint (p_max_tokens (request_params p)) = rq_max_tokens p" "sint (p_temperature (request_params p)) = temp_q16 p"
    "\<not> ax_params_temperature_is_null (request_params p)" "ax_params_seed_is_null (request_params p)"
    "if 0 \<le> rq_top_p_q16 p then sint (p_top_p (request_params p)) = rq_top_p_q16 p else ax_params_top_p_is_null (request_params p)"
    "sendable (request_params p)"
proof -
  have f: "sint (of_int (rq_max_tokens p) :: i32) = rq_max_tokens p" "sint (of_int (temp_q16 p) :: i32) = temp_q16 p"
    "0 \<le> rq_top_p_q16 p \<Longrightarrow> sint (of_int (rq_top_p_q16 p) :: i32) = rq_top_p_q16 p"
    using assms by (auto simp: params_ok_def intro!: sint_of_int32)
  have "sint (AX_PARAMS_NULL_Q16) < 0" by (simp add: AX_PARAMS_NULL_Q16_def)
  then show "\<not> ax_params_temperature_is_null (request_params p)"
    using f(2) assms by (auto simp: request_params_def Let_def ax_params_temperature_is_null_def params_ok_def)
  show "sint (p_max_tokens (request_params p)) = rq_max_tokens p" "sint (p_temperature (request_params p)) = temp_q16 p"
    using f assms by (auto simp: request_params_def Let_def params_ok_def)
  show "ax_params_seed_is_null (request_params p)"
    by (simp add: request_params_def Let_def ax_params_seed_is_null_def ax_oracle_params_init_null_def)
  show top: "if 0 \<le> rq_top_p_q16 p then sint (p_top_p (request_params p)) = rq_top_p_q16 p else ax_params_top_p_is_null (request_params p)"
    using f by (simp add: request_params_def Let_def ax_params_top_p_is_null_def ax_oracle_params_init_null_def)
  show "sendable (request_params p)"
    using f top assms by (auto simp: sendable_def request_params_def Let_def params_ok_def)
qed

text \<open>A request as a client writes it.\<close>

definition header_line :: "string \<Rightarrow> int \<Rightarrow> byte list" where
  "header_line name v = str name @ [0x20] @ dec_int v @ [0x0A]"

definition request_text :: "req_params \<Rightarrow> byte list \<Rightarrow> byte list" where
  "request_text p prompt =
     header_line ''prompt_len:'' (prompt_len p) @ header_line ''max_tokens:'' (rq_max_tokens p) @
     header_line ''temperature_q16:'' (temp_q16 p) @ header_line ''top_p_q16:'' (rq_top_p_q16 p) @ [0x0A] @ prompt"

lemma read_line_loop_line:
  "0x0A \<notin> set l \<Longrightarrow> length l < k \<Longrightarrow> read_line_loop k buf (l @ 0x0A # r) = Some (buf @ l, r)"
proof (induction l arbitrary: k buf)
  case Nil
  then show ?case by (cases k) simp_all
next
  case (Cons c l)
  then show ?case by (cases k) auto
qed

lemma read_line_line: "0x0A \<notin> set l \<Longrightarrow> Suc (length l) < cap \<Longrightarrow> read_line cap (l @ 0x0A # r) = Some (l, r)"
  by (simp add: read_line_def read_line_loop_line)

lemma dec_int_plain: "0x0A \<notin> set (dec_int i)" "0 \<notin> set (dec_int i)"
  using dec_int_printable [of "0x0A" i] by auto

lemma strtol_header: "strtol (0x20 # dec_int v) = Some (clamp_long v, [])"
  using strtol_dec [of "[]" v] by (simp add: strtol_def is_space_def)

lemma sscanf_header: "sscanf_ld name (str name @ 0x20 # dec_int v) = Some (clamp_long v)"
  by (simp add: sscanf_ld_def strtol_header)

lemma sscanf_other:
  "sscanf_ld ''prompt_len:'' (str ''max_tokens:'' @ t) = None" "sscanf_ld ''prompt_len:'' (str ''temperature_q16:'' @ t) = None"
  "sscanf_ld ''prompt_len:'' (str ''top_p_q16:'' @ t) = None" "sscanf_ld ''max_tokens:'' (str ''temperature_q16:'' @ t) = None"
  "sscanf_ld ''max_tokens:'' (str ''top_p_q16:'' @ t) = None" "sscanf_ld ''temperature_q16:'' (str ''top_p_q16:'' @ t) = None"
  by (simp_all add: sscanf_ld_def str_def)

lemma read_header:
  assumes "name \<in> {''prompt_len:'', ''max_tokens:'', ''temperature_q16:'', ''top_p_q16:''}" "length (dec_int v) \<le> 21"
  shows "read_line 256 (header_line name v @ r) = Some (str name @ 0x20 # dec_int v, r)"
    "c_str (str name @ 0x20 # dec_int v) = str name @ 0x20 # dec_int v"
  using assms read_line_line [of "str name @ 0x20 # dec_int v" 256 r]
  by (auto simp: header_line_def dec_int_plain str_def)

lemma ingest_header:
  assumes "length (dec_int v) \<le> 21"
  shows "ingest_loop p (header_line ''prompt_len:'' v @ r) = ingest_loop (p\<lparr>prompt_len := clamp_long v\<rparr>) r"
    "ingest_loop p (header_line ''max_tokens:'' v @ r) = ingest_loop (p\<lparr>rq_max_tokens := clamp_long v\<rparr>) r"
    "ingest_loop p (header_line ''temperature_q16:'' v @ r) = ingest_loop (p\<lparr>temp_q16 := clamp_long v\<rparr>) r"
    "ingest_loop p (header_line ''top_p_q16:'' v @ r) = ingest_loop (p\<lparr>rq_top_p_q16 := clamp_long v\<rparr>) r"
proof -
  have line: "ingest_loop p (header_line name v @ r) =
     (case sscanf_ld ''prompt_len:'' (str name @ 0x20 # dec_int v) of Some x \<Rightarrow> ingest_loop (p\<lparr>prompt_len := x\<rparr>) r | None \<Rightarrow>
      case sscanf_ld ''max_tokens:'' (str name @ 0x20 # dec_int v) of Some x \<Rightarrow> ingest_loop (p\<lparr>rq_max_tokens := x\<rparr>) r | None \<Rightarrow>
      case sscanf_ld ''temperature_q16:'' (str name @ 0x20 # dec_int v) of Some x \<Rightarrow> ingest_loop (p\<lparr>temp_q16 := x\<rparr>) r | None \<Rightarrow>
      case sscanf_ld ''top_p_q16:'' (str name @ 0x20 # dec_int v) of Some x \<Rightarrow> ingest_loop (p\<lparr>rq_top_p_q16 := x\<rparr>) r | None \<Rightarrow>
      if take 5 (str name @ 0x20 # dec_int v) = str ''seed:'' then Inl ''seed_unsupported'' else Inl ''unknown_key'')"
    if "name \<in> {''prompt_len:'', ''max_tokens:'', ''temperature_q16:'', ''top_p_q16:''}" for name p r
    unfolding ingest_loop.simps [of p "header_line name v @ r"] read_header [OF that assms] option.case prod.case
      read_header [OF that assms] Let_def by simp
  show "ingest_loop p (header_line ''prompt_len:'' v @ r) = ingest_loop (p\<lparr>prompt_len := clamp_long v\<rparr>) r"
    "ingest_loop p (header_line ''max_tokens:'' v @ r) = ingest_loop (p\<lparr>rq_max_tokens := clamp_long v\<rparr>) r"
    "ingest_loop p (header_line ''temperature_q16:'' v @ r) = ingest_loop (p\<lparr>temp_q16 := clamp_long v\<rparr>) r"
    "ingest_loop p (header_line ''top_p_q16:'' v @ r) = ingest_loop (p\<lparr>rq_top_p_q16 := clamp_long v\<rparr>) r"
    by (simp_all add: line sscanf_header sscanf_other)
qed

lemma ingest_blank: "ingest_loop p (0x0A # r) = Inr (p, r)"
  by (subst ingest_loop.simps) (simp add: read_line_line [of "[]", simplified])

lemma small_long: "\<bar>v\<bar> < 2 ^ 31 \<Longrightarrow> clamp_long v = v \<and> length (dec_int v) \<le> 21"
  using length_dec_int32 [of "of_int v"] sint_of_int32 [of v] by (auto simp: clamp_long_def)

definition sample_req :: req_params where
  "sample_req = \<lparr>prompt_len = 2, rq_max_tokens = 16, temp_q16 = 0, rq_top_p_q16 = -1\<rparr>"

lemma sample_req_ok: "params_ok sample_config sample_req"
  by (simp add: params_ok_def sample_req_def sample_config_def config_defaults_def)

lemma ingest_request_text:
  assumes "params_ok cfg p" "max_prompt_bytes cfg \<le> 1024 * 1024" "-1 \<le> rq_top_p_q16 p" "length prompt = nat (prompt_len p)"
  shows "ingest cfg (request_text p prompt @ rest) = Inr (p, prompt)"
proof -
  have s: "\<bar>prompt_len p\<bar> < 2 ^ 31" "\<bar>rq_max_tokens p\<bar> < 2 ^ 31" "\<bar>temp_q16 p\<bar> < 2 ^ 31" "\<bar>rq_top_p_q16 p\<bar> < 2 ^ 31"
    using assms(1-3) by (auto simp: params_ok_def)
  have "ingest_loop q (request_text p prompt @ rest) = Inr (p, prompt @ rest)" for q :: req_params
    using s [THEN small_long] by (simp add: request_text_def ingest_header ingest_blank)
  then show ?thesis using assms(1,4) check_params_iff [of cfg p] by (simp add: ingest_def)
qed

lemma header_fits:
  assumes "length obs_hash_hex = 64" "length head_hex = 64" "length model < GW_ID_MAX" "output_len < 2 ^ 64"
  shows "\<exists>hdr. response_header ok state ftype obs_hash_hex head_hex seq model ps output_len = Some hdr"
proof -
  have "length (dec (unat seq)) \<le> 20" by (rule length_dec_u64)
  moreover have "length (dec output_len) \<le> 20"
    using length_dec_u64 [of "of_nat output_len"] unat_of_nat_size [OF assms(4)] by simp
  moreover have "length (state_name state) \<le> 9" "length (failure_name ftype) \<le> 15"
    by (simp_all add: state_name_def failure_name_def)
  moreover have "length (if ax_params_temperature_is_null ps then str ''null'' else dec_int (sint (p_temperature ps))) \<le> 21"
    using length_dec_int32 [of "p_temperature ps"] by simp
  ultimately show ?thesis using assms by (simp add: response_header_def HDR_SIZE_def GW_ID_MAX_def Let_def)
qed

section \<open>Properties\<close>

text \<open>
  C25: The request body is well-formed JSON whatever the strings are: for every configuration
  the loader accepts with a model set, every well-formed UTF-8 prompt within the configured
  limit and every pair of parameters that is null or not negative, \<open>request_body\<close> succeeds
  within the capacity computed by \<open>gw_reqjson_cap\<close>; its text is one JSON value for the
  scanner of \<open>gw_json.c\<close>, with nothing after it, whose members are exactly the intended
  ones, and reading \<open>model\<close> from it returns the configured model.
\<close>

theorem request_body_is_json:
  assumes "config_inv cfg" "ident_ok (cfg_model_id cfg)" "utf8_text norm" "length norm \<le> nat (max_prompt_bytes cfg)" "sendable ps"
  shows "\<exists>body. request_body cfg norm ps = Some body \<and> length body < gw_reqjson_cap cfg \<and>
    body = json_object (request_members cfg norm ps) \<and>
    s_skip_value (scan_fuel body) 0 body = Some (Some []) \<and>
    gwj_top_string body (str ''model'') (of_nat GW_ID_MAX) = Some (Some (cfg_model_id cfg @ [0]))"
proof -
  let ?body = "json_object (request_members cfg norm ps)"
  note b = request_body_eq [OF assms]
  have v: "json_value 0 ?body"
    using request_members_values [of cfg norm ps] by (intro json_object_value) (auto simp: request_members_def)
  have "gwj_top_string ?body (str ''model'') (of_nat GW_ID_MAX) = Some (Some (cfg_model_id cfg @ [0]))"
    using assms(2) gw_print.top_string_member [of "[]" "str ''model''" "cfg_model_id cfg" "of_nat GW_ID_MAX"]
    by (simp add: request_members_def bare_key_def ident_ok_def GW_ID_MAX_def) (simp add: str_def)
  moreover have "length ?body < gw_reqjson_cap cfg" using request_body_fits [OF b] .
  ultimately show ?thesis using b json_valueD [OF v, of "scan_fuel ?body" "[]"] by (simp add: scan_fuel_def value_end_def)
qed

theorem request_body_is_json_witness:
  "gwj_top_string (json_object (request_members sample_config (str ''hi'') ax_oracle_params_init_null)) (str ''model'') 256 =
     Some (Some (cfg_model_id sample_config @ [0]))"
proof -
  have c: "config_inv sample_config" "ident_ok (cfg_model_id sample_config)"
    using sample_config_printable by (auto simp: printable_config_def config_inv_def)
  have "utf8_text (str ''hi'')" unfolding validate_utf8_iff [symmetric] by code_simp
  moreover have "length (str ''hi'') \<le> nat (max_prompt_bytes sample_config)"
    by (simp add: sample_config_def config_defaults_def)
  moreover have "sendable ax_oracle_params_init_null"
    by (simp add: sendable_def ax_oracle_params_init_null_def param_null_defs)
  ultimately show ?thesis
    using request_body_is_json [OF c, of "str ''hi''" ax_oracle_params_init_null] by (auto simp: GW_ID_MAX_def)
qed

text \<open>
  \<open>q16_to_dec\<close> prints a non-negative Q16.16 value exactly to six decimals, rounded
  down: the digits before and after the point are the quotient and the remainder of its
  millionths, and twelve bytes always hold them; a negative value is refused.
\<close>

theorem q16_decimal:
  assumes "12 < cap"
  shows "q16_to_dec cap q =
    (if sint q < 0 then None
     else Some (dec (unat q * 1000000 div 65536 div 1000000) @ [0x2E] @ pad6 (unat q * 1000000 div 65536 mod 1000000)))"
  using q16_to_dec_eq [OF assms, of q] by (simp add: q16_text_def millionths_def)

theorem q16_decimal_witness: "q16_to_dec 24 0x18000 = Some (str ''1.500000'')"
proof -
  have "dec 500000 = str ''500000''" "dec 1 = str ''1''" by (simp_all add: dec.simps str_def)
  then show ?thesis using q16_decimal [of 24 "0x18000"] by (simp add: pad6_def) (simp add: str_def)
qed

text \<open>
  What ingestion lets through: the prompt has exactly the announced length, between 1
  and the configured limit, the token limit and both parameters are in range, the
  temperature is pinned (never null) and reaches the parameters unchanged, \<open>top_p\<close> is null
  exactly if the request has none, and no seed is ever set.
\<close>

theorem ingest_pins_temperature:
  assumes "ingest cfg f = Inr (p, prompt)"
  shows "int (length prompt) = prompt_len p \<and> prompt_len p \<in> {1..max_prompt_bytes cfg} \<and>
    sint (p_max_tokens (request_params p)) = rq_max_tokens p \<and> rq_max_tokens p \<in> {1..200000} \<and>
    \<not> ax_params_temperature_is_null (request_params p) \<and>
    sint (p_temperature (request_params p)) = temp_q16 p \<and> temp_q16 p \<in> {0..131072} \<and>
    (if 0 \<le> rq_top_p_q16 p then sint (p_top_p (request_params p)) = rq_top_p_q16 p \<and> rq_top_p_q16 p \<le> 65536
     else ax_params_top_p_is_null (request_params p)) \<and>
    ax_params_seed_is_null (request_params p)"
  using ingest_ok [OF assms] request_params_ok [OF ingest_ok(1) [OF assms]] by (auto simp: params_ok_def)

theorem ingest_pins_temperature_witness:
  "\<not> ax_params_temperature_is_null (request_params sample_req) \<and> sint (p_temperature (request_params sample_req)) = 0"
proof -
  have "ingest sample_config (request_text sample_req (str ''hi'') @ []) = Inr (sample_req, str ''hi'')"
    by (rule ingest_request_text [OF sample_req_ok]) (simp_all add: sample_req_def sample_config_def config_defaults_def)
  from ingest_pins_temperature [OF this] show ?thesis by (simp add: sample_req_def)
qed

text \<open>
  The header of a response always fits its buffer: with 64-digit hashes and a model
  identifier below \<open>GW_ID_MAX\<close> the formatted text is shorter than the 640 bytes of \<open>hdr\<close>,
  for every state, failure type, sequence number, temperature and output length, so the
  guard against a cut header is never taken.
\<close>

theorem response_header_fits:
  assumes "length obs_hash_hex = 64" "length head_hex = 64" "length model < GW_ID_MAX" "output_len < 2 ^ 64"
  shows "response_header ok state ftype obs_hash_hex head_hex seq model ps output_len \<noteq> None"
  using header_fits [OF assms] by auto

theorem response_header_fits_witness:
  "response_header False AX_COMPLETION_ERROR AX_FAILURE_TRANSPORT_ERROR (replicate 64 0x30) (replicate 64 0x30)
     0xFFFFFFFFFFFFFFFF (replicate 255 0x61) ax_oracle_params_init_null 0 \<noteq> None"
  using response_header_fits [of "replicate 64 0x30" "replicate 64 0x30" "replicate 255 0x61" 0] by (simp add: GW_ID_MAX_def)

end
