(* ===== verification/GwService.thy ===== *)
theory GwService
  imports GwRequest GwClient GwLog GwWal GwLedger
begin

text \<open>
  The gateway service, \<open>gateway/src/gw_main.c\<close>: committing an observation, one
  request from ingestion to response, recovery of an open intent, start-up and
  the accept loop.

  The state is \<open>gw_state_t\<close> together with what the other translation units and
  the file system hold for the service: the ledger's static variables, the file
  of the write-ahead intent, the log and the captured fixture.  The four
  work buffers are not part of it; their sizes appear where the code uses them.

  What a request meets outside the program is the record \<open>req_env\<close>: the bytes of
  the connection, the clock (one reading per call of \<open>gw_log\<close>, numbered by its
  place in the function), the \<open>api_key\<close> argument of \<open>handle_request\<close>, libcurl and the results of the system calls.  \<open>None\<close> is
  undefined behaviour: a read or a write outside an object.
\<close>

section \<open>Model: state and environment\<close>

definition GW_TAG_OBS :: "byte list" where "GW_TAG_OBS = str ''AX:OBS:v1''"
definition GW_TAG_STATE :: "byte list" where "GW_TAG_STATE = str ''AX:STATE:v1''"

record 'led gw_state =
  st_cfg :: gw_config_t
  adm :: ax_admission_ctx_t
  calls_made :: int
  export_drop_logged :: bool
  led :: "'led gw_ledger"
  wal :: "byte list option"
  logst :: gw_log_t
  fixture :: "byte list option"

datatype io = Wrote nat | Eintr | Fail

record fixture_env =
  fe_open_ok :: bool
  fe_writes :: "io list"
  fe_fsync_ok :: bool

record req_env =
  rq_bytes :: "byte list"
  rq_ts :: "nat \<Rightarrow> byte list"
  rq_wal :: wal_env
  rq_unlink_ok :: bool
  rq_clear :: dir_env
  rq_api_key :: "byte list"
  rq_curl :: curl_env
  rq_fixture :: fixture_env
  rq_append :: append_env
  rq_append2 :: append_env
  rq_conn :: "io list"

text \<open>
  The libraries: the substrate, the audit library, and the fault flags of the
  substrate with every byte zero.
\<close>

record ('ct, 'cf, 'led) libs =
  sub :: "'ct substrate"
  aud :: "('cf, 'led) audit"
  ct_zero :: 'ct

text \<open>
  \<open>write_all_fd\<close>, on what the descriptor has received; an exhausted list means that the calls go through.  A peer on whose
  connection \<open>write()\<close> is interrupted, or takes nothing, for ever keeps the code in this loop; that is not among
  the behaviours of a finite list.
\<close>

fun write_all_fd :: "io list \<Rightarrow> byte list \<Rightarrow> byte list \<Rightarrow> bool \<times> byte list \<times> io list" where
  "write_all_fd os f [] = (True, f, os)"
| "write_all_fd [] f (b # bs) = (True, f @ b # bs, [])"
| "write_all_fd (Wrote w # os) f (b # bs) = write_all_fd os (f @ take w (b # bs)) (drop w (b # bs))"
| "write_all_fd (Eintr # os) f (b # bs) = write_all_fd os f (b # bs)"
| "write_all_fd (Fail # os) f (b # bs) = (False, f, os)"

definition log_at :: "(nat \<Rightarrow> byte list) \<Rightarrow> nat \<Rightarrow> string \<Rightarrow> string \<Rightarrow> byte list option \<Rightarrow> int \<Rightarrow> int \<Rightarrow> u64 \<Rightarrow> 'led gw_state \<Rightarrow> 'led gw_state" where
  "log_at ts k level event message attempt status seq st =
     st\<lparr>logst := gw_log (ts k) (str level) (str event) message (of_int attempt) (of_int status) seq (logst st)\<rparr>"

section \<open>Model: committing an observation\<close>

definition commit_input ::
    "gw_config_t \<Rightarrow> u64 \<Rightarrow> ax_completion_state_t \<Rightarrow> ax_failure_type_t \<Rightarrow> byte list \<Rightarrow> byte list \<Rightarrow> ax_oracle_params_t \<Rightarrow> ax_obs_input_t" where
  "commit_input cfg seq state ftype norm output ps =
     \<lparr>in_completion_state = state, in_failure_type = ftype, in_input = Some norm, in_input_len = of_nat (length norm),
      in_ledger_seq = seq, in_model_id = Some (cfg_model_id cfg), in_oracle_id = Some (cfg_oracle_id cfg),
      in_output = Some output, in_output_len = of_nat (length output), in_params = ps\<rparr>"

text \<open>The hash, the head and the sequence number on success, \<open>None\<close> where the C function returns -1.\<close>

definition commit_observation ::
    "('ct, 'cf, 'led) libs \<Rightarrow> append_env \<Rightarrow> ax_completion_state_t \<Rightarrow> ax_failure_type_t \<Rightarrow> byte list \<Rightarrow> byte list \<Rightarrow>
     ax_oracle_params_t \<Rightarrow> 'led gw_state \<Rightarrow> ((byte list \<times> byte list \<times> u64) option \<times> 'led gw_state) option" where
  "commit_observation L env state ftype norm output ps st =
     do {
       let i = commit_input (st_cfg st) (gwl_seq (aud L) (led st) + 1) state ftype norm output ps;
       let faults = ax_l3_fault_init (ct_zero L);
       r \<leftarrow> ax_obs_admit (sub L) (of_nat AX_MAX_OUTPUT_BYTES) i (adm st) faults;
       let st = st\<lparr>adm := a_ctx r\<rparr>;
       if a_rc r \<noteq> AX_OK then Some (None, st)
       else do {
         (rc, _) \<leftarrow> ax_obs_validate (sub L) (a_out r) faults;
         if rc \<noteq> AX_OK then Some (None, st)
         else do {
           (clen, g_canon_buf) \<leftarrow> ax_obs_canonicalise (of_nat AX_CANONICAL_BUFFER_SIZE) (a_out r) True;
           if clen \<le> 0 then Some (None, st)
           else
             (case gwl_append (aud L) env (Some GW_TAG_OBS) (Some (take (nat clen) g_canon_buf)) (led st) of
                ((rc, out), l) \<Rightarrow>
                  let st = st\<lparr>led := l\<rparr> in
                  if rc \<noteq> 0 then Some (None, st)
                  else do { (head, seq) \<leftarrow> out; Some (Some (obs_hash (a_out r), hex32 head, seq), st) })
         }
       }
     }"

section \<open>Model: one request\<close>

text \<open>What the caller reads: the bytes that reached the connection.\<close>

definition send_error :: "req_env \<Rightarrow> string \<Rightarrow> byte list" where
  "send_error E reason = (case write_all_fd (rq_conn E) [] (proto_error reason) of (_, f, _) \<Rightarrow> f)"

text \<open>Step 2: the normalised prompt, \<open>None\<close> for an encoding reject.\<close>

definition normalise_prompt :: "('ct, 'cf, 'led) libs \<Rightarrow> gw_config_t \<Rightarrow> byte list \<Rightarrow> byte list option option" where
  "normalise_prompt L cfg prompt =
     do {
       (n, norm, _) \<leftarrow> ax_validate_and_normalise (of_nat (nat (max_prompt_bytes cfg) + 1)) prompt (ax_l3_fault_init (ct_zero L));
       Some (if n < 0 then None else Some (take (nat n) norm))
     }"

definition request_intent :: "byte list \<Rightarrow> byte list \<Rightarrow> ax_oracle_params_t \<Rightarrow> gw_intent_t" where
  "request_intent hash_hex model ps =
     \<lparr>input_hash_hex = hash_hex, wi_model_id = cut 256 model, wi_max_tokens = p_max_tokens ps, wi_seed = -1,
      temperature_q16 = p_temperature ps, top_p_q16 = p_top_p ps\<rparr>"

definition capture_fixture :: "req_env \<Rightarrow> byte list \<Rightarrow> 'led gw_state \<Rightarrow> 'led gw_state" where
  "capture_fixture E body st =
     (let path = fixture_capture_path (st_cfg st); fe = rq_fixture E in
      if path = [] \<or> \<not> fe_open_ok fe \<or> fixture st \<noteq> None then st
      else case write_all_fd (fe_writes fe) [] body of
        (ok, f, _) \<Rightarrow>
          let st = st\<lparr>fixture := Some f\<rparr> in
          if ok \<and> fe_fsync_ok fe then log_at (rq_ts E) 5 ''info'' ''fixture_captured'' (Some path) (-1) (-1) 0 st else st)"

text \<open>Steps 6 to 9, the switch: what is to be recorded, the output and whether the caller is told ok.\<close>

definition oracle_outcome ::
    "req_env \<Rightarrow> gwc_result_t \<Rightarrow> 'led gw_state \<Rightarrow>
     (ax_completion_state_t \<times> ax_failure_type_t \<times> byte list \<times> bool \<times> 'led gw_state) option" where
  "oracle_outcome E res st =
     (let body = (case res_body res of None \<Rightarrow> [] | Some b \<Rightarrow> b);
          fail = (\<lambda>ftype message st. (AX_COMPLETION_ERROR, ftype, [], False,
            log_at (rq_ts E) 6 ''error'' ''oracle_fail'' (Some message) (attempts res) (http_status res) 0 st))
      in case outcome res of
        GWC_OK \<Rightarrow>
          (let st = capture_fixture E body st in
           do {
             text \<leftarrow> gwj_content_text body (of_nat AX_MAX_OUTPUT_BYTES);
             stop \<leftarrow> gwj_top_string body (str ''stop_reason'') 64;
             Some (case (text, stop) of
                (Some t, Some stop_reason) \<Rightarrow>
                  (if c_str stop_reason = str ''max_tokens'' then AX_COMPLETION_TRUNCATED else AX_COMPLETION_COMPLETE,
                   AX_FAILURE_NULL, t, True,
                   log_at (rq_ts E) 6 ''info'' ''oracle_ok'' (Some stop_reason) (attempts res) (http_status res) 0 st)
              | _ \<Rightarrow> fail AX_FAILURE_INVALID_OUTPUT (str ''200 body failed structural parse'') st)
           })
      | GWC_TIMEOUT \<Rightarrow> Some (fail AX_FAILURE_TIMEOUT (errbuf res) st)
      | GWC_OVERCAP \<Rightarrow> Some (fail AX_FAILURE_INVALID_OUTPUT (errbuf res) st)
      | GWC_HTTP_FAIL \<Rightarrow>
          do {
            em \<leftarrow> (if res_body res = None then Some None else gwj_error_message body 400);
            Some (fail AX_FAILURE_TRANSPORT_ERROR (case em of Some m \<Rightarrow> m | None \<Rightarrow> errbuf res) st)
          }
      | GWC_TRANSPORT \<Rightarrow> Some (fail AX_FAILURE_TRANSPORT_ERROR (errbuf res) st))"

text \<open>Step 10: the commit, degraded to \<open>INVALID_OUTPUT\<close> when a completion is not admitted; \<open>None\<close> inside is a fault.\<close>

definition commit_or_degrade ::
    "('ct, 'cf, 'led) libs \<Rightarrow> req_env \<Rightarrow> gwc_result_t \<Rightarrow> byte list \<Rightarrow> ax_oracle_params_t \<Rightarrow>
     ax_completion_state_t \<Rightarrow> ax_failure_type_t \<Rightarrow> byte list \<Rightarrow> bool \<Rightarrow> 'led gw_state \<Rightarrow>
     ((ax_completion_state_t \<times> ax_failure_type_t \<times> byte list \<times> bool \<times> byte list \<times> byte list \<times> u64) option \<times> 'led gw_state) option" where
  "commit_or_degrade L E res norm ps state ftype output ok st =
     do {
       (r, st) \<leftarrow> commit_observation L (rq_append E) state ftype norm output ps st;
       case r of
         Some (h, hh, seq) \<Rightarrow> Some (Some (state, ftype, output, ok, h, hh, seq), st)
       | None \<Rightarrow>
           if state = AX_COMPLETION_COMPLETE \<or> state = AX_COMPLETION_TRUNCATED then do {
             let st = log_at (rq_ts E) 7 ''warn'' ''oracle_fail'' (Some (str ''output failed admission; recording INVALID_OUTPUT''))
               (attempts res) (http_status res) 0 st;
             (r, st) \<leftarrow> commit_observation L (rq_append2 E) AX_COMPLETION_ERROR AX_FAILURE_INVALID_OUTPUT norm [] ps st;
             Some (case r of
                Some (h, hh, seq) \<Rightarrow> (Some (AX_COMPLETION_ERROR, AX_FAILURE_INVALID_OUTPUT, [], False, h, hh, seq), st)
              | None \<Rightarrow> (None, st))
           }
           else Some (None, st)
     }"

text \<open>After the commit the intent is closed and the export is watched.\<close>

definition close_intent :: "req_env \<Rightarrow> byte list \<Rightarrow> u64 \<Rightarrow> 'led gw_state \<Rightarrow> 'led gw_state" where
  "close_intent E obs_hash_hex seq st =
     (let cfg = st_cfg st;
          (rc, w) = gw_wal_clear (rq_unlink_ok E) (rq_clear E) (wal_path cfg) (wal st);
          st = st\<lparr>wal := w\<rparr>;
          st = (if rc \<noteq> 0 then log_at (rq_ts E) 8 ''error'' ''fault'' (Some (str ''WAL clear failed'')) (-1) (-1) seq st else st);
          st = log_at (rq_ts E) 9 ''info'' ''obs_committed'' (Some obs_hash_hex) (-1) (-1) seq st
      in if export_path cfg \<noteq> [] \<and> \<not> gwl_export_active (led st) \<and> \<not> export_drop_logged st then
           (log_at (rq_ts E) 10 ''warn'' ''export_write_failed''
              (Some (str ''ledger export inactive; witness NOT-DISCHARGEABLE until next start'')) (-1) (-1) seq st)
             \<lparr>export_drop_logged := True\<rparr>
         else st)"

text \<open>The response: the header, then the output if the header was written.\<close>

definition respond ::
    "req_env \<Rightarrow> ax_oracle_params_t \<Rightarrow> ax_completion_state_t \<times> ax_failure_type_t \<times> byte list \<times> bool \<times> byte list \<times> byte list \<times> u64 \<Rightarrow>
     'led gw_state \<Rightarrow> 'led gw_state \<times> byte list" where
  "respond E ps x st =
     (case x of (state, ftype, output, ok, obs_hash_hex, head_hex, seq) \<Rightarrow>
      case response_header ok state ftype obs_hash_hex head_hex seq (cfg_model_id (st_cfg st)) ps (length output) of
        None \<Rightarrow> (log_at (rq_ts E) 11 ''error'' ''fault'' (Some (str ''response header exceeds buffer'')) (-1) (-1) seq st,
                 send_error E ''internal'')
      | Some hdr \<Rightarrow>
          (case write_all_fd (rq_conn E) [] hdr of
             (sent, f, os) \<Rightarrow>
               (st, if sent \<and> 0 < length output then (case write_all_fd os f output of (_, f, _) \<Rightarrow> f) else f)))"

definition finish_request ::
    "req_env \<Rightarrow> ax_oracle_params_t \<Rightarrow> ax_completion_state_t \<times> ax_failure_type_t \<times> byte list \<times> bool \<times> byte list \<times> byte list \<times> u64 \<Rightarrow>
     'led gw_state \<Rightarrow> 'led gw_state \<times> byte list" where
  "finish_request E ps x st =
     (case x of (state, ftype, output, ok, obs_hash_hex, head_hex, seq) \<Rightarrow> respond E ps x (close_intent E obs_hash_hex seq st))"

text \<open>The request from the durable intent on.\<close>

definition call_oracle ::
    "('ct, 'cf, 'led) libs \<Rightarrow> req_env \<Rightarrow> byte list \<Rightarrow> byte list \<Rightarrow> ax_oracle_params_t \<Rightarrow> 'led gw_state \<Rightarrow>
     ('led gw_state \<times> byte list) option" where
  "call_oracle L E reqjson norm ps st =
     (let st = st\<lparr>calls_made := calls_made st + 1\<rparr>;
          fault = (\<lambda>k message st. (log_at (rq_ts E) k ''error'' ''fault'' (Some (str message)) (-1) (-1) 0 st, send_error E ''internal''))
      in do {
        (rc, res, _) \<leftarrow> gwc_call (rq_curl E) (st_cfg st) (rq_api_key E) reqjson;
        if rc \<noteq> 0 then Some (fault 4 ''client allocation failure'' st)
        else do {
          (state, ftype, output, ok, st) \<leftarrow> oracle_outcome E res st;
          (r, st) \<leftarrow> commit_or_degrade L E res norm ps state ftype output ok st;
          case r of
            None \<Rightarrow> Some (fault 8 ''record validation reject: wrapper disagrees with itself'' st)
          | Some x \<Rightarrow> Some (finish_request E ps x st)
        }
      })"

text \<open>Steps 3 to 5: the spend guard, the durable intent and the body.\<close>

definition spend ::
    "('ct, 'cf, 'led) libs \<Rightarrow> req_env \<Rightarrow> byte list \<Rightarrow> ax_oracle_params_t \<Rightarrow> 'led gw_state \<Rightarrow> ('led gw_state \<times> byte list) option" where
  "spend L E norm ps st =
     (let cfg = st_cfg st; ts = rq_ts E in
      if call_budget cfg \<le> calls_made st then
        Some (log_at ts 1 ''warn'' ''budget_refused'' (Some (str ''per-run call budget exhausted'')) (-1) (-1) 0 st,
              send_error E ''budget_exhausted'')
      else do {
        input_hash \<leftarrow> ax_compute_input_hash (sub L) norm (of_nat (length norm));
        let hash_hex = hex32 input_hash;
        let (rc, w) = gw_wal_write (rq_wal E) (wal_path cfg) (request_intent hash_hex (cfg_model_id cfg) ps) (wal st);
        let st = st\<lparr>wal := w\<rparr>;
        if rc \<noteq> 0 then
          Some (log_at ts 2 ''error'' ''fault'' (Some (str ''WAL intent write failed'')) (-1) (-1) 0 st, send_error E ''internal'')
        else do {
          let st = log_at ts 2 ''info'' ''intent'' (Some hash_hex) (-1) (-1) (gwl_seq (aud L) (led st) + 1) st;
          case request_body cfg norm ps of
            None \<Rightarrow>
              (let st = log_at ts 3 ''error'' ''fault'' (Some (str ''request body build failed (identifier or prompt not escapable)''))
                     (-1) (-1) 0 st;
                   (_, w) = gw_wal_clear (rq_unlink_ok E) (rq_clear E) (wal_path cfg) (wal st)
               in Some (st\<lparr>wal := w\<rparr>, send_error E ''internal''))
          | Some reqjson \<Rightarrow> call_oracle L E reqjson norm ps st
        }
      })"

text \<open>Two of the protocol rejections are logged.\<close>

definition log_reject :: "(nat \<Rightarrow> byte list) \<Rightarrow> string \<Rightarrow> 'led gw_state \<Rightarrow> 'led gw_state" where
  "log_reject ts reason st =
     (if reason = ''seed_unsupported'' then
        log_at ts 0 ''warn'' ''protocol_reject'' (Some (str ''seed parameter unsupported by oracle'')) (-1) (-1) 0 st
      else if reason = ''temperature_required'' then
        log_at ts 0 ''warn'' ''protocol_reject'' (Some (str ''temperature_q16 required: unpinned serving refused'')) (-1) (-1) 0 st
      else st)"

definition handle_request :: "('ct, 'cf, 'led) libs \<Rightarrow> req_env \<Rightarrow> 'led gw_state \<Rightarrow> ('led gw_state \<times> byte list) option" where
  "handle_request L E st =
     (case ingest (st_cfg st) (rq_bytes E) of
        Inl reason \<Rightarrow> Some (log_reject (rq_ts E) reason st, send_error E reason)
      | Inr (p, prompt) \<Rightarrow> do {
          n \<leftarrow> normalise_prompt L (st_cfg st) prompt;
          case n of
            None \<Rightarrow>
              Some (log_at (rq_ts E) 1 ''warn'' ''encoding_reject'' (Some (str ''prompt failed UTF-8/NFC/control validation'')) (-1) (-1) 0 st,
                    send_error E ''encoding_reject'')
          | Some norm \<Rightarrow> spend L E norm (request_params p) st
        })"

section \<open>Committing\<close>

definition commit_rec :: "('ct, 'cf, 'led) libs \<Rightarrow> ax_completion_state_t \<Rightarrow> ax_failure_type_t \<Rightarrow> byte list \<Rightarrow> byte list \<Rightarrow>
    ax_oracle_params_t \<Rightarrow> 'led gw_state \<Rightarrow> ax_obs_record_t" where
  "commit_rec L state ftype norm output ps st =
     hashed (sub L) (obs_of (sub L) (commit_input (st_cfg st) (gwl_seq (aud L) (led st) + 1) state ftype norm output ps))"

definition commit_code :: "('ct, 'cf, 'led) libs \<Rightarrow> ax_completion_state_t \<Rightarrow> ax_failure_type_t \<Rightarrow> byte list \<Rightarrow> byte list \<Rightarrow>
    ax_oracle_params_t \<Rightarrow> 'led gw_state \<Rightarrow> int" where
  "commit_code L state ftype norm output ps st =
     admit_code (sub L) (of_nat AX_MAX_OUTPUT_BYTES)
       (commit_input (st_cfg st) (gwl_seq (aud L) (led st) + 1) state ftype norm output ps) (adm st)"

lemma unat_of_nat_le: "unat (of_nat n :: size_t) \<le> n"
  by (simp add: unsigned_of_nat take_bit_nat_less_eq_self)

lemma readable_commit: "readable (commit_input cfg seq state ftype norm output ps)"
  by (simp add: readable_def commit_input_def unat_of_nat_le)

lemma append_rc: "gwl_append A env tag payload l = ((rc, out), l') \<Longrightarrow> rc = 0 \<or> rc = -1"
  by (auto simp: gwl_append_def Let_def split: if_splits prod.splits)

lemma append_fd: "gwl_append A env tag payload l = ((0, out), l') \<Longrightarrow> g_fd l"
  by (auto simp: gwl_append_def Let_def split: if_splits)

lemma obs_text_nonempty: "obs_text r h \<noteq> []"
  by (simp add: obs_text_def str_def)

text \<open>Everything a commit does.\<close>

lemma commit_eq:
  fixes L :: "('ct, 'cf, 'led) libs" and st :: "'led gw_state" and state ftype :: int and norm "output" :: "byte list" and ps :: ax_oracle_params_t
  assumes "digests_32 (sub L)"
  defines "r \<equiv> commit_rec L state ftype norm output ps st"
  shows "commit_observation L env state ftype norm output ps st = Some
    (if commit_code L state ftype norm output ps st \<noteq> AX_OK then (None, st)
     else let st1 = st\<lparr>adm := \<lparr>last_ledger_seq = gwl_seq (aud L) (led st) + 1, initialized = True\<rparr>\<rparr>;
              ((rc, out), l) = gwl_append (aud L) env (Some GW_TAG_OBS) (Some (obs_text r True)) (led st)
          in if rc \<noteq> 0 then (None, st1\<lparr>led := l\<rparr>)
             else (Some (obs_hash r, hex32 (gwl_head (aud L) l), gwl_seq (aud L) l), st1\<lparr>led := l\<rparr>))"
proof -
  let ?i = "commit_input (st_cfg st) (gwl_seq (aud L) (led st) + 1) state ftype norm output ps"
  let ?f = "ax_l3_fault_init (ct_zero L)"
  have n: "of_nat AX_MAX_OUTPUT_BYTES \<noteq> (0 :: size_t)" by (simp add: limit_defs)
  obtain a where a: "ax_obs_admit (sub L) (of_nat AX_MAX_OUTPUT_BYTES) ?i (adm st) ?f = Some a"
    and rc: "a_rc a = commit_code L state ftype norm output ps st" and post: "admit_post (sub L) ?i (adm st) ?f a"
    using admit_complete [OF assms(1) n readable_commit] unfolding commit_code_def by blast
  show ?thesis
  proof (cases "commit_code L state ftype norm output ps st = AX_OK")
    case False
    with a rc post show ?thesis by (simp add: commit_observation_def admit_post_def)
  next
    case True
    have out: "a_out a = r" "a_ctx a = \<lparr>last_ledger_seq = gwl_seq (aud L) (led st) + 1, initialized = True\<rparr>"
      using post True rc by (simp_all add: admit_post_def r_def commit_rec_def commit_input_def)
    have v: "ax_obs_validate (sub L) r ?f = Some (AX_OK, ?f)"
      using admitted_validates [OF assms(1)] True unfolding r_def commit_rec_def commit_code_def by blast
    have "length (obs_text r True) < AX_CANONICAL_BUFFER_SIZE"
      using admit_code_ok(9) True unfolding r_def commit_rec_def commit_code_def by (force simp: limit_defs)
    then have c: "ax_obs_canonicalise (of_nat AX_CANONICAL_BUFFER_SIZE) r True = Some (int (length (obs_text r True)), obs_text r True @ [0])"
      using obs_canonicalise_131072 [of r True] length_input_digest [OF assms(1)] by (simp add: r_def commit_rec_def)
    obtain rc2 o2 l where g: "gwl_append (aud L) env (Some GW_TAG_OBS) (Some (obs_text r True)) (led st) = ((rc2, o2), l)"
      by (metis surj_pair)
    have "o2 = Some (gwl_head (aud L) l, gwl_seq (aud L) l)" if "rc2 = 0"
      using g that append_success(6) append_fd by blast
    with a rc out v c g True show ?thesis
      by (simp add: commit_observation_def obs_text_nonempty Let_def)
  qed
qed

text \<open>
  A commit that fails after admission blocks the store: the admission context has moved past
  the number the next record would get.  The sequence number of the chain is what the audit
  library promises to leave alone on a fault.
\<close>

definition fault_keeps_seq :: "('cf, 'led) audit \<Rightarrow> bool" where
  "fault_keeps_seq A \<longleftrightarrow> (\<forall>ctx c. \<not> chain_ok A ctx c \<longrightarrow> led_sequence A (chain A ctx c) = led_sequence A ctx)"

definition blocked :: "('cf, 'led) audit \<Rightarrow> 'led gw_state \<Rightarrow> bool" where
  "blocked A st \<longleftrightarrow> initialized (adm st) \<and> last_ledger_seq (adm st) = gwl_seq A (led st) + 1"

definition store_inv :: "('cf, 'led) audit \<Rightarrow> (byte list \<times> byte list) list \<Rightarrow> 'led gw_state \<Rightarrow> bool" where
  "store_inv A es st \<longleftrightarrow> ledger_inv A es (led st) \<or> blocked A st \<and> on_disk A es (g_file (led st))"

lemma commit_blocked:
  assumes "digests_32 (sub L)" "blocked (aud L) st"
  shows "commit_observation L env state ftype norm output ps st = Some (None, st)"
proof -
  have "commit_code L state ftype norm output ps st = AX_ERR_ORDERING"
    using assms(2) by (simp add: commit_code_def admit_code_def blocked_def commit_input_def)
  then show ?thesis using commit_eq [OF assms(1), of env state ftype norm "output" ps st] by (simp add: rc_defs)
qed

lemma append_failed_seq:
  assumes "fault_keeps_seq A" "gwl_append A env (Some tag) (Some payload) l = ((rc, out), l')" "rc \<noteq> 0" "g_fd l"
  shows "gwl_seq A l' = gwl_seq A l"
  using assms(2,3) assms(1) unfolding append_eq [OF assms(4)] fault_keeps_seq_def
  by (auto simp: gwl_seq_def Let_def split: if_splits prod.splits)

lemma log_at_simps [simp]:
  "st_cfg (log_at ts k lv ev m a s q st) = st_cfg st" "adm (log_at ts k lv ev m a s q st) = adm st"
  "calls_made (log_at ts k lv ev m a s q st) = calls_made st" "led (log_at ts k lv ev m a s q st) = led st"
  "wal (log_at ts k lv ev m a s q st) = wal st" "fixture (log_at ts k lv ev m a s q st) = fixture st"
  "export_drop_logged (log_at ts k lv ev m a s q st) = export_drop_logged st"
  by (simp_all add: log_at_def)

lemma capture_fixture_simps [simp]:
  "st_cfg (capture_fixture E b st) = st_cfg st" "adm (capture_fixture E b st) = adm st"
  "calls_made (capture_fixture E b st) = calls_made st" "led (capture_fixture E b st) = led st"
  "wal (capture_fixture E b st) = wal st" "export_drop_logged (capture_fixture E b st) = export_drop_logged st"
  by (simp_all add: capture_fixture_def Let_def split: prod.split)

text \<open>The parts of the state that decide what is on disk.\<close>

definition core :: "'led gw_state \<Rightarrow> gw_config_t \<times> ax_admission_ctx_t \<times> int \<times> 'led gw_ledger \<times> byte list option" where
  "core st = (st_cfg st, adm st, calls_made st, led st, wal st)"

lemma commit_store:
  assumes "digests_32 (sub L)" "fault_keeps_seq (aud L)" "store_inv (aud L) es st"
    and c: "commit_observation L env state ftype norm output ps st = Some (r, st')"
  shows "core st' = (st_cfg st, adm st', calls_made st, led st', wal st)" "export_drop_logged st' = export_drop_logged st"
    "r = None \<Longrightarrow> store_inv (aud L) es st' \<and> (st' = st \<and> commit_code L state ftype norm output ps st \<noteq> AX_OK \<or> blocked (aud L) st')"
    "r \<noteq> None \<Longrightarrow> ledger_inv (aud L) es (led st) \<and>
       ledger_inv (aud L) (es @ [(GW_TAG_OBS, obs_text (commit_rec L state ftype norm output ps st) True)]) (led st') \<and>
       commit_code L state ftype norm output ps st = AX_OK \<and>
       r = Some (obs_hash (commit_rec L state ftype norm output ps st), hex32 (gwl_head (aud L) (led st')), gwl_seq (aud L) (led st'))"
proof -
  let ?ok = "commit_code L state ftype norm output ps st = AX_OK"
  let ?payload = "obs_text (commit_rec L state ftype norm output ps st) True"
  obtain rc out l where g: "gwl_append (aud L) env (Some GW_TAG_OBS) (Some ?payload) (led st) = ((rc, out), l)" by (metis surj_pair)
  note eq = commit_eq [OF assms(1), of env state ftype norm "output" ps st, unfolded c g Let_def prod.case]
  show "core st' = (st_cfg st, adm st', calls_made st, led st', wal st)" "export_drop_logged st' = export_drop_logged st"
    using eq by (auto simp: core_def split: if_splits)
  have tag: "c_str GW_TAG_OBS = GW_TAG_OBS" by (simp add: GW_TAG_OBS_def)
  show "r = None \<Longrightarrow> store_inv (aud L) es st' \<and> (st' = st \<and> \<not> ?ok \<or> blocked (aud L) st')"
  proof -
    assume r: "r = None"
    show ?thesis
    proof (cases ?ok)
      case True
      with r eq have rc: "rc \<noteq> 0" and l: "led st' = l" "adm st' = \<lparr>last_ledger_seq = gwl_seq (aud L) (led st) + 1, initialized = True\<rparr>"
        by (auto split: if_splits)
      from commit_blocked [OF assms(1)] c assms(3) True have "ledger_inv (aud L) es (led st)"
        by (auto simp: store_inv_def commit_code_def admit_code_def blocked_def commit_input_def rc_defs)
      then have "on_disk (aud L) es (g_file l)" "gwl_seq (aud L) l = gwl_seq (aud L) (led st)"
        using append_on_disk [OF _ g] append_failed_seq [OF assms(2) g rc] by (auto simp: ledger_inv_def)
      with l show ?thesis by (simp add: store_inv_def blocked_def)
    next
      case False
      with eq assms(3) show ?thesis by (auto split: if_splits)
    qed
  qed
  assume r: "r \<noteq> None"
  with eq have ok: ?ok "rc = 0" "led st' = l" "r = Some (obs_hash (commit_rec L state ftype norm output ps st), hex32 (gwl_head (aud L) l), gwl_seq (aud L) l)"
    by (auto split: if_splits)
  have "\<not> blocked (aud L) st" using commit_blocked [OF assms(1), of st] c r by auto
  with assms(3) have inv: "ledger_inv (aud L) es (led st)" by (simp add: store_inv_def)
  with append_maintains [OF inv, of env GW_TAG_OBS ?payload out l] g ok tag
  show "ledger_inv (aud L) es (led st) \<and> ledger_inv (aud L) (es @ [(GW_TAG_OBS, ?payload)]) (led st') \<and> ?ok \<and>
       r = Some (obs_hash (commit_rec L state ftype norm output ps st), hex32 (gwl_head (aud L) (led st')), gwl_seq (aud L) (led st'))"
    by simp
qed

section \<open>What a request changes\<close>

lemma store_inv_core: "core st = core st' \<Longrightarrow> store_inv A es st = store_inv A es st'"
  by (simp add: core_def store_inv_def blocked_def)

lemma commit_core:
  assumes "core st = core st2" "digests_32 (sub L)"
  shows "commit_rec L state ftype norm output ps st = commit_rec L state ftype norm output ps st2"
    "commit_code L state ftype norm output ps st = commit_code L state ftype norm output ps st2"
  using assms(1) by (simp_all add: core_def commit_rec_def commit_code_def)

lemma outcome_total: "oracle_outcome E res st \<noteq> None"
proof -
  let ?b = "case res_body res of None \<Rightarrow> [] | Some b \<Rightarrow> b"
  obtain t s e where "gwj_content_text ?b (of_nat AX_MAX_OUTPUT_BYTES) = Some t"
    "gwj_top_string ?b (str ''stop_reason'') 64 = Some s" "gwj_error_message ?b 400 = Some e"
    using content_text_total top_string_total error_message_total by metis
  then show ?thesis by (cases "outcome res") (auto simp: oracle_outcome_def Let_def)
qed

lemma outcome_core:
  assumes "oracle_outcome E res st = Some (state, ftype, out, ok, st')"
  shows "core st' = core st" "state_pair_is_permitted state ftype" "length out \<le> AX_MAX_OUTPUT_BYTES"
    "ok \<longleftrightarrow> state = AX_COMPLETION_COMPLETE \<or> state = AX_COMPLETION_TRUNCATED" "\<not> ok \<Longrightarrow> out = []"
    "ok \<Longrightarrow> outcome res = GWC_OK \<and> gwj_content_text (body_text (res_body res)) (of_nat AX_MAX_OUTPUT_BYTES) = Some (Some out)"
proof -
  let ?b = "case res_body res of None \<Rightarrow> [] | Some b \<Rightarrow> b"
  have "unat (of_nat AX_MAX_OUTPUT_BYTES :: size_t) = AX_MAX_OUTPUT_BYTES" by (simp add: limit_defs)
  then have b: "length t \<le> AX_MAX_OUTPUT_BYTES" if "gwj_content_text ?b (of_nat AX_MAX_OUTPUT_BYTES) = Some (Some t)" for t
    using content_text_bounded [OF that] by (simp add: limit_defs)
  note defs = oracle_outcome_def Let_def core_def
  show "core st' = core st" using assms
    by (auto simp: defs split: gwc_outcome_t.splits bind_splits option.splits if_splits)
  show "state_pair_is_permitted state ftype" using assms
    by (auto simp: defs state_pair_is_permitted_def enum_defs split: gwc_outcome_t.splits bind_splits option.splits if_splits)
  show "length out \<le> AX_MAX_OUTPUT_BYTES" using assms b
    by (auto simp: defs split: gwc_outcome_t.splits bind_splits option.splits if_splits)
  show "ok \<longleftrightarrow> state = AX_COMPLETION_COMPLETE \<or> state = AX_COMPLETION_TRUNCATED" using assms
    by (auto simp: defs enum_defs split: gwc_outcome_t.splits bind_splits option.splits if_splits)
  show "\<not> ok \<Longrightarrow> out = []" using assms
    by (auto simp: defs split: gwc_outcome_t.splits bind_splits option.splits if_splits)
  show "ok \<Longrightarrow> outcome res = GWC_OK \<and> gwj_content_text (body_text (res_body res)) (of_nat AX_MAX_OUTPUT_BYTES) = Some (Some out)" using assms
    by (auto simp: defs body_text_def split: gwc_outcome_t.splits bind_splits option.splits if_splits)
qed

lemma degrade_total:
  assumes "digests_32 (sub L)"
  shows "commit_or_degrade L E res norm ps state ftype out ok st \<noteq> None"
proof -
  have "commit_observation L env state' ftype' norm' out' ps' st' \<noteq> None" for env state' ftype' norm' out' ps' st'
    by (simp add: commit_eq [OF assms])
  then show ?thesis unfolding commit_or_degrade_def by (auto simp: Let_def simp del: not_None_eq split: option.splits bind_splits)
qed

text \<open>
  Exactly one record is appended when the step reports success, none when it does not.  A
  record that differs from what the oracle produced is the degraded one, and is written only
  if admission refused the completion.
\<close>

definition degrade_post ::
    "('ct, 'cf, 'led) libs \<Rightarrow> (byte list \<times> byte list) list \<Rightarrow> byte list \<Rightarrow> ax_oracle_params_t \<Rightarrow>
     ax_completion_state_t \<Rightarrow> ax_failure_type_t \<Rightarrow> byte list \<Rightarrow> bool \<Rightarrow> 'led gw_state \<Rightarrow> 'led gw_state \<Rightarrow>
     (ax_completion_state_t \<times> ax_failure_type_t \<times> byte list \<times> bool \<times> byte list \<times> byte list \<times> u64) option \<Rightarrow> bool" where
  "degrade_post L es norm ps state ftype out ok st st' r \<longleftrightarrow>
     (case r of
        None \<Rightarrow> store_inv (aud L) es st'
      | Some (state', ftype', out', ok', h, hh, seq) \<Rightarrow>
          ledger_inv (aud L) (es @ [(GW_TAG_OBS, obs_text (commit_rec L state' ftype' norm out' ps st) True)]) (led st') \<and>
          h = obs_hash (commit_rec L state' ftype' norm out' ps st) \<and> hh = hex32 (gwl_head (aud L) (led st')) \<and>
          seq = gwl_seq (aud L) (led st') \<and> commit_code L state' ftype' norm out' ps st = AX_OK \<and>
          ((state', ftype', out', ok') = (state, ftype, out, ok) \<or>
           (state', ftype', out', ok') = (AX_COMPLETION_ERROR, AX_FAILURE_INVALID_OUTPUT, [], False) \<and>
           commit_code L state ftype norm out ps st \<noteq> AX_OK))"

lemma degrade_result:
  assumes "digests_32 (sub L)" "fault_keeps_seq (aud L)" "store_inv (aud L) es st"
    and c: "commit_or_degrade L E res norm ps state ftype out ok st = Some (r, st')"
  shows "core st' = (st_cfg st, adm st', calls_made st, led st', wal st) \<and> export_drop_logged st' = export_drop_logged st \<and>
    degrade_post L es norm ps state ftype out ok st st' r"
proof -
  obtain r1 st1 where c1: "commit_observation L (rq_append E) state ftype norm out ps st = Some (r1, st1)"
    using c by (auto simp: commit_or_degrade_def split: bind_splits)
  note s1 = commit_store [OF assms(1-3) c1]
  let ?st2 = "log_at (rq_ts E) 7 ''warn'' ''oracle_fail'' (Some (str ''output failed admission; recording INVALID_OUTPUT''))
               (attempts res) (http_status res) 0 st1"
  show ?thesis
  proof (cases "r1 = None \<and> (state = AX_COMPLETION_COMPLETE \<or> state = AX_COMPLETION_TRUNCATED)")
    case False
    with c c1 s1 show ?thesis by (cases r1) (auto simp: commit_or_degrade_def degrade_post_def)
  next
    case True
    then have i1: "store_inv (aud L) es st1" "st1 = st \<and> commit_code L state ftype norm out ps st \<noteq> AX_OK \<or> blocked (aud L) st1"
      using s1(3) by simp_all
    have i2: "store_inv (aud L) es ?st2" by (subst store_inv_core [of _ st1]) (simp_all add: core_def i1(1))
    obtain r2 st2 where c2: "commit_observation L (rq_append2 E) AX_COMPLETION_ERROR AX_FAILURE_INVALID_OUTPUT norm [] ps ?st2 = Some (r2, st2)"
      using c c1 True by (auto simp: commit_or_degrade_def Let_def split: bind_splits)
    note s2 = commit_store [OF assms(1,2) i2 c2]
    have same: "core st2 = (st_cfg st, adm st2, calls_made st, led st2, wal st)" "export_drop_logged st2 = export_drop_logged st"
      using s1(1,2) s2(1,2) by (simp_all add: core_def)
    have r: "(r, st') = (case r2 of None \<Rightarrow> (None, st2)
        | Some (h, hh, seq) \<Rightarrow> (Some (AX_COMPLETION_ERROR, AX_FAILURE_INVALID_OUTPUT, [], False, h, hh, seq), st2))"
      using c c1 c2 True by (auto simp: commit_or_degrade_def Let_def)
    show ?thesis
    proof (cases r2)
      case None
      with r s2(3) same show ?thesis by (simp add: degrade_post_def)
    next
      case (Some x)
      have "\<not> blocked (aud L) st1"
        using commit_blocked [OF assms(1), of ?st2] c2 Some by (auto simp: blocked_def)
      with i1(2) have "st1 = st" "commit_code L state ftype norm out ps st \<noteq> AX_OK" by auto
      with r s2(4) same Some show ?thesis by (auto simp: degrade_post_def commit_rec_def commit_code_def)
    qed
  qed
qed

section \<open>The response\<close>

definition is_ok :: "byte list \<Rightarrow> bool" where
  "is_ok resp \<longleftrightarrow> prefix (str ''status: ok'') resp"

lemma write_all_fd_result:
  "write_all_fd os f bs = (ok, f', os') \<Longrightarrow> prefix f f' \<and> prefix f' (f @ bs) \<and> (ok \<longrightarrow> f' = f @ bs)"
proof (induction os f bs rule: write_all_fd.induct)
  case (3 w os f b bs)
  have "f @ b # bs = (f @ take w (b # bs)) @ drop w (b # bs)" by simp
  with 3 show ?case by (metis append_prefixD prefixI prefix_order.trans write_all_fd.simps(3))
qed auto

text \<open>What the caller reads of a response: a first part, and all of it over a connection that takes everything.\<close>

definition sent :: "req_env \<Rightarrow> byte list \<Rightarrow> byte list \<Rightarrow> bool" where
  "sent E resp t \<longleftrightarrow> prefix resp t \<and> (rq_conn E = [] \<longrightarrow> resp = t)"

lemma write_all_fd_Nil [simp]: "write_all_fd [] f bs = (True, f @ bs, [])"
  by (cases bs) simp_all

lemma prefix_of_ok: "prefix f t \<Longrightarrow> is_ok f \<Longrightarrow> is_ok t"
  by (auto simp: is_ok_def)

lemma send_error_not_ok: "\<not> is_ok (send_error E reason)"
proof
  assume ok: "is_ok (send_error E reason)"
  obtain s f os where w: "write_all_fd (rq_conn E) [] (proto_error reason) = (s, f, os)"
    by (cases "write_all_fd (rq_conn E) [] (proto_error reason)")
  then have "prefix f (proto_error reason)" using write_all_fd_result by fastforce
  with w ok have "is_ok (proto_error reason)" using prefix_of_ok by (simp add: send_error_def)
  then show False by (simp add: is_ok_def proto_error_def str_def)
qed

lemma header_ok: "response_header ok state ftype h hh seq model ps n = Some hdr \<Longrightarrow> is_ok (hdr @ out) \<Longrightarrow> ok"
  by (auto simp: response_header_def is_ok_def Let_def str_def split: if_splits)

lemma wal_clear_result: "gw_wal_clear u d path w = (rc, w') \<Longrightarrow> w' = None \<or> w' = w"
  by (auto simp: gw_wal_clear_def split: if_splits)

lemma close_intent_core:
  "core (close_intent E h seq st) = (st_cfg st, adm st, calls_made st, led st, wal (close_intent E h seq st))"
  "wal (close_intent E h seq st) = None \<or> wal (close_intent E h seq st) = wal st"
proof -
  obtain rc w where w: "gw_wal_clear (rq_unlink_ok E) (rq_clear E) (wal_path (st_cfg st)) (wal st) = (rc, w)" by fastforce
  then have c: "core (close_intent E h seq st) = (st_cfg st, adm st, calls_made st, led st, w)"
    by (simp add: close_intent_def Let_def core_def)
  then show "core (close_intent E h seq st) = (st_cfg st, adm st, calls_made st, led st, wal (close_intent E h seq st))"
    by (simp add: core_def)
  show "wal (close_intent E h seq st) = None \<or> wal (close_intent E h seq st) = wal st"
    using wal_clear_result [OF w] c by (auto simp: core_def)
qed

lemma respond_result:
  assumes "respond E ps (state, ftype, out, ok, h, hh, seq) st = (st', resp)"
  shows "core st' = core st"
    "is_ok resp \<Longrightarrow> ok \<and> (\<exists>hdr. response_header ok state ftype h hh seq (cfg_model_id (st_cfg st)) ps (length out) = Some hdr \<and> sent E resp (hdr @ out))"
proof -
  show "core st' = core st" using assms by (auto simp: respond_def core_def split: option.splits prod.splits)
  assume r: "is_ok resp"
  show "ok \<and> (\<exists>hdr. response_header ok state ftype h hh seq (cfg_model_id (st_cfg st)) ps (length out) = Some hdr \<and> sent E resp (hdr @ out))"
  proof (cases "response_header ok state ftype h hh seq (cfg_model_id (st_cfg st)) ps (length out)")
    case None
    with assms have "resp = send_error E ''internal''" by (simp add: respond_def)
    with r show ?thesis by (simp add: send_error_not_ok)
  next
    case (Some hdr)
    obtain s f os where f: "write_all_fd (rq_conn E) [] hdr = (s, f, os)" by (cases "write_all_fd (rq_conn E) [] hdr")
    obtain s2 f2 os2 where f2: "write_all_fd os f out = (s2, f2, os2)" by (cases "write_all_fd os f out")
    have "resp = (if s \<and> 0 < length out then f2 else f)"
      using assms Some f f2 by (auto simp: respond_def)
    moreover have "prefix f (hdr @ out)" "s \<Longrightarrow> prefix f2 (hdr @ out)"
      using write_all_fd_result [OF f] write_all_fd_result [OF f2] by (auto intro: prefix_order.trans)
    moreover have "f = hdr" "s" "f2 = hdr @ out" if "rq_conn E = []" using f f2 that by auto
    ultimately have "sent E resp (hdr @ out)" by (auto simp: sent_def split: if_splits)
    with header_ok [OF Some] prefix_of_ok r Some show ?thesis by (auto simp: sent_def)
  qed
qed

lemma finish_result:
  assumes "finish_request E ps (state, ftype, out, ok, h, hh, seq) st = (st', resp)"
  shows "core st' = (st_cfg st, adm st, calls_made st, led st, wal st')" "wal st' = None \<or> wal st' = wal st"
    "is_ok resp \<Longrightarrow> ok \<and> (\<exists>hdr. response_header ok state ftype h hh seq (cfg_model_id (st_cfg st)) ps (length out) = Some hdr \<and> sent E resp (hdr @ out))"
  using respond_result [of E ps state ftype out ok h hh seq "close_intent E h seq st" st' resp] assms close_intent_core [of E h seq st]
  by (auto simp: finish_request_def core_def)

section \<open>The call\<close>

definition obs_entry :: "('ct, 'cf, 'led) libs \<Rightarrow> ax_completion_state_t \<Rightarrow> ax_failure_type_t \<Rightarrow> byte list \<Rightarrow> byte list \<Rightarrow>
    ax_oracle_params_t \<Rightarrow> 'led gw_state \<Rightarrow> byte list \<times> byte list" where
  "obs_entry L state ftype norm out ps st = (GW_TAG_OBS, obs_text (commit_rec L state ftype norm out ps st) True)"

text \<open>
  What the caller reads, or a part of it: the header with the hash of the record, the head and the number of the
  ledger, and then the output, of which the record has the normalised text.  The output is the text that the
  oracle answered to the body made from the prompt and the parameters.
\<close>

definition answered :: "req_env \<Rightarrow> gw_config_t \<Rightarrow> byte list \<Rightarrow> ax_oracle_params_t \<Rightarrow> byte list \<Rightarrow> bool" where
  "answered E cfg norm ps out \<longleftrightarrow>
     (\<exists>reqjson res pauses. request_body cfg norm ps = Some reqjson \<and>
        gwc_call (rq_curl E) cfg (rq_api_key E) reqjson = Some (0, res, pauses) \<and> outcome res = GWC_OK \<and>
        gwj_content_text (body_text (res_body res)) (of_nat AX_MAX_OUTPUT_BYTES) = Some (Some out))"

definition receipt ::
    "('ct, 'cf, 'led) libs \<Rightarrow> req_env \<Rightarrow> byte list \<Rightarrow> ax_oracle_params_t \<Rightarrow> ax_obs_record_t \<Rightarrow> 'led gw_state \<Rightarrow> byte list \<Rightarrow> bool" where
  "receipt L E norm ps r st resp \<longleftrightarrow>
     (\<exists>hdr out. response_header True (completion_state r) (failure_type r) (obs_hash r) (hex32 (gwl_head (aud L) (led st)))
          (gwl_seq (aud L) (led st)) (cfg_model_id (st_cfg st)) ps (length out) = Some hdr \<and>
        sent E resp (hdr @ out) \<and> answered E (st_cfg st) norm ps out \<and> opt_text (obs_output r) = lf_norm out \<and>
        length out \<le> AX_MAX_OUTPUT_BYTES)"

lemma commit_rec_output:
  assumes "commit_code L state ftype norm out ps st = AX_OK" "length out \<le> AX_MAX_OUTPUT_BYTES"
  shows "completion_state (commit_rec L state ftype norm out ps st) = state" "failure_type (commit_rec L state ftype norm out ps st) = ftype"
    "opt_text (obs_output (commit_rec L state ftype norm out ps st)) = lf_norm out"
proof -
  let ?i = "commit_input (st_cfg st) (gwl_seq (aud L) (led st) + 1) state ftype norm out ps"
  have l: "unat (of_nat (length out) :: size_t) = length out" using assms(2) by (intro unat_of_nat_size) (simp add: limit_defs)
  then have "out_src ?i = out" "\<not> over_limit ?i" using assms(2) by (simp_all add: out_src_def over_limit_def commit_input_def)
  with opt_text_obs_of [OF admit_code_ok(5) [OF assms(1) [unfolded commit_code_def]], of "sub L"]
  show "completion_state (commit_rec L state ftype norm out ps st) = state" "failure_type (commit_rec L state ftype norm out ps st) = ftype"
    "opt_text (obs_output (commit_rec L state ftype norm out ps st)) = lf_norm out"
    by (simp_all add: commit_rec_def hashed_def) (simp_all add: obs_of_def commit_input_def)
qed

text \<open>The state after a call of the oracle: the observation is in the ledger, or the intent is still there.\<close>

definition called ::
    "('ct, 'cf, 'led) libs \<Rightarrow> (byte list \<times> byte list) list \<Rightarrow> req_env \<Rightarrow> byte list \<Rightarrow> ax_oracle_params_t \<Rightarrow> 'led gw_state \<Rightarrow> 'led gw_state \<Rightarrow>
     byte list \<Rightarrow> byte list \<Rightarrow> bool" where
  "called L es E norm ps st st' intent resp \<longleftrightarrow>
     (\<exists>state ftype out. ledger_inv (aud L) (es @ [obs_entry L state ftype norm out ps st]) (led st') \<and>
        state_pair_is_permitted state ftype \<and> length out \<le> AX_MAX_OUTPUT_BYTES \<and>
        (is_ok resp \<longrightarrow> (state = AX_COMPLETION_COMPLETE \<or> state = AX_COMPLETION_TRUNCATED) \<and>
           receipt L E norm ps (commit_rec L state ftype norm out ps st) st' resp) \<and>
        (wal st' = None \<or> wal st' = Some intent)) \<or>
     store_inv (aud L) es st' \<and> \<not> is_ok resp \<and> wal st' = Some intent"

text \<open>The call after the client has returned: what is committed, and what the caller is told.\<close>

lemma outcome_called:
  assumes "digests_32 (sub L)" "fault_keeps_seq (aud L)" "store_inv (aud L) es st" "wal st = Some intent"
    and q: "request_body (st_cfg st) norm ps = Some reqjson" "gwc_call (rq_curl E) (st_cfg st) (rq_api_key E) reqjson = Some (0, res, pauses)"
    and o: "oracle_outcome E res (st\<lparr>calls_made := calls_made st + 1\<rparr>) = Some (state, ftype, out, ok, st1)"
    and d: "commit_or_degrade L E res norm ps state ftype out ok st1 = Some (Some x, st2)"
    and f: "finish_request E ps x st2 = (st', resp)"
  shows "st_cfg st' = st_cfg st \<and> calls_made st' = calls_made st + 1 \<and> called L es E norm ps st st' intent resp"
proof -
  obtain state' ftype' out' ok' h hh seq where x: "x = (state', ftype', out', ok', h, hh, seq)" by (cases x)
  note o1 = outcome_core [OF o] and f1 = finish_result [OF f [unfolded x]]
  have "store_inv (aud L) es st1" using assms(3) by (simp add: store_inv_core [OF o1(1)]) (simp add: store_inv_def blocked_def)
  note d1 = degrade_result [OF assms(1,2) this d]
  have s1: "st_cfg st1 = st_cfg st" "calls_made st1 = calls_made st + 1" "wal st1 = wal st" using o1(1) by (simp_all add: core_def)
  have rec: "obs_entry L a b norm d ps st1 = obs_entry L a b norm d ps st" for a b d
    using o1(1) by (simp add: obs_entry_def commit_rec_def core_def)
  have rec': "commit_rec L a b norm d ps st1 = commit_rec L a b norm d ps st" "commit_code L a b norm d ps st1 = commit_code L a b norm d ps st" for a b d
    using o1(1) by (simp_all add: commit_rec_def commit_code_def core_def)
  have p: "ledger_inv (aud L) (es @ [obs_entry L state' ftype' norm out' ps st]) (led st2)"
    "(state', ftype', out', ok') = (state, ftype, out, ok) \<or>
     (state', ftype', out', ok') = (AX_COMPLETION_ERROR, AX_FAILURE_INVALID_OUTPUT, [], False)"
    "commit_code L state' ftype' norm out' ps st = AX_OK"
    using d1 x unfolding rec [symmetric] rec' [symmetric] by (auto simp: degrade_post_def obs_entry_def)
  have "state_pair_is_permitted state' ftype'" "length out' \<le> AX_MAX_OUTPUT_BYTES"
    "ok' \<Longrightarrow> state' = AX_COMPLETION_COMPLETE \<or> state' = AX_COMPLETION_TRUNCATED"
    using p(2) o1 by (auto simp: state_pair_is_permitted_def enum_defs)
  moreover have "receipt L E norm ps (commit_rec L state' ftype' norm out' ps st) st' resp" if "is_ok resp"
  proof -
    have "ok" "out' = out" using f1(3) [OF that] p(2) by auto
    then have "answered E (st_cfg st) norm ps out'" using q o1(6) by (auto simp: answered_def)
    moreover from f1(3) [OF that] obtain hdr where
      "response_header True state' ftype' h hh seq (cfg_model_id (st_cfg st2)) ps (length out') = Some hdr" "sent E resp (hdr @ out')" by auto
    moreover have "h = obs_hash (commit_rec L state' ftype' norm out' ps st)" "hh = hex32 (gwl_head (aud L) (led st'))"
      "seq = gwl_seq (aud L) (led st')" "st_cfg st2 = st_cfg st" "st_cfg st' = st_cfg st2"
      using d1 f1(1) s1(1) unfolding x rec' [symmetric] by (simp_all add: degrade_post_def core_def)
    ultimately show ?thesis
      unfolding receipt_def using commit_rec_output [OF p(3) \<open>length out' \<le> AX_MAX_OUTPUT_BYTES\<close>]
        \<open>length out' \<le> AX_MAX_OUTPUT_BYTES\<close> by (intro exI [of _ hdr] exI [of _ out']) simp
  qed
  ultimately show ?thesis using p(1) f1 d1 s1 assms(4) by (auto simp: called_def core_def)
qed

lemma call_result:
  assumes "digests_32 (sub L)" "fault_keeps_seq (aud L)" "store_inv (aud L) es st" "wal st = Some intent"
    and q: "request_body (st_cfg st) norm ps = Some reqjson"
    and c: "call_oracle L E reqjson norm ps st = Some (st', resp)"
  shows "st_cfg st' = st_cfg st \<and> calls_made st' = calls_made st + 1 \<and> called L es E norm ps st st' intent resp"
proof -
  let ?st = "st\<lparr>calls_made := calls_made st + 1\<rparr>"
  obtain rc res pauses where g: "gwc_call (rq_curl E) (st_cfg st) (rq_api_key E) reqjson = Some (rc, res, pauses)"
    using c by (auto simp: call_oracle_def Let_def split: bind_splits)
  have inv: "store_inv (aud L) es ?st" using assms(3) by (simp add: store_inv_def blocked_def)
  show ?thesis
  proof (cases "rc = 0")
    case False
    with c g inv assms(4) show ?thesis
      by (auto simp: call_oracle_def called_def send_error_not_ok store_inv_def blocked_def)
  next
    case True
    obtain state ftype out ok st1 where o: "oracle_outcome E res ?st = Some (state, ftype, out, ok, st1)"
      using outcome_total [of E res ?st] by (metis not_None_eq prod_cases5)
    note o1 = outcome_core [OF o]
    have s1: "st_cfg st1 = st_cfg st" "calls_made st1 = calls_made st + 1" "wal st1 = wal st" using o1(1) by (simp_all add: core_def)
    obtain r st2 where d: "commit_or_degrade L E res norm ps state ftype out ok st1 = Some (r, st2)"
      using degrade_total [OF assms(1)] by (metis not_None_eq surj_pair)
    show ?thesis
    proof (cases r)
      case None
      have "store_inv (aud L) es st1" using inv by (simp add: store_inv_core [OF o1(1)])
      note d1 = degrade_result [OF assms(1,2) this d]
      from None c g True o d have st': "core st' = core st2" "resp = send_error E ''internal''"
        by (auto simp: call_oracle_def core_def)
      have "store_inv (aud L) es st'" unfolding store_inv_core [OF st'(1)] using d1 None by (simp add: degrade_post_def)
      moreover have "st_cfg st' = st_cfg st" "calls_made st' = calls_made st + 1" "wal st' = Some intent"
        using st'(1) d1 s1 assms(4) by (simp_all add: core_def)
      ultimately show ?thesis unfolding called_def st'(2) using send_error_not_ok by blast
    next
      case (Some x)
      have "finish_request E ps x st2 = (st', resp)" using c g True o d Some by (simp add: call_oracle_def)
      from outcome_called [OF assms(1-4) q g [unfolded True] o d [unfolded Some] this] show ?thesis .
    qed
  qed
qed

section \<open>One request\<close>

lemma normalise_eq:
  assumes "config_inv cfg" "int (length prompt) \<le> max_prompt_bytes cfg"
  shows "normalise_prompt L cfg prompt =
    Some (if utf8_text prompt \<and> clean_text (lf_norm prompt) then Some (lf_norm prompt) else None)"
proof -
  have mp: "nat (max_prompt_bytes cfg) \<le> 1048576" using assms(1) by (auto simp: config_inv_def)
  let ?n = "of_nat (nat (max_prompt_bytes cfg) + 1) :: size_t"
  have u: "unat ?n = nat (max_prompt_bytes cfg) + 1" using mp by (intro unat_of_nat_size) simp
  have l: "length (lf_norm prompt) \<le> length prompt" by (rule length_norm_eol)
  have "?n \<noteq> 0" using u by (metis add_is_0 one_neq_zero unsigned_0)
  note eq = validate_and_normalise_eq [OF this, of prompt "ax_l3_fault_init (ct_zero L)"]
  have "length prompt < 2 ^ 31" using assms(2) mp by simp
  with eq u l assms(2) show ?thesis by (auto simp: normalise_prompt_def rc_defs)
qed

lemma wal_write_result:
  assumes "gw_wal_write env path i file = (rc, w)"
  shows "if rc = 0 then file = None \<and> w = Some (wal_text i) else w = file \<or> file = None \<and> (\<exists>t. w = Some t \<and> prefix t (wal_text i))"
  using assms by (auto simp: gw_wal_write_def Let_def take_is_prefix split: if_splits)

lemma length_hex32: "length h = 32 \<Longrightarrow> length (hex32 h) = 64"
  by (simp add: hex32_def length_concat comp_def sum_list_triv)

lemma hex32_text: "length h = 32 \<Longrightarrow> hex32 h = hex_text h"
  by (simp add: hex32_def hex_text_def hex_byte_def [abs_def])

text \<open>The intent of a request.\<close>

definition intent_of :: "('ct, 'cf, 'led) libs \<Rightarrow> gw_config_t \<Rightarrow> byte list \<Rightarrow> ax_oracle_params_t \<Rightarrow> gw_intent_t" where
  "intent_of L cfg norm ps = request_intent (hex32 (axilog_sha256 (sub L) norm)) (cfg_model_id cfg) ps"

text \<open>
  A request ends in one of three ways: it is refused before the oracle is called, its
  intent cannot be written, or the oracle is called.
\<close>

definition refused :: "'led gw_state \<Rightarrow> 'led gw_state \<Rightarrow> bool" where
  "refused st st' \<longleftrightarrow> core st' = core st"

definition intent_torn ::
    "('ct, 'cf, 'led) libs \<Rightarrow> req_env \<Rightarrow> byte list \<Rightarrow> ax_oracle_params_t \<Rightarrow> 'led gw_state \<Rightarrow> 'led gw_state \<Rightarrow> bool" where
  "intent_torn L E norm ps st st' \<longleftrightarrow> wal st = None \<and> calls_made st < call_budget (st_cfg st) \<and>
     (\<exists>rc t. gw_wal_write (rq_wal E) (wal_path (st_cfg st)) (intent_of L (st_cfg st) norm ps) None = (rc, Some t) \<and> rc \<noteq> 0 \<and>
        prefix t (wal_text (intent_of L (st_cfg st) norm ps)) \<and> core st' = (st_cfg st, adm st, calls_made st, led st, Some t))"

text \<open>The same of a whole request: the intent is that of its prompt and parameters.\<close>

definition request_torn :: "('ct, 'cf, 'led) libs \<Rightarrow> req_env \<Rightarrow> 'led gw_state \<Rightarrow> 'led gw_state \<Rightarrow> bool" where
  "request_torn L E st st' \<longleftrightarrow>
     (\<exists>p prompt. ingest (st_cfg st) (rq_bytes E) = Inr (p, prompt) \<and> intent_torn L E (lf_norm prompt) (request_params p) st st')"

definition request_called ::
    "('ct, 'cf, 'led) libs \<Rightarrow> (byte list \<times> byte list) list \<Rightarrow> req_env \<Rightarrow> 'led gw_state \<Rightarrow> 'led gw_state \<Rightarrow> byte list \<Rightarrow> bool" where
  "request_called L es E st st' resp \<longleftrightarrow>
     wal st = None \<and> calls_made st < call_budget (st_cfg st) \<and> st_cfg st' = st_cfg st \<and> calls_made st' = calls_made st + 1 \<and>
     (\<exists>p prompt. ingest (st_cfg st) (rq_bytes E) = Inr (p, prompt) \<and> clean_text (lf_norm prompt) \<and>
        called L es E (lf_norm prompt) (request_params p) st st' (wal_text (intent_of L (st_cfg st) (lf_norm prompt) (request_params p))) resp)"

lemma input_hash_eq:
  assumes "config_inv cfg" "int (length s) \<le> max_prompt_bytes cfg"
  shows "ax_compute_input_hash S s (of_nat (length s)) = Some (axilog_sha256 S s)"
proof -
  have "length s < 2 ^ 64" using assms by (auto simp: config_inv_def)
  then show ?thesis by (simp add: ax_compute_input_hash_def read_bytes_def unat_of_nat_size)
qed

lemma core_log [simp]: "core (log_at ts k lv ev m a s q st) = core st" "core (log_reject ts reason st) = core st"
  by (simp_all add: core_def log_reject_def)

lemma spend_cases:
  assumes "digests_32 (sub L)" "fault_keeps_seq (aud L)" "config_inv (st_cfg st)" "ident_ok (cfg_model_id (st_cfg st))"
    and inv: "store_inv (aud L) es st" and n: "clean_text norm" "int (length norm) \<le> max_prompt_bytes (st_cfg st)" "sendable ps"
    and s: "spend L E norm ps st = Some (st', resp)"
  defines "i \<equiv> intent_of L (st_cfg st) norm ps"
  shows "(refused st st' \<or> intent_torn L E norm ps st st') \<and> \<not> is_ok resp \<or>
    wal st = None \<and> calls_made st < call_budget (st_cfg st) \<and> st_cfg st' = st_cfg st \<and> calls_made st' = calls_made st + 1 \<and>
    called L es E norm ps st st' (wal_text i) resp"
proof (cases "call_budget (st_cfg st) \<le> calls_made st")
  case True
  with s show ?thesis by (auto simp: spend_def refused_def send_error_not_ok)
next
  case False
  note hash = input_hash_eq [OF assms(3) n(2), of "sub L"]
  have "length norm \<le> nat (max_prompt_bytes (st_cfg st))" using n(2) by simp
  then obtain reqjson where body: "request_body (st_cfg st) norm ps = Some reqjson"
    using request_body_eq [OF assms(3,4)] n by (auto simp: clean_text_iff)
  obtain rc w where w: "gw_wal_write (rq_wal E) (wal_path (st_cfg st)) i (wal st) = (rc, w)" by fastforce
  note w1 = wal_write_result [OF w]
  show ?thesis
  proof (cases "rc = 0")
    case rc: False
    then have c: "core st' = core (st\<lparr>wal := w\<rparr>)" "\<not> is_ok resp"
      using s False hash w by (auto simp: spend_def send_error_not_ok Let_def intent_of_def i_def)
    from w1 rc consider "w = wal st" | t where "wal st = None" "w = Some t" "prefix t (wal_text i)" by (auto split: if_splits)
    then show ?thesis
    proof cases
      case 2
      with w rc have "gw_wal_write (rq_wal E) (wal_path (st_cfg st)) i None = (rc, Some t)" "rc \<noteq> 0" by simp_all
      with 2 c False show ?thesis unfolding intent_torn_def i_def [symmetric] by (auto simp: core_def)
    qed (use c in \<open>simp add: refused_def core_def\<close>)
  next
    case rc: True
    then have w2: "wal st = None" "w = Some (wal_text i)" using w1 by simp_all
    let ?st = "log_at (rq_ts E) 2 ''info'' ''intent'' (Some (hex32 (axilog_sha256 (sub L) norm))) (-1) (-1)
      (gwl_seq (aud L) (led st) + 1) (st\<lparr>wal := w\<rparr>)"
    have c: "call_oracle L E reqjson norm ps ?st = Some (st', resp)"
      using s False hash w rc body by (auto simp: spend_def Let_def intent_of_def i_def)
    have "store_inv (aud L) es ?st" using inv by (simp add: store_inv_def blocked_def)
    note r = call_result [OF assms(1,2) this _ _ c, of "wal_text i"]
    have e: "obs_entry L a b norm d ps ?st = obs_entry L a b norm d ps st"
      and e': "commit_rec L a b norm d ps ?st = commit_rec L a b norm d ps st" for a b d
      by (simp_all add: obs_entry_def commit_rec_def)
    have "called L es E norm ps st st' (wal_text i) resp" using r w2(2) body unfolding called_def e e' by simp
    with r w2 False body show ?thesis by simp
  qed
qed

lemma handle_cases:
  assumes "digests_32 (sub L)" "fault_keeps_seq (aud L)" "config_inv (st_cfg st)" "ident_ok (cfg_model_id (st_cfg st))"
    and inv: "store_inv (aud L) es st" and h: "handle_request L E st = Some (st', resp)"
  shows "(refused st st' \<or> request_torn L E st st') \<and> \<not> is_ok resp \<or> request_called L es E st st' resp"
proof (cases "ingest (st_cfg st) (rq_bytes E)")
  case (Inl reason)
  with h show ?thesis by (auto simp: handle_request_def refused_def send_error_not_ok)
next
  case (Inr x)
  obtain p prompt where i: "ingest (st_cfg st) (rq_bytes E) = Inr (p, prompt)" using Inr by (cases x) auto
  note ok = ingest_ok [OF i]
  have len: "int (length prompt) \<le> max_prompt_bytes (st_cfg st)" using ok by (auto simp: params_ok_def)
  note n = normalise_eq [OF assms(3) len, of L]
  show ?thesis
  proof (cases "utf8_text prompt \<and> clean_text (lf_norm prompt)")
    case False
    with h i n show ?thesis by (auto simp: handle_request_def refused_def send_error_not_ok)
  next
    case True
    have "length (lf_norm prompt) \<le> length prompt" by (rule length_norm_eol)
    then have l: "int (length (lf_norm prompt)) \<le> max_prompt_bytes (st_cfg st)" using len by simp
    have "spend L E (lf_norm prompt) (request_params p) st = Some (st', resp)"
      using h i n True by (simp add: handle_request_def)
    from spend_cases [OF assms(1-4) inv _ l request_params_ok(6) [OF ok(1)] this] True i
    show ?thesis unfolding request_called_def request_torn_def by blast
  qed
qed

lemma handle_total:
  assumes "digests_32 (sub L)" "config_inv (st_cfg st)" "headers_end (rq_curl E)"
  shows "handle_request L E st \<noteq> None"
proof -
  have call: "call_oracle L E reqjson norm ps s \<noteq> None" for reqjson norm ps s
  proof -
    obtain rc res pauses where "gwc_call (rq_curl E) (st_cfg s) (rq_api_key E) reqjson = Some (rc, res, pauses)"
      using call_defined [OF assms(3)] by blast
    then show ?thesis
      using outcome_total degrade_total [OF assms(1)]
      by (auto simp: call_oracle_def Let_def simp del: not_None_eq split: prod.splits bind_splits option.splits)
  qed
  have spend: "spend L E norm ps st \<noteq> None" if "int (length norm) \<le> max_prompt_bytes (st_cfg st)" for norm ps
    using call by (auto simp: spend_def Let_def input_hash_eq [OF assms(2) that] simp del: not_None_eq split: option.splits prod.splits)
  show ?thesis
  proof (cases "ingest (st_cfg st) (rq_bytes E)")
    case (Inr x)
    obtain p prompt where i: "ingest (st_cfg st) (rq_bytes E) = Inr (p, prompt)" using Inr by (cases x) auto
    have len: "int (length prompt) \<le> max_prompt_bytes (st_cfg st)" using ingest_ok [OF i] by (auto simp: params_ok_def)
    have "length (lf_norm prompt) \<le> length prompt" by (rule length_norm_eol)
    with len spend [of "lf_norm prompt"] normalise_eq [OF assms(2) len, of L] i show ?thesis
      by (auto simp: handle_request_def)
  qed (simp add: handle_request_def)
qed

section \<open>What is recorded\<close>

lemma commit_rec_fields:
  fixes L :: "('ct, 'cf, 'led) libs" and st :: "'led gw_state"
    and state ftype :: int and norm out :: "byte list" and ps :: ax_oracle_params_t
  assumes "norm \<noteq> []" "length norm < 2 ^ 64" "length out \<le> AX_MAX_OUTPUT_BYTES"
  defines "r \<equiv> commit_rec L state ftype norm out ps st"
  shows "input_hash r = axilog_sha256 (sub L) norm" "completion_state r = state" "failure_type r = ftype"
    "ledger_seq r = gwl_seq (aud L) (led st) + 1" "params r = ps"
    "model_id r = Some (cfg_model_id (st_cfg st))" "oracle_id r = Some (cfg_oracle_id (st_cfg st))"
proof -
  let ?i = "commit_input (st_cfg st) (gwl_seq (aud L) (led st) + 1) state ftype norm out ps"
  have "unat (of_nat (length norm) :: size_t) = length norm" using assms(2) by (rule unat_of_nat_size)
  then have "(0 :: size_t) < of_nat (length norm)" "take (unat (of_nat (length norm) :: size_t)) norm = norm"
    using assms(1) by (simp_all add: word_less_nat_alt)
  then show "input_hash r = axilog_sha256 (sub L) norm"
    by (simp add: r_def commit_rec_def) (simp add: input_digest_def commit_input_def)
  have "unat (of_nat (length out) :: size_t) \<le> length out" by (rule unat_of_nat_le)
  then have "\<not> over_limit ?i" using assms(3) by (simp add: over_limit_def commit_input_def)
  then show "completion_state r = state" "failure_type r = ftype" "ledger_seq r = gwl_seq (aud L) (led st) + 1" "params r = ps"
    "model_id r = Some (cfg_model_id (st_cfg st))" "oracle_id r = Some (cfg_oracle_id (st_cfg st))"
    by (simp_all add: r_def commit_rec_def hashed_def obs_of_def) (simp_all add: commit_input_def)
qed

lemma commit_rec_hash:
  "obs_hash (commit_rec L state ftype norm out ps st) =
   hex_text (commit_text (sub L) (obs_text (commit_rec L state ftype norm out ps st) False))"
  by (simp add: commit_rec_def hashed_def obs_text_def)

text \<open>A record of a request: whose prompt, number and parameters it carries, and that its hash is the commitment to its text.\<close>

definition records ::
    "('ct, 'cf, 'led) libs \<Rightarrow> 'led gw_state \<Rightarrow> byte list \<Rightarrow> ax_oracle_params_t \<Rightarrow> byte list \<times> byte list \<Rightarrow> ax_obs_record_t \<Rightarrow> bool" where
  "records L st norm ps e r \<longleftrightarrow> e = (GW_TAG_OBS, obs_text r True) \<and> input_hash r = axilog_sha256 (sub L) norm \<and>
     params r = ps \<and> ledger_seq r = gwl_seq (aud L) (led st) + 1 \<and> model_id r = Some (cfg_model_id (st_cfg st)) \<and>
     obs_hash r = hex_text (commit_text (sub L) (obs_text r False)) \<and> state_pair_is_permitted (completion_state r) (failure_type r)"

lemma ident_printable:
  assumes "ident_ok m" "c \<in> set m"
  shows "0x20 \<le> c"
proof -
  have "id_has_control m = False"
    using assms(1) id_well_formed_iff [of "Some m"] by (auto simp: ident_ok_def opt_text_def id_is_well_formed_def split: if_splits)
  then have "\<not> (unat c < 32 \<and> unat c \<noteq> 10)" "c \<noteq> 0x0A"
    using assms(2) by (auto simp: id_has_control_iff forbidden_control_iff)
  then show ?thesis by (force simp: word_le_nat_alt byte_eq_iff)
qed

lemma intent_of_ok:
  assumes "digests_32 (sub L)" "ident_ok (cfg_model_id cfg)"
  shows "intent_ok (intent_of L cfg norm ps)" "input_hash_hex (intent_of L cfg norm ps) = hex_text (axilog_sha256 (sub L) norm)"
proof -
  let ?m = "cfg_model_id cfg" and ?h = "axilog_sha256 (sub L) norm"
  have l: "length ?h = 32" using assms(1) by (simp add: digests_32_def AX_HASH_SIZE_def)
  have "0 \<notin> set ?m" "length ?m < 256" using assms(2) by (simp_all add: ident_ok_def GW_ID_MAX_def)
  then have m: "cut 256 ?m = ?m" by (simp add: cut_def)
  have "\<forall>c\<in>set ?m. 0x20 \<le> c" using ident_printable [OF assms(2)] by blast
  moreover have "\<forall>c\<in>set (hex32 ?h). 0x20 \<le> c"
    unfolding hex32_text [OF l] using hex_text_chars by (fastforce simp: word_le_nat_alt)
  moreover have "?m \<noteq> []" using assms(2) by (simp add: ident_ok_def id_text_def)
  ultimately show "intent_ok (intent_of L cfg norm ps)" "input_hash_hex (intent_of L cfg norm ps) = hex_text ?h"
    using l assms(2) by (simp_all add: intent_ok_def intent_of_def request_intent_def m length_hex32 ident_ok_def GW_ID_MAX_def hex32_text)
qed

lemma called_records:
  assumes "request_called L es E st st' resp" "config_inv (st_cfg st)" "digests_32 (sub L)" "ident_ok (cfg_model_id (st_cfg st))"
  shows "\<exists>p prompt. ingest (st_cfg st) (rq_bytes E) = Inr (p, prompt) \<and>
    ((\<exists>e r. ledger_inv (aud L) (es @ [e]) (led st') \<and> records L st (lf_norm prompt) (request_params p) e r \<and>
        (is_ok resp \<longrightarrow> completion_state r \<noteq> AX_COMPLETION_ERROR \<and> receipt L E (lf_norm prompt) (request_params p) r st' resp)) \<or>
     (\<exists>i. store_inv (aud L) es st' \<and> \<not> is_ok resp \<and> gw_wal_recover True (wal st') i0 = (1, i) \<and>
        input_hash_hex i = hex_text (axilog_sha256 (sub L) (lf_norm prompt))))"
proof -
  obtain p prompt where i: "ingest (st_cfg st) (rq_bytes E) = Inr (p, prompt)"
    and c: "called L es E (lf_norm prompt) (request_params p) st st' (wal_text (intent_of L (st_cfg st) (lf_norm prompt) (request_params p))) resp"
    using assms(1) by (auto simp: request_called_def)
  have "length (lf_norm prompt) \<le> length prompt" by (rule length_norm_eol)
  with ingest_ok [OF i] assms(2) have n: "lf_norm prompt \<noteq> []" "length (lf_norm prompt) < 2 ^ 64"
    by (auto simp: params_ok_def config_inv_def)
  show ?thesis
  proof (cases "store_inv (aud L) es st' \<and> \<not> is_ok resp \<and>
      wal st' = Some (wal_text (intent_of L (st_cfg st) (lf_norm prompt) (request_params p)))")
    case True
    with recover_whole [OF intent_of_ok(1) [OF assms(3,4)]] intent_of_ok(2) [OF assms(3,4)] i show ?thesis by auto
  next
    case False
    with c obtain state ftype out where o: "ledger_inv (aud L) (es @ [obs_entry L state ftype (lf_norm prompt) out (request_params p) st]) (led st')"
      "state_pair_is_permitted state ftype" "length out \<le> AX_MAX_OUTPUT_BYTES"
      "is_ok resp \<longrightarrow> (state = AX_COMPLETION_COMPLETE \<or> state = AX_COMPLETION_TRUNCATED) \<and>
         receipt L E (lf_norm prompt) (request_params p) (commit_rec L state ftype (lf_norm prompt) out (request_params p) st) st' resp"
      unfolding called_def by blast
    note f = commit_rec_fields [OF n o(3), of L state ftype "request_params p" st]
    have "records L st (lf_norm prompt) (request_params p) (obs_entry L state ftype (lf_norm prompt) out (request_params p) st)
        (commit_rec L state ftype (lf_norm prompt) out (request_params p) st)"
      using f o(2) commit_rec_hash by (simp add: records_def obs_entry_def)
    moreover have "is_ok resp \<longrightarrow> completion_state (commit_rec L state ftype (lf_norm prompt) out (request_params p) st) \<noteq> AX_COMPLETION_ERROR"
      using f(2) o(4) by (auto simp: enum_defs)
    ultimately show ?thesis using i o(1,4) by blast
  qed
qed

section \<open>When nothing fails\<close>

definition ready :: "('cf, 'led) audit \<Rightarrow> 'led gw_state \<Rightarrow> bool" where
  "ready A st \<longleftrightarrow> \<not> (initialized (adm st) \<and> gwl_seq A (led st) + 1 \<le> last_ledger_seq (adm st))"

definition libs_calm :: "('ct, 'cf, 'led) libs \<Rightarrow> bool" where
  "libs_calm L \<longleftrightarrow> digests_32 (sub L) \<and> (\<forall>t. \<not> commit_faults (sub L) t) \<and>
     (\<forall>t p. commit_ok (aud L) t p) \<and> (\<forall>c h. chain_ok (aud L) c h)"

definition append_calm :: "append_env \<Rightarrow> bool" where
  "append_calm env \<longleftrightarrow> ae_writes env = [] \<and> ae_fsync_ok env"

definition os_calm :: "req_env \<Rightarrow> gw_intent_t \<Rightarrow> bool" where
  "os_calm E i \<longleftrightarrow> rq_wal E = calm_wal i \<and> rq_unlink_ok E \<and> de_open_ok (rq_clear E) \<and> de_fsync_ok (rq_clear E) \<and>
     append_calm (rq_append E) \<and> append_calm (rq_append2 E) \<and> rq_conn E = []"

lemma length_escape: "length (escape s) \<le> 6 * length s"
proof (induction s)
  case (Cons c s)
  have "length (esc_byte c) \<le> 6" by (simp add: esc_byte_def hex_byte_def)
  with Cons show ?case by (simp add: escape_def)
qed (simp add: escape_def)

lemma length_obs_text:
  assumes "length (input_hash r) = 32" "length (obs_hash r) \<le> 64" "schema_version r = Some AX_OBS_SCHEMA_VERSION"
  shows "length (obs_text r h) \<le> 600 + 6 * (length (opt_text (model_id r)) + length (opt_text (oracle_id r)) + length (opt_text (obs_output r)))"
proof -
  have "length (c_str (obs_hash r)) \<le> 64" 
    unfolding c_str_def by (rule order.trans [OF length_takeWhile_le assms(2)])
  moreover have "length (completion_text (completion_state r)) \<le> 11" "length (failure_text (failure_type r)) \<le> 17"
    "length (opt_text (schema_version r)) = 9"
    using assms(3) by (simp_all add: completion_text_def failure_text_def opt_text_def) (simp add: AX_OBS_SCHEMA_VERSION_def)
  ultimately show ?thesis
    using assms(1) length_params_text [of "params r"] length_escape [of "opt_text (model_id r)"] length_escape [of "opt_text (oracle_id r)"]
      length_escape [of "opt_text (obs_output r)"] length_dec_u64 [of "ledger_seq r"] length_dec_u64 [of "output_size r"]
    by (simp add: obs_text_def)
qed

lemma commit_accepts:
  assumes "digests_32 (sub L)" "\<And>t. \<not> commit_faults (sub L) t" "config_inv (st_cfg st)" "ident_ok (cfg_model_id (st_cfg st))"
    and "ready (aud L) st" "state_pair_is_permitted state ftype" "utf8_text out" "clean_text (lf_norm out)" "length out \<le> 10000"
  shows "commit_code L state ftype norm out ps st = AX_OK"
proof -
  let ?i = "commit_input (st_cfg st) (gwl_seq (aud L) (led st) + 1) state ftype norm out ps"
  let ?r = "obs_of (sub L) ?i"
  have ids: "ident_ok (cfg_model_id (st_cfg st))" "ident_ok (cfg_oracle_id (st_cfg st))" using assms(3,4) by (simp_all add: config_inv_def)
  then have wf: "id_is_well_formed (Some (cfg_model_id (st_cfg st)))" "id_is_well_formed (Some (cfg_oracle_id (st_cfg st)))"
    by (simp_all add: id_well_formed_iff opt_text_def ident_ok_def)
  have ol: "unat (of_nat (length out) :: size_t) = length out" using assms(9) by (intro unat_of_nat_size) simp
  have src: "out_src ?i = out" using ol assms(9) by (simp add: out_src_def commit_input_def limit_defs)
  have lim: "\<not> over_limit ?i" using ol assms(9) by (simp add: over_limit_def commit_input_def limit_defs)
  have valid: "input_is_schema_valid ?i"
    using wf assms(6) lim unfolding input_is_schema_valid_def over_limit_word by (simp add: commit_input_def)
  have idl: "length (opt_text (in_model_id ?i)) < 256" "length (opt_text (in_oracle_id ?i)) < 256"
    using ids by (simp_all add: commit_input_def opt_text_def ident_ok_def GW_ID_MAX_def)
  have nl: "length (lf_norm out) \<le> 10000" using length_norm_eol [of _ _ out] assms(9) by (rule order.trans)
  have dig: "length (input_hash ?r) = 32" "length (obs_hash (hashed (sub L) ?r)) = 64" "obs_hash ?r = []"
    using length_input_digest [OF assms(1), of ?i] length_hash_text [OF assms(1), of ?r] by (simp_all add: limit_defs obs_of_def)
  have oo: "opt_text (obs_output ?r) = lf_norm out" using opt_text_obs_of [of ?i] assms(8) src by simp
  have mo: "opt_text (model_id ?r) = opt_text (in_model_id ?i)" "opt_text (oracle_id ?r) = opt_text (in_oracle_id ?i)"
    "schema_version ?r = Some AX_OBS_SCHEMA_VERSION" by (simp_all add: obs_of_def)
  have "length (obs_text ?r False) \<le> 65000"
    using length_obs_text [of ?r False] dig oo mo idl nl by simp
  moreover have "length (obs_text (hashed (sub L) ?r) True) \<le> 65000"
    using length_obs_text [of "hashed (sub L) ?r" True] dig oo mo idl nl by (simp add: hashed_def)
  ultimately show ?thesis
    unfolding commit_code_def admit_code_def src
    using assms(2,5,7,8) valid idl nl by (auto simp: limit_defs ready_def commit_input_def)
qed

lemma append_succeeds:
  assumes "append_calm env" "g_fd l" "entry_ok (c_str tag, payload)" "commit_ok A (c_str tag) payload" "\<And>c h. chain_ok A c h"
  shows "\<exists>out l'. gwl_append A env (Some tag) (Some payload) l = ((0, out), l')"
proof -
  have w: "write_all [] f b = (True, f @ b, [])" for f b by (cases b) simp_all
  have "write_parts [] f ps = (True, f @ concat ps)" for f ps by (induction ps arbitrary: f) (simp_all add: w)
  then show ?thesis using assms by (simp add: append_eq append_calm_def Let_def)
qed

lemma commit_succeeds:
  assumes "libs_calm L" "append_calm env" "ledger_inv (aud L) es (led st)" "commit_code L state ftype norm out ps st = AX_OK"
  shows "\<exists>x st'. commit_observation L env state ftype norm out ps st = Some (Some x, st')"
proof -
  let ?p = "obs_text (commit_rec L state ftype norm out ps st) True"
  have d: "digests_32 (sub L)" using assms(1) by (simp add: libs_calm_def)
  have "length ?p \<le> AX_MAX_OBS_BYTES"
    using admit_code_ok(9) assms(4) unfolding commit_rec_def commit_code_def by blast
  then have "entry_ok (c_str GW_TAG_OBS, ?p)"
    by (simp add: entry_ok_def obs_text_nonempty GW_TAG_OBS_def gwl_limits limit_defs) (simp add: str_def)
  then obtain o2 l where "gwl_append (aud L) env (Some GW_TAG_OBS) (Some ?p) (led st) = ((0, o2), l)"
    using append_succeeds [of env "led st" GW_TAG_OBS ?p "aud L"] assms(1-3) by (auto simp: libs_calm_def ledger_inv_def)
  with commit_eq [OF d, of env state ftype norm out ps st] assms(4) show ?thesis by simp
qed

lemma degrade_succeeds:
  assumes "libs_calm L" "os_calm E i" "ledger_inv (aud L) es (led st)" "config_inv (st_cfg st)" "ident_ok (cfg_model_id (st_cfg st))"
    and "ready (aud L) st" "state_pair_is_permitted state ftype" "state = AX_COMPLETION_ERROR \<Longrightarrow> out = []"
  shows "\<exists>x st'. commit_or_degrade L E res norm ps state ftype out ok st = Some (Some x, st')"
    "commit_code L state ftype norm out ps st = AX_OK \<Longrightarrow>
       \<exists>h st'. commit_or_degrade L E res norm ps state ftype out ok st = Some (Some (state, ftype, out, ok, h), st')"
proof -
  have d: "digests_32 (sub L)" "\<And>t. \<not> commit_faults (sub L) t" using assms(1) by (auto simp: libs_calm_def)
  have e: "append_calm (rq_append E)" "append_calm (rq_append2 E)" using assms(2) by (simp_all add: os_calm_def)
  show good: "\<exists>h st'. commit_or_degrade L E res norm ps state ftype out ok st = Some (Some (state, ftype, out, ok, h), st')"
    if "commit_code L state ftype norm out ps st = AX_OK"
    using commit_succeeds [OF assms(1) e(1) assms(3) that] by (auto simp: commit_or_degrade_def)
  show "\<exists>x st'. commit_or_degrade L E res norm ps state ftype out ok st = Some (Some x, st')"
  proof (cases "commit_code L state ftype norm out ps st = AX_OK")
    case True
    then show ?thesis using good by blast
  next
    case False
    have nil: "utf8_text []" by (simp add: utf8_text_def exI [of _ "[]"])
    have s: "state \<noteq> AX_COMPLETION_ERROR"
      using False commit_accepts [OF d assms(4-7) nil, of norm ps] assms(8) by auto
    let ?st = "log_at (rq_ts E) 7 ''warn'' ''oracle_fail'' (Some (str ''output failed admission; recording INVALID_OUTPUT''))
               (attempts res) (http_status res) 0 st"
    have "commit_observation L (rq_append E) state ftype norm out ps st = Some (None, st)"
      using commit_eq [OF d(1), of "rq_append E" state ftype norm out ps st] False by simp
    moreover have code: "commit_code L AX_COMPLETION_ERROR AX_FAILURE_INVALID_OUTPUT norm [] ps ?st = AX_OK"
      using assms(4-6) nil by (intro commit_accepts [OF d]) (auto simp: ready_def state_pair_is_permitted_def enum_defs)
    obtain x st' where "commit_observation L (rq_append2 E) AX_COMPLETION_ERROR AX_FAILURE_INVALID_OUTPUT norm [] ps ?st = Some (Some x, st')"
      using commit_succeeds [OF assms(1) e(2) _ code, of es] assms(3) by auto
    moreover have "state = AX_COMPLETION_COMPLETE \<or> state = AX_COMPLETION_TRUNCATED"
      using s assms(7) by (auto simp: state_pair_is_permitted_def split: if_splits)
    ultimately show ?thesis by (cases x) (auto simp: commit_or_degrade_def Let_def)
  qed
qed

lemma is_ok_header: "response_header True state ftype h hh seq model ps n = Some hdr \<Longrightarrow> is_ok (hdr @ out)"
  by (auto simp: response_header_def is_ok_def Let_def str_def split: if_splits)

lemma finish_calm:
  assumes "os_calm E i" "wal st = Some w" "length h = 64" "length hh = 64" "config_inv (st_cfg st)" "ident_ok (cfg_model_id (st_cfg st))"
    "length out \<le> AX_MAX_OUTPUT_BYTES"
  shows "\<exists>st' hdr. finish_request E ps (state, ftype, out, ok, h, hh, seq) st = (st', hdr @ out) \<and> wal st' = None \<and> led st' = led st \<and>
    response_header ok state ftype h hh seq (cfg_model_id (st_cfg st)) ps (length out) = Some hdr"
proof -
  have "length out < 2 ^ 64" using assms(7) by (simp add: limit_defs)
  then obtain hdr where hdr: "response_header ok state ftype h hh seq (cfg_model_id (st_cfg st)) ps (length out) = Some hdr"
    using header_fits [OF assms(3,4)] assms(6) unfolding ident_ok_def by blast
  have w: "write_all_fd [] f b = (True, f @ b, [])" for f b by (cases b) simp_all
  have c: "st_cfg (close_intent E h seq st) = st_cfg st" "led (close_intent E h seq st) = led st"
    using close_intent_core(1) [of E h seq st] by (simp_all add: core_def)
  have "wal (close_intent E h seq st) = None"
    using assms(1,2) by (simp add: close_intent_def gw_wal_clear_def os_calm_def Let_def split: prod.split)
  then show ?thesis
    using hdr assms(1) c by (simp add: finish_request_def respond_def w os_calm_def)
qed

text \<open>
  With calm libraries and system calls every call of the oracle ends with its record in the
  ledger and the intent closed, whatever the oracle answered.
\<close>

lemma call_calm:
  assumes "libs_calm L" "commit_32 (aud L)" "fault_keeps_seq (aud L)" "\<And>c. length (current_hash (aud L) c) = 32" "os_calm E i"
    and "ledger_inv (aud L) es (led st)" "config_inv (st_cfg st)" "ident_ok (cfg_model_id (st_cfg st))" "ready (aud L) st"
    and "wal st = Some w" "gwc_call (rq_curl E) (st_cfg st) (rq_api_key E) reqjson = Some (0, res, pauses)"
    and o: "oracle_outcome E res (st\<lparr>calls_made := calls_made st + 1\<rparr>) = Some (state, ftype, out, ok, st1)"
  shows "\<exists>st' state' ftype' out' ok' hdr h hh seq. call_oracle L E reqjson norm ps st = Some (st', hdr @ out') \<and> wal st' = None \<and>
    ledger_inv (aud L) (es @ [obs_entry L state' ftype' norm out' ps st]) (led st') \<and>
    response_header ok' state' ftype' h hh seq (cfg_model_id (st_cfg st)) ps (length out') = Some hdr \<and>
    h = obs_hash (commit_rec L state' ftype' norm out' ps st) \<and> state_pair_is_permitted state' ftype' \<and>
    length out' \<le> AX_MAX_OUTPUT_BYTES \<and> (commit_code L state ftype norm out ps st = AX_OK \<longrightarrow> (state', ftype', out', ok') = (state, ftype, out, ok))"
proof -
  have d: "digests_32 (sub L)" using assms(1) by (simp add: libs_calm_def)
  note o1 = outcome_core [OF o]
  have c1: "st_cfg st1 = st_cfg st" "led st1 = led st" "adm st1 = adm st" "wal st1 = wal st" using o1(1) by (simp_all add: core_def)
  have inv: "store_inv (aud L) es st1" using assms(6) c1 by (simp add: store_inv_def)
  have r: "commit_rec L a b norm d ps st1 = commit_rec L a b norm d ps st" "commit_code L a b norm d ps st1 = commit_code L a b norm d ps st" for a b d
    using c1 by (simp_all add: commit_rec_def commit_code_def)
  have "state = AX_COMPLETION_ERROR \<Longrightarrow> out = []" using o1(4,5) by (auto simp: enum_defs)
  moreover have "ledger_inv (aud L) es (led st1)" "config_inv (st_cfg st1)" "ident_ok (cfg_model_id (st_cfg st1))" "ready (aud L) st1"
    using assms(6-9) c1 by (simp_all add: ready_def)
  ultimately obtain x st2 where x: "commit_or_degrade L E res norm ps state ftype out ok st1 = Some (Some x, st2)"
    and good: "commit_code L state ftype norm out ps st = AX_OK \<Longrightarrow> \<exists>h. x = (state, ftype, out, ok, h)"
    using degrade_succeeds [OF assms(1,5), where es = es and st = st1 and out = out and state = state and ftype = ftype
        and res = res and norm = norm and ps = ps and ok = ok] r(2) o1(2)
    by (metis option.inject prod.inject)
  obtain state' ftype' out' ok' h hh seq where x': "x = (state', ftype', out', ok', h, hh, seq)" by (cases x)
  note p = degrade_result [OF d assms(3) inv x [unfolded x'], unfolded degrade_post_def option.case prod.case r]
  have c2: "st_cfg st2 = st_cfg st" "wal st2 = Some w" using p c1 assms(10) by (simp_all add: core_def)
  have "length h = 64" "length hh = 64"
    using p length_hash_text [OF d] length_hex32 [OF assms(4)] by (simp_all add: commit_rec_def gwl_head_def)
  moreover have "state_pair_is_permitted AX_COMPLETION_ERROR AX_FAILURE_INVALID_OUTPUT"
    by (simp add: state_pair_is_permitted_def enum_defs)
  with p o1(2,3) have po: "length out' \<le> AX_MAX_OUTPUT_BYTES" "state_pair_is_permitted state' ftype'" by auto
  ultimately obtain st' hdr where f: "finish_request E ps (state', ftype', out', ok', h, hh, seq) st2 = (st', hdr @ out')" "wal st' = None" "led st' = led st2"
    "response_header ok' state' ftype' h hh seq (cfg_model_id (st_cfg st)) ps (length out') = Some hdr"
    using finish_calm [OF assms(5) c2(2), of h hh] c2 assms(7,8) by metis
  have "call_oracle L E reqjson norm ps st = Some (st', hdr @ out')"
    using assms(11) o x x' f(1) by (simp add: call_oracle_def)
  moreover have "ledger_inv (aud L) (es @ [obs_entry L state' ftype' norm out' ps st]) (led st')"
    using p f(3) by (simp add: obs_entry_def)
  moreover have "commit_code L state ftype norm out ps st = AX_OK \<longrightarrow> (state', ftype', out', ok') = (state, ftype, out, ok)"
    using good x' by auto
  ultimately show ?thesis using f(2,4) p po by blast
qed

lemma entry_records:
  assumes "norm \<noteq> []" "length norm < 2 ^ 64" "length out \<le> AX_MAX_OUTPUT_BYTES" "state_pair_is_permitted state ftype"
  shows "records L st norm ps (obs_entry L state ftype norm out ps st) (commit_rec L state ftype norm out ps st)"
  using commit_rec_fields [OF assms(1-3), of L state ftype ps st] assms(4) commit_rec_hash by (simp add: records_def obs_entry_def)

lemma wal_write_calm:
  assumes "intent_ok i" "config_inv cfg"
  shows "gw_wal_write (calm_wal i) (wal_path cfg) i None = (0, Some (wal_text i))"
proof -
  have "length (c_str (wal_path cfg)) < 512"
    using assms(2) by (simp add: config_inv_def path_ok_def gw_limits)
  moreover have "length (wal_text i) < 768" using length_wal_text [OF assms(1)] by simp
  ultimately show ?thesis by (simp add: gw_wal_write_def calm_wal_def fsync_parent_dir_def Let_def)
qed

text \<open>The answer of an oracle that produced usable text.\<close>

definition usable :: "gwc_result_t \<Rightarrow> byte list \<Rightarrow> bool" where
  "usable res t \<longleftrightarrow> outcome res = GWC_OK \<and>
     (\<exists>b sr. res_body res = Some b \<and> gwj_content_text b (of_nat AX_MAX_OUTPUT_BYTES) = Some (Some t) \<and>
        gwj_top_string b (str ''stop_reason'') 64 = Some (Some sr)) \<and>
     utf8_text t \<and> clean_text (lf_norm t) \<and> length t \<le> 10000"

lemma usable_outcome:
  assumes "usable res t"
  shows "\<exists>state st'. oracle_outcome E res st = Some (state, AX_FAILURE_NULL, t, True, st')"
  using assms by (auto simp: usable_def oracle_outcome_def Let_def)

text \<open>The state in which the oracle is called: the intent is on disk and logged.\<close>

definition intent_logged :: "('ct, 'cf, 'led) libs \<Rightarrow> req_env \<Rightarrow> byte list \<Rightarrow> ax_oracle_params_t \<Rightarrow> 'led gw_state \<Rightarrow> 'led gw_state" where
  "intent_logged L E norm ps st =
     log_at (rq_ts E) 2 ''info'' ''intent'' (Some (hex32 (axilog_sha256 (sub L) norm))) (-1) (-1) (gwl_seq (aud L) (led st) + 1)
       (st\<lparr>wal := Some (wal_text (intent_of L (st_cfg st) norm ps))\<rparr>)"

lemma handle_reaches_call:
  assumes "digests_32 (sub L)" "config_inv (st_cfg st)" "ident_ok (cfg_model_id (st_cfg st))" "wal st = None" "calls_made st < call_budget (st_cfg st)"
    and i: "ingest (st_cfg st) (rq_bytes E) = Inr (p, prompt)" and n: "utf8_text prompt" "clean_text (lf_norm prompt)"
    and os: "os_calm E (intent_of L (st_cfg st) (lf_norm prompt) (request_params p))"
  defines "norm \<equiv> lf_norm prompt" and "ps \<equiv> request_params p"
  defines "reqjson \<equiv> json_object (request_members (st_cfg st) norm ps)"
  shows "handle_request L E st = call_oracle L E reqjson norm ps (intent_logged L E norm ps st)" "norm \<noteq> []" "length norm < 2 ^ 64"
proof -
  let ?i = "intent_of L (st_cfg st) norm ps"
  note ok = ingest_ok [OF i]
  have len: "int (length prompt) \<le> max_prompt_bytes (st_cfg st)" using ok by (auto simp: params_ok_def)
  have "length norm \<le> length prompt" unfolding norm_def by (rule length_norm_eol)
  then have l: "int (length norm) \<le> max_prompt_bytes (st_cfg st)" "length norm \<le> nat (max_prompt_bytes (st_cfg st))" using len by simp_all
  have body: "request_body (st_cfg st) norm ps = Some reqjson"
    using request_body_eq [OF assms(2,3) _ l(2) request_params_ok(6) [OF ok(1)]] n(2)
    by (simp add: clean_text_iff norm_def ps_def reqjson_def)
  have w: "gw_wal_write (rq_wal E) (wal_path (st_cfg st)) ?i None = (0, Some (wal_text ?i))"
    using wal_write_calm [OF intent_of_ok(1) [OF assms(1,3)] assms(2)] os by (simp add: os_calm_def norm_def ps_def)
  show "handle_request L E st = call_oracle L E reqjson norm ps (intent_logged L E norm ps st)"
    using i n assms(4,5) body w normalise_eq [OF assms(2) len, of L] input_hash_eq [OF assms(2) l(1), of "sub L"]
    by (auto simp: handle_request_def spend_def Let_def intent_of_def intent_logged_def norm_def ps_def)
  show "norm \<noteq> []" "length norm < 2 ^ 64"
    using ok l(1) assms(2) by (auto simp: params_ok_def config_inv_def norm_def)
qed

lemma handle_calm:
  assumes "libs_calm L" "commit_32 (aud L)" "fault_keeps_seq (aud L)" "\<And>c. length (current_hash (aud L) c) = 32"
    and "ledger_inv (aud L) es (led st)" "config_inv (st_cfg st)" "ident_ok (cfg_model_id (st_cfg st))" "ready (aud L) st"
    and "wal st = None" "calls_made st < call_budget (st_cfg st)"
    and i: "ingest (st_cfg st) (rq_bytes E) = Inr (p, prompt)" and n: "utf8_text prompt" "clean_text (lf_norm prompt)"
    and os: "os_calm E (intent_of L (st_cfg st) (lf_norm prompt) (request_params p))"
    and g: "gwc_call (rq_curl E) (st_cfg st) (rq_api_key E) (json_object (request_members (st_cfg st) (lf_norm prompt) (request_params p))) =
      Some (0, res, pauses)"
  shows "\<exists>st' resp e r. handle_request L E st = Some (st', resp) \<and> wal st' = None \<and> ledger_inv (aud L) (es @ [e]) (led st') \<and>
    records L st (lf_norm prompt) (request_params p) e r \<and>
    (\<forall>t. usable res t \<longrightarrow> is_ok resp \<and> suffix t resp \<and> completion_state r \<noteq> AX_COMPLETION_ERROR)"
proof -
  let ?norm = "lf_norm prompt" and ?ps = "request_params p"
  let ?st = "intent_logged L E ?norm ?ps st" and ?body = "json_object (request_members (st_cfg st) ?norm ?ps)"
  have d: "digests_32 (sub L)" "\<And>t. \<not> commit_faults (sub L) t" using assms(1) by (auto simp: libs_calm_def)
  note h = handle_reaches_call [OF d(1) assms(6,7,9,10) i n os]
  obtain state ftype out okc st1 where o: "oracle_outcome E res (?st\<lparr>calls_made := calls_made ?st + 1\<rparr>) = Some (state, ftype, out, okc, st1)"
    using outcome_total by (metis not_None_eq prod_cases5)
  have "ledger_inv (aud L) es (led ?st)" "config_inv (st_cfg ?st)" "ident_ok (cfg_model_id (st_cfg ?st))" "ready (aud L) ?st"
    "wal ?st = Some (wal_text (intent_of L (st_cfg st) ?norm ?ps))" "gwc_call (rq_curl E) (st_cfg ?st) (rq_api_key E) ?body = Some (0, res, pauses)"
    using assms(5-8) g by (simp_all add: ready_def intent_logged_def)
  from call_calm [OF assms(1-4) os this o, of ?norm ?ps]
  obtain st' state' ftype' out' ok' hdr hx hh seq where c: "call_oracle L E ?body ?norm ?ps ?st = Some (st', hdr @ out')" "wal st' = None"
    "ledger_inv (aud L) (es @ [obs_entry L state' ftype' ?norm out' ?ps ?st]) (led st')"
    "response_header ok' state' ftype' hx hh seq (cfg_model_id (st_cfg ?st)) ?ps (length out') = Some hdr"
    "state_pair_is_permitted state' ftype'" "length out' \<le> AX_MAX_OUTPUT_BYTES"
    "commit_code L state ftype ?norm out ?ps ?st = AX_OK \<longrightarrow> (state', ftype', out', ok') = (state, ftype, out, okc)" by blast
  let ?r = "commit_rec L state' ftype' ?norm out' ?ps st"
  have e: "obs_entry L state' ftype' ?norm out' ?ps ?st = obs_entry L state' ftype' ?norm out' ?ps st"
    by (simp add: obs_entry_def commit_rec_def intent_logged_def)
  have "is_ok (hdr @ out') \<and> suffix t (hdr @ out') \<and> completion_state ?r \<noteq> AX_COMPLETION_ERROR" if u: "usable res t" for t
  proof -
    have s: "out = t" "okc" "ftype = AX_FAILURE_NULL" "state_pair_is_permitted state ftype"
      using usable_outcome [OF u, of E "?st\<lparr>calls_made := calls_made ?st + 1\<rparr>"] o outcome_core(2) [OF o] by auto
    have "commit_code L state ftype ?norm out ?ps ?st = AX_OK"
      using u s assms(6-8) by (intro commit_accepts [OF d]) (auto simp: usable_def ready_def intent_logged_def)
    with c(7) s have x: "out' = t" "ok' = True" "state' = state" "ftype' = AX_FAILURE_NULL" by auto
    have "completion_state ?r = state'" by (rule commit_rec_fields(2) [OF h(2,3) c(6)])
    moreover have "state' \<noteq> AX_COMPLETION_ERROR" using c(5) x(4) by (auto simp: state_pair_is_permitted_def enum_defs)
    moreover have "is_ok (hdr @ out')" using is_ok_header c(4) unfolding x(2) by blast
    ultimately show ?thesis using x(1) by (simp add: suffix_def)
  qed
  moreover have "handle_request L E st = Some (st', hdr @ out')" using h(1) c(1) by simp
  moreover have "ledger_inv (aud L) (es @ [obs_entry L state' ftype' ?norm out' ?ps st]) (led st')" using c(3) e by simp
  ultimately show ?thesis using c(2) entry_records [OF h(2,3) c(6,5), of L st ?ps] by blast
qed

section \<open>A blocked store\<close>

lemma store_on_disk: "store_inv A es st \<Longrightarrow> on_disk A es (g_file (led st))"
  by (auto simp: store_inv_def intro: inv_on_disk)

lemma blocked_core: "core st = core st' \<Longrightarrow> blocked A st = blocked A st'"
  by (simp add: core_def blocked_def)

lemma degrade_blocked:
  assumes "digests_32 (sub L)" "blocked (aud L) st" "commit_or_degrade L E res norm ps state ftype out ok st = Some (r, st')"
  shows "r = None \<and> core st' = core st"
proof -
  let ?st = "log_at (rq_ts E) 7 ''warn'' ''oracle_fail'' (Some (str ''output failed admission; recording INVALID_OUTPUT''))
               (attempts res) (http_status res) 0 st"
  have "blocked (aud L) ?st" using assms(2) by (simp add: blocked_def)
  note c = commit_blocked [OF assms(1,2)] commit_blocked [OF assms(1) this]
  show ?thesis using assms(3) by (auto simp: commit_or_degrade_def c split: if_splits)
qed

lemma call_blocked:
  assumes "digests_32 (sub L)" "blocked (aud L) st" "call_oracle L E reqjson norm ps st = Some (st', resp)"
  shows "led st' = led st \<and> adm st' = adm st \<and> st_cfg st' = st_cfg st \<and> \<not> is_ok resp"
proof -
  let ?st = "st\<lparr>calls_made := calls_made st + 1\<rparr>"
  obtain rc res pauses where g: "gwc_call (rq_curl E) (st_cfg st) (rq_api_key E) reqjson = Some (rc, res, pauses)"
    using assms(3) by (auto simp: call_oracle_def Let_def split: bind_splits)
  show ?thesis
  proof (cases "rc = 0")
    case False
    with assms(3) g show ?thesis by (auto simp: call_oracle_def send_error_not_ok)
  next
    case True
    obtain state ftype out ok st1 where o: "oracle_outcome E res ?st = Some (state, ftype, out, ok, st1)"
      using outcome_total [of E res ?st] by (metis not_None_eq prod_cases5)
    obtain r st2 where d: "commit_or_degrade L E res norm ps state ftype out ok st1 = Some (r, st2)"
      using degrade_total [OF assms(1)] by (metis not_None_eq surj_pair)
    have c1: "core st1 = core ?st" by (rule outcome_core [OF o])
    have "blocked (aud L) st1" using assms(2) blocked_core [OF c1, of "aud L"] by (simp add: blocked_def)
    from degrade_blocked [OF assms(1) this d] assms(3) g True o d c1 show ?thesis
      by (auto simp: call_oracle_def core_def send_error_not_ok)
  qed
qed

lemma handle_blocked:
  assumes "digests_32 (sub L)" "blocked (aud L) st" "config_inv (st_cfg st)" "handle_request L E st = Some (st', resp)"
  shows "led st' = led st \<and> adm st' = adm st \<and> st_cfg st' = st_cfg st \<and> \<not> is_ok resp"
proof (cases "ingest (st_cfg st) (rq_bytes E)")
  case (Inl reason)
  then show ?thesis using assms(4) by (auto simp: handle_request_def send_error_not_ok log_reject_def)
next
  case (Inr x)
  have call: "led s' = led s \<and> adm s' = adm s \<and> st_cfg s' = st_cfg s \<and> \<not> is_ok resp"
    if "call_oracle L E reqjson norm ps s = Some (s', resp)" "led s = led st" "adm s = adm st" for reqjson norm ps s s'
    using call_blocked [OF assms(1) _ that(1)] assms(2) that(2,3) by (simp add: blocked_def)
  have sp: "led s' = led st \<and> adm s' = adm st \<and> st_cfg s' = st_cfg st \<and> \<not> is_ok resp"
    if "spend L E norm ps st = Some (s', resp)" for norm ps s'
    using that by (auto simp: spend_def Let_def send_error_not_ok dest!: call split: if_splits bind_splits option.splits prod.splits)
  obtain p prompt where "ingest (st_cfg st) (rq_bytes E) = Inr (p, prompt)" using Inr by (cases x) auto
  then show ?thesis using assms(4) sp by (auto simp: handle_request_def send_error_not_ok split: bind_splits option.splits)
qed

section \<open>A concrete run\<close>

definition sample_libs :: "(unit, unit, nat) libs" where
  "sample_libs = \<lparr>sub = sample_substrate, aud = sample_audit, ct_zero = ()\<rparr>"

definition sample_state :: "nat gw_state" where
  "sample_state = \<lparr>st_cfg = sample_config, adm = ax_admission_ctx_init, calls_made = 0, export_drop_logged = False,
     led = sample_ledger\<lparr>g_fd := True\<rparr>, wal = None, logst = \<lparr>g_log = Some [], g_secret = []\<rparr>, fixture = None\<rparr>"

definition sample_answer :: "byte list" where
  \<open>sample_answer = str ''{"content":[{"type":"text","text":"yes"}],"stop_reason":"end_turn"}''\<close>

text \<open>A client whose first attempt ends with status \<open>s\<close>; with \<open>ok\<close> false it cannot start.\<close>

definition curl_with :: "bool \<Rightarrow> int \<Rightarrow> curl_env" where
  "curl_with ok s = \<lparr>attempt_of = (\<lambda>_ _. \<lparr>ca_init_ok = ok, ca_headers_ok = True, ca_proto_ok = True,
      ca_events = [Piece True sample_answer], ca_rc = CURLE_OK, ca_status = s, ca_err = [], ca_rand = 0\<rparr>),
     easy_strerror = (\<lambda>_. [])\<rparr>"

definition sample_env :: "curl_env \<Rightarrow> append_env \<Rightarrow> req_env" where
  "sample_env c a = \<lparr>rq_bytes = request_text sample_req (str ''hi''), rq_ts = (\<lambda>_. []),
     rq_wal = calm_wal (intent_of sample_libs sample_config (str ''hi'') (request_params sample_req)), rq_unlink_ok = True,
     rq_clear = \<lparr>de_open_ok = True, de_fsync_ok = True\<rparr>, rq_api_key = str ''k'', rq_curl = c,
     rq_fixture = \<lparr>fe_open_ok = True, fe_writes = [], fe_fsync_ok = True\<rparr>, rq_append = a, rq_append2 = sample_append, rq_conn = []\<rparr>"

lemma sample_headers: "headers_end (rq_curl (sample_env (curl_with ok s) a))"
  by (simp add: headers_end_def sample_env_def curl_with_def)

lemma sample_libs_ok:
  "libs_calm sample_libs" "commit_32 (aud sample_libs)" "fault_keeps_seq (aud sample_libs)" "digests_32 (sub sample_libs)"
  "length (current_hash (aud sample_libs) c) = 32"
  using sample_substrate_ok sample_audit_ok
  by (simp_all add: sample_libs_def libs_calm_def fault_keeps_seq_def) (simp add: sample_audit_def)

lemma sample_state_ok:
  "config_inv (st_cfg sample_state)" "ident_ok (cfg_model_id (st_cfg sample_state))" "ledger_inv (aud sample_libs) [] (led sample_state)"
  "store_inv (aud sample_libs) [] sample_state" "ready (aud sample_libs) sample_state" "wal sample_state = None"
  "calls_made sample_state = 0" "call_budget (st_cfg sample_state) = 2" "st_cfg sample_state = sample_config"
  using sample_config_printable sample_inv
  by (auto simp: sample_state_def printable_config_def config_inv_def store_inv_def sample_libs_def ready_def ax_admission_ctx_init_def
      sample_config_def)

lemma sample_prompt: "utf8_text (str ''hi'')" "clean_text (str ''hi'')" "lf_norm (str ''hi'') = str ''hi''"
  unfolding clean_text_iff validate_utf8_iff [symmetric] by code_simp+

lemma sample_ingest: "ingest sample_config (rq_bytes (sample_env c a)) = Inr (sample_req, str ''hi'')"
  using ingest_request_text [OF sample_req_ok, of "str ''hi''" "[]"]
  by (simp add: sample_env_def sample_req_def sample_config_def config_defaults_def)

lemma sample_os: "os_calm (sample_env c sample_append) (intent_of sample_libs sample_config (str ''hi'') (request_params sample_req))"
  by (simp add: os_calm_def sample_env_def append_calm_def sample_append_def)

lemma sample_answer_read:
  "gwj_content_text sample_answer (of_nat AX_MAX_OUTPUT_BYTES) = Some (Some (str ''yes''))"
  "gwj_top_string sample_answer (str ''stop_reason'') 64 = Some (Some (str ''end_turn'' @ [0]))"
proof -
  have "of_nat AX_MAX_OUTPUT_BYTES = (64512 :: size_t)" by (simp add: limit_defs)
  moreover have "gwj_content_text sample_answer 64512 = Some (Some (str ''yes''))" by code_simp
  ultimately show "gwj_content_text sample_answer (of_nat AX_MAX_OUTPUT_BYTES) = Some (Some (str ''yes''))" by (simp only:)
  show "gwj_top_string sample_answer (str ''stop_reason'') 64 = Some (Some (str ''end_turn'' @ [0]))" by code_simp
qed

definition sample_ok :: gwc_result_t where
  "sample_ok = \<lparr>outcome = GWC_OK, http_status = 200, attempts = 1, res_body = Some sample_answer, errbuf = []\<rparr>"

lemma sample_gwc: "gwc_call (curl_with True 200) sample_config key reqjson = Some (0, sample_ok, [])"
proof -
  have "length sample_answer = 67" by (simp add: sample_answer_def)
  then show ?thesis
    by (simp add: gwc_call_def gwc_loop.simps [of _ _ _ 1] sample_attempts gwc_attempt_def curl_with_def on_body_def body_len_def
        result_init_def sample_ok_def) (simp add: sample_config_def config_defaults_def)
qed

lemma sample_usable: "usable sample_ok (str ''yes'')"
proof -
  have "utf8_text (str ''yes'')" "clean_text (lf_norm (str ''yes''))"
    unfolding clean_text_iff validate_utf8_iff [symmetric] by code_simp+
  then show ?thesis by (simp add: usable_def sample_ok_def sample_answer_read)
qed

lemma sample_served:
  "\<exists>st' resp e. handle_request sample_libs (sample_env (curl_with True 200) sample_append) sample_state = Some (st', resp) \<and>
     ledger_inv (aud sample_libs) [e] (led st') \<and> is_ok resp \<and> calls_made st' = 1"
proof -
  let ?E = "sample_env (curl_with True 200) sample_append"
  have "\<exists>st' resp e r. handle_request sample_libs ?E sample_state = Some (st', resp) \<and> wal st' = None \<and>
    ledger_inv (aud sample_libs) ([] @ [e]) (led st') \<and>
    records sample_libs sample_state (lf_norm (str ''hi'')) (request_params sample_req) e r \<and>
    (\<forall>t. usable sample_ok t \<longrightarrow> is_ok resp \<and> suffix t resp \<and> completion_state r \<noteq> AX_COMPLETION_ERROR)"
    using sample_libs_ok sample_state_ok sample_ingest [of "curl_with True 200" sample_append] sample_prompt
      sample_os [of "curl_with True 200"] sample_gwc
    by (intro handle_calm [where pauses = "[]"]) (simp_all add: sample_env_def)
  then obtain st' resp e where h: "handle_request sample_libs ?E sample_state = Some (st', resp)"
    "ledger_inv (aud sample_libs) [e] (led st')" "is_ok resp" using sample_usable by auto
  from handle_cases [OF sample_libs_ok(4,3) sample_state_ok(1,2,4) h(1)] h(3) have "calls_made st' = 1"
    by (auto simp: request_called_def sample_state_ok(7))
  with h show ?thesis by blast
qed

lemma read_line_end: "read_line cap [] = None"
  by (cases "cap - 1") (simp_all add: read_line_def)

lemma sample_refused:
  "handle_request sample_libs ((sample_env c a)\<lparr>rq_bytes := []\<rparr>) sample_state =
     Some (sample_state, send_error ((sample_env c a)\<lparr>rq_bytes := []\<rparr>) ''bad_request'')"
  by (simp add: handle_request_def ingest_def ingest_loop.simps read_line_end log_reject_def)

section \<open>Properties\<close>

text \<open>
  C7: Every paid call leaves evidence: whatever the network, the oracle, the disk and the
  libraries do, a request that spends one call of the budget spends exactly one, and
  afterwards either the ledger has exactly one more entry, the canonical record of this
  prompt's hash under the next sequence number, or the ledger's entries are unchanged,
  the write-ahead file still yields an intent with this prompt's hash, and the answer is not \<open>ok\<close>.
\<close>

theorem call_is_evidenced:
  assumes "digests_32 (sub L)" "fault_keeps_seq (aud L)" "config_inv (st_cfg st)" "ident_ok (cfg_model_id (st_cfg st))"
    and "store_inv (aud L) es st" "handle_request L E st = Some (st', resp)" "calls_made st' \<noteq> calls_made st"
  shows "calls_made st' = calls_made st + 1 \<and>
    (\<exists>p prompt. ingest (st_cfg st) (rq_bytes E) = Inr (p, prompt) \<and>
      ((\<exists>e r. ledger_inv (aud L) (es @ [e]) (led st') \<and> records L st (lf_norm prompt) (request_params p) e r) \<or>
       (\<exists>i. store_inv (aud L) es st' \<and> gw_wal_recover True (wal st') intent_init = (1, i) \<and>
          input_hash_hex i = hex_text (axilog_sha256 (sub L) (lf_norm prompt)) \<and> \<not> prefix (str ''status: ok'') resp)))"
proof -
  have c: "request_called L es E st st' resp"
    using handle_cases [OF assms(1-6)] assms(7) by (auto simp: refused_def request_torn_def intent_torn_def core_def)
  then have "calls_made st' = calls_made st + 1" by (simp add: request_called_def)
  with called_records [OF c assms(3,1,4), of intent_init] show ?thesis unfolding is_ok_def by blast
qed

theorem call_is_evidenced_witness:
  "\<exists>st' resp. handle_request sample_libs (sample_env (curl_with True 200) sample_append) sample_state = Some (st', resp) \<and>
     ((\<exists>e r. ledger_inv (aud sample_libs) ([] @ [e]) (led st') \<and>
         records sample_libs sample_state (lf_norm (str ''hi'')) (request_params sample_req) e r) \<or>
      (\<exists>i. store_inv (aud sample_libs) [] st' \<and> gw_wal_recover True (wal st') intent_init = (1, i) \<and>
         input_hash_hex i = hex_text (axilog_sha256 (sub sample_libs) (lf_norm (str ''hi'')))))"
proof -
  obtain st' resp where h: "handle_request sample_libs (sample_env (curl_with True 200) sample_append) sample_state = Some (st', resp)"
    "calls_made st' = 1" using sample_served by blast
  have "calls_made st' \<noteq> calls_made sample_state" using h(2) by (simp add: sample_state_ok)
  from call_is_evidenced [OF sample_libs_ok(4,3) sample_state_ok(1,2,4) h(1) this] h(1)
  show ?thesis by (auto simp: sample_state_ok(9) sample_ingest)
qed

text \<open>
  C2: \<open>status: ok\<close> is only sent for recorded evidence: if the bytes on the connection start
  with \<open>status: ok\<close>, the ledger has one more entry, the record of this prompt's hash with
  state \<open>COMPLETE\<close> or \<open>TRUNCATED\<close>, and the file on disk is exactly the ledger's entries.  What the caller
  has read is a receipt for it: a header with the hash of that record, the head and the number of the ledger
  as it is now, and an output that is the text of the oracle's answer to the body made from this prompt, with
  its normalised text in the record; or a first part of that, if the connection fails.
\<close>

theorem ok_means_recorded:
  assumes "digests_32 (sub L)" "fault_keeps_seq (aud L)" "config_inv (st_cfg st)" "ident_ok (cfg_model_id (st_cfg st))"
    and "store_inv (aud L) es st" "handle_request L E st = Some (st', resp)" "prefix (str ''status: ok'') resp"
  shows "\<exists>p prompt e r. ingest (st_cfg st) (rq_bytes E) = Inr (p, prompt) \<and> g_file (led st') = frames (aud L) (es @ [e]) \<and>
    ledger_inv (aud L) (es @ [e]) (led st') \<and> records L st (lf_norm prompt) (request_params p) e r \<and>
    completion_state r \<noteq> AX_COMPLETION_ERROR \<and> receipt L E (lf_norm prompt) (request_params p) r st' resp"
proof -
  have ok: "is_ok resp" using assms(7) by (simp add: is_ok_def)
  have c: "request_called L es E st st' resp" using handle_cases [OF assms(1-6)] ok by blast
  then obtain p prompt e r where "ingest (st_cfg st) (rq_bytes E) = Inr (p, prompt)" "ledger_inv (aud L) (es @ [e]) (led st')"
    "records L st (lf_norm prompt) (request_params p) e r" "completion_state r \<noteq> AX_COMPLETION_ERROR" "receipt L E (lf_norm prompt) (request_params p) r st' resp"
    using called_records [OF c assms(3,1,4), of intent_init] ok by blast
  moreover from this(2) have "g_file (led st') = frames (aud L) (es @ [e])" by (simp add: ledger_inv_def)
  ultimately show ?thesis by blast
qed

theorem ok_means_recorded_witness:
  "\<exists>st' resp e r. handle_request sample_libs (sample_env (curl_with True 200) sample_append) sample_state = Some (st', resp) \<and>
     g_file (led st') = frames (aud sample_libs) ([] @ [e]) \<and>
     records sample_libs sample_state (lf_norm (str ''hi'')) (request_params sample_req) e r"
proof -
  obtain st' resp where h: "handle_request sample_libs (sample_env (curl_with True 200) sample_append) sample_state = Some (st', resp)"
    "is_ok resp" using sample_served by blast
  from ok_means_recorded [OF sample_libs_ok(4,3) sample_state_ok(1,2,4) h(1) h(2) [unfolded is_ok_def]] h(1)
  show ?thesis by (auto simp: sample_state_ok(9) sample_ingest)
qed

text \<open>
  C17: A refusal costs nothing: a request that does not spend a call leaves the ledger and
  the admission context as they were, never answers \<open>ok\<close>, and leaves the write-ahead file
  alone, unless there was budget left, no intent was open and writing the intent of this very request
  failed after the file had been made: then a first part of that intent is there.
\<close>

theorem refusal_costs_nothing:
  assumes "digests_32 (sub L)" "fault_keeps_seq (aud L)" "config_inv (st_cfg st)" "ident_ok (cfg_model_id (st_cfg st))"
    and "store_inv (aud L) es st" "handle_request L E st = Some (st', resp)" "calls_made st' = calls_made st"
  shows "led st' = led st \<and> adm st' = adm st \<and> \<not> prefix (str ''status: ok'') resp \<and>
    (wal st' = wal st \<or> wal st = None \<and> calls_made st < call_budget (st_cfg st) \<and>
      (\<exists>p prompt t. ingest (st_cfg st) (rq_bytes E) = Inr (p, prompt) \<and> wal st' = Some t \<and>
         (let i = intent_of L (st_cfg st) (lf_norm prompt) (request_params p)
          in prefix t (wal_text i) \<and> fst (gw_wal_write (rq_wal E) (wal_path (st_cfg st)) i None) \<noteq> 0)))"
proof -
  from handle_cases [OF assms(1-6)] assms(7) have "\<not> is_ok resp" "refused st st' \<or> request_torn L E st st'"
    by (auto simp: request_called_def)
  then show ?thesis unfolding is_ok_def request_torn_def intent_torn_def refused_def core_def Let_def by force
qed

theorem refusal_costs_nothing_witness:
  "\<not> prefix (str ''status: ok'') (send_error ((sample_env (curl_with True 200) sample_append)\<lparr>rq_bytes := []\<rparr>) ''bad_request'')"
  using refusal_costs_nothing [OF sample_libs_ok(4,3) sample_state_ok(1,2,4) sample_refused refl] by blast



text \<open>
  C26: A request is defined behaviour: for every configuration the loader accepts and
  every sequence of bytes on the connection the handler returns, with no read or write
  outside a buffer in validation, admission, hashing, serialisation and the header callback, whatever the disk and the libraries
  do and whatever libcurl delivers, if every \<open>retry-after\<close> line among it ends what \<open>strtol()\<close> reads.  The
  condition is needed (\<open>retry_after_overread\<close>).  Writing to the connection is taken to
  end: it is interrupted, or takes nothing, only finitely often.
\<close>

theorem request_never_undefined:
  assumes "digests_32 (sub L)" "config_inv (st_cfg st)" "headers_end (rq_curl E)"
  shows "\<exists>st' resp. handle_request L E st = Some (st', resp)"
  using handle_total [OF assms] by auto

theorem request_never_undefined_witness:
  "\<exists>st' resp. handle_request sample_libs (sample_env (curl_with False 500) sample_append) sample_state = Some (st', resp)"
  using request_never_undefined [OF sample_libs_ok(4) sample_state_ok(1) sample_headers] .

text \<open>
  C11: A calm request is served: with libraries that report no fault and system calls that
  succeed, on a store that is not blocked and with budget left, a valid request whose call, with the JSON object of its
  prompt and parameters as the body, returns leaves its record in the ledger and no intent behind, whatever the oracle
  answered; and if the answer has usable text of at most 10000 bytes the caller reads
  \<open>status: ok\<close> and that text.
\<close>

theorem calm_request_served:
  assumes "libs_calm L" "commit_32 (aud L)" "fault_keeps_seq (aud L)" "\<And>c. length (current_hash (aud L) c) = 32"
    and "ledger_inv (aud L) es (led st)" "config_inv (st_cfg st)" "ident_ok (cfg_model_id (st_cfg st))" "ready (aud L) st"
    and "wal st = None" "calls_made st < call_budget (st_cfg st)"
    and "ingest (st_cfg st) (rq_bytes E) = Inr (p, prompt)" "utf8_text prompt" "clean_text (lf_norm prompt)"
    and "os_calm E (intent_of L (st_cfg st) (lf_norm prompt) (request_params p))"
    and "gwc_call (rq_curl E) (st_cfg st) (rq_api_key E) (json_object (request_members (st_cfg st) (lf_norm prompt) (request_params p))) =
      Some (0, res, pauses)"
  shows "\<exists>st' resp e r. handle_request L E st = Some (st', resp) \<and> wal st' = None \<and> ledger_inv (aud L) (es @ [e]) (led st') \<and>
    records L st (lf_norm prompt) (request_params p) e r \<and>
    (\<forall>t. usable res t \<longrightarrow> prefix (str ''status: ok'') resp \<and> suffix t resp \<and> completion_state r \<noteq> AX_COMPLETION_ERROR)"
  using handle_calm [OF assms] unfolding is_ok_def by blast

theorem calm_request_served_witness:
  "\<exists>st' resp. handle_request sample_libs (sample_env (curl_with True 200) sample_append) sample_state = Some (st', resp) \<and>
     wal st' = None \<and> prefix (str ''status: ok'') resp \<and> suffix (str ''yes'') resp"
proof -
  let ?E = "sample_env (curl_with True 200) sample_append"
  have "\<exists>st' resp e r. handle_request sample_libs ?E sample_state = Some (st', resp) \<and> wal st' = None \<and>
    ledger_inv (aud sample_libs) ([] @ [e]) (led st') \<and>
    records sample_libs sample_state (lf_norm (str ''hi'')) (request_params sample_req) e r \<and>
    (\<forall>t. usable sample_ok t \<longrightarrow> prefix (str ''status: ok'') resp \<and> suffix t resp \<and> completion_state r \<noteq> AX_COMPLETION_ERROR)"
    using sample_libs_ok sample_state_ok sample_ingest [of "curl_with True 200" sample_append] sample_prompt
      sample_os [of "curl_with True 200"] sample_gwc
    by (intro calm_request_served [where pauses = "[]"]) (simp_all add: sample_env_def)
  with sample_usable show ?thesis by blast
qed

end
