(* ===== verification/GwNotify.thy ===== *)
theory GwNotify
  imports CText
begin

text \<open>
  The readiness notification, \<open>gateway/src/gw_notify.c\<close>: one datagram to the
  supervisor named by the environment variable \<open>NOTIFY_SOCKET\<close>.
\<close>

section \<open>Model\<close>

text \<open>The size of \<open>sun_path\<close> in \<open>struct sockaddr_un\<close> on Linux.\<close>

definition SUN_PATH_SIZE :: nat where "SUN_PATH_SIZE = 108"

record notify_env =
  ne_path :: "byte list option"
  ne_socket_ok :: bool
  ne_sent :: int

text \<open>The return code and, if \<open>sendto()\<close> is called, the address bytes and the message it is given.\<close>

definition gw_notify_ready :: "notify_env \<Rightarrow> int \<times> (byte list \<times> byte list) option" where
  "gw_notify_ready env =
     (let msg = str ''READY=1'' in
      case ne_path env of
        None \<Rightarrow> (0, None)
      | Some p \<Rightarrow>
          (case c_str p of
             [] \<Rightarrow> (0, None)
           | c # r \<Rightarrow>
               if c \<noteq> 0x2F \<and> c \<noteq> 0x40 then (-1, None)
               else if SUN_PATH_SIZE \<le> length (c # r) then (-1, None)
               else
                 let addr = (if c = 0x40 then 0 # r else c # r) in
                 if \<not> ne_socket_ok env then (-1, None)
                 else (if ne_sent env = int (length msg) then 0 else -1, Some (addr, msg))))"

section \<open>What is sent\<close>

text \<open>
  A datagram is only sent to a filesystem path or an abstract address, it is always the
  whole message, the address fits its buffer, and the call reports success exactly if the
  message went out whole or there is no supervisor.
\<close>

lemma notify_result:
  assumes "gw_notify_ready env = (rc, sent)"
  shows "rc = 0 \<or> rc = -1"
    and "sent = Some (addr, msg) \<Longrightarrow> msg = str ''READY=1'' \<and> length addr < SUN_PATH_SIZE \<and>
      (hd addr = 0x2F \<or> hd addr = 0) \<and> (rc = 0 \<longleftrightarrow> ne_sent env = 7)"
    and "sent = None \<Longrightarrow> rc = 0 \<longleftrightarrow> c_str (case ne_path env of None \<Rightarrow> [] | Some p \<Rightarrow> p) = []"
  using assms by (cases "ne_path env"; cases "c_str (the (ne_path env))"; auto simp: gw_notify_ready_def Let_def split: if_splits)+

end
