(* ===== verification/GwStart.thy ===== *)
theory GwStart
  imports GwService GwNotify
begin

text \<open>
  The life of the gateway process, \<open>gateway/src/gw_main.c\<close>: recovery of an open
  intent, start-up, the accept loop and shutdown.

  \<open>start_env\<close> is what \<open>main\<close>, called with the name of a configuration file, meets: that file, the
  environment variables, the log file and the results of system calls; \<open>se_bind_ok\<close> says that
  \<open>bind()\<close>, \<open>chmod()\<close> and \<open>listen()\<close> all succeed, \<open>se_alloc_ok\<close> that no \<open>malloc()\<close> fails.  The two files that
  outlive a process are the ledger and the write-ahead intent; they are arguments
  of \<open>gw_start\<close>.  Signals are an event of the accept loop.
\<close>

section \<open>Model: recovery\<close>

record recover_env =
  re_ts :: "nat \<Rightarrow> byte list"
  re_fopen_ok :: bool
  re_append :: append_env
  re_unlink_ok :: bool
  re_clear :: dir_env

definition recover_params :: "gw_intent_t \<Rightarrow> ax_oracle_params_t" where
  "recover_params i =
     (let ps = ax_oracle_params_init_null\<lparr>p_max_tokens := wi_max_tokens i\<rparr>;
          ps = (if temperature_q16 i \<noteq> AX_PARAMS_NULL_Q16 then ps\<lparr>p_temperature := temperature_q16 i\<rparr> else ps)
      in if top_p_q16 i \<noteq> AX_PARAMS_NULL_Q16 then ps\<lparr>p_top_p := top_p_q16 i\<rparr> else ps)"

definition synth :: "byte list \<Rightarrow> byte list" where
  "synth hash_hex = str ''unclosed-intent input_hash='' @ hash_hex"

text \<open>The return code and the state; \<open>intent_init\<close> stands for the unset local variable.\<close>

definition recover_wal :: "('ct, 'cf, 'led) libs \<Rightarrow> recover_env \<Rightarrow> 'led gw_state \<Rightarrow> (int \<times> 'led gw_state) option" where
  "recover_wal L R st =
     (let clear = (\<lambda>st. case gw_wal_clear (re_unlink_ok R) (re_clear R) (wal_path (st_cfg st)) (wal st) of
                     (rc, w) \<Rightarrow> (rc, st\<lparr>wal := w\<rparr>));
          (r, i) = gw_wal_recover (re_fopen_ok R) (wal st) intent_init
      in
      if r = 0 then Some (0, st)
      else if r < 0 then
        Some (-1, log_at (re_ts R) 20 ''error'' ''fault'' (Some (str ''corrupt WAL intent; refusing to start'')) (-1) (-1) 0 st)
      else if gwl_last_payload_contains (Some (input_hash_hex i)) (led st) then
        Some (clear (log_at (re_ts R) 20 ''info'' ''wal_recovered'' (Some (str ''intent already evidenced; clearing stale WAL''))
                (-1) (-1) (gwl_seq (aud L) (led st)) st))
      else do {
        (x, st) \<leftarrow> commit_observation L (re_append R) AX_COMPLETION_ERROR AX_FAILURE_TRANSPORT_ERROR
                    (synth (input_hash_hex i)) [] (recover_params i) st;
        Some (case x of
           None \<Rightarrow> (-1, log_at (re_ts R) 20 ''error'' ''fault'' (Some (str ''WAL recovery observation failed'')) (-1) (-1) 0 st)
         | Some (_, _, seq) \<Rightarrow>
             clear (log_at (re_ts R) 20 ''info'' ''wal_recovered'' (Some (input_hash_hex i)) (-1) (-1) seq st))
      })"

section \<open>Model: start-up\<close>

text \<open>\<open>api_key_check\<close>: 0, or -1 for a key with a control byte or DEL.\<close>

definition api_key_check :: "byte list \<Rightarrow> int" where
  "api_key_check key = (if has_control (c_str key) then -1 else 0)"

record start_env =
  se_config :: "byte list option"
  se_url :: "bool \<times> bool \<times> bool \<times> byte list option"
  se_key :: "byte list option"
  se_log :: "byte list option"
  se_alloc_ok :: bool
  se_probe_ok :: bool
  se_open :: open_env
  se_export :: export_env
  se_recover :: recover_env
  se_commit :: append_env
  se_curl_ok :: bool
  se_socket_ok :: bool
  se_bind_ok :: bool
  se_notify :: notify_env

definition state_payload :: "byte list \<Rightarrow> byte list" where
  \<open>state_payload cfg_hex =
     str ''{"component":"axioma-gateway","config_sha256":"'' @ cfg_hex @ str ''","evidence_type":"AX:STATE:v1"}''\<close>

text \<open>\<open>return 1\<close> from \<open>main\<close> after a log line, and after nothing.\<close>

definition start_fault :: "(nat \<Rightarrow> byte list) \<Rightarrow> nat \<Rightarrow> string \<Rightarrow> 'led gw_state \<Rightarrow> int \<times> 'led gw_state" where
  "start_fault ts k message st = (1, log_at ts k ''error'' ''fault'' (Some (str message)) (-1) (-1) 0 st)"

text \<open>From the opened ledger to the configuration commitment: the export, the recovery, the commitment.\<close>

definition commit_config :: "('ct, 'cf, 'led) libs \<Rightarrow> start_env \<Rightarrow> 'led gw_state \<Rightarrow> int \<times> 'led gw_state" where
  "commit_config L V st =
     (let cfg_hex = hex32 (axilog_sha256 (sub L) (raw (st_cfg st))); ts = re_ts (se_recover V) in
      case gwl_append (aud L) (se_commit V) (Some GW_TAG_STATE) (Some (state_payload cfg_hex)) (led st) of
        ((rc, out), l) \<Rightarrow>
          let st = st\<lparr>led := l\<rparr> in
          if rc \<noteq> 0 then start_fault ts 30 ''config commitment failed'' st
          else (0, log_at ts 30 ''info'' ''config_commit'' (Some cfg_hex) (-1) (-1) (snd (the out)) st))"

definition open_ledger :: "('ct, 'cf, 'led) libs \<Rightarrow> start_env \<Rightarrow> 'led gw_state \<Rightarrow> int \<times> 'led gw_state" where
  "open_ledger L V st =
     (let cfg = st_cfg st; ts = re_ts (se_recover V);
          wal_present = (fst (gw_wal_recover (se_probe_ok V) (wal st) intent_init) = 1);
          (rc, truncated, l) = gwl_open (aud L) (se_open V) (g_file (led st)) wal_present (led st);
          st = st\<lparr>led := l\<rparr>
      in
      if rc \<noteq> 0 then start_fault ts 10 ''ledger open/replay failed'' st
      else
        let st = (if truncated then
                    log_at ts 10 ''warn'' ''fault'' (Some (str ''torn ledger tail truncated under open WAL intent''))
                      (-1) (-1) (gwl_seq (aud L) l) st
                  else st)
        in
        if export_path cfg = [] then (0, st)
        else case gwl_export_enable (se_export V) (Some (export_path cfg)) (led st) of
          (rc, l) \<Rightarrow>
            let st = st\<lparr>led := l\<rparr> in
            if rc \<noteq> 0 then start_fault ts 11 ''ledger export enable failed'' st
            else (0, log_at ts 11 ''info'' ''export_enabled'' (Some (export_path cfg)) (-1) (-1) (gwl_seq (aud L) l) st))"

text \<open>The socket: bound and listening, then the supervisor is told.\<close>

definition listen_socket :: "('ct, 'cf, 'led) libs \<Rightarrow> start_env \<Rightarrow> 'led gw_state \<Rightarrow> int \<times> 'led gw_state" where
  "listen_socket L V st =
     (let ts = re_ts (se_recover V) in
      if \<not> se_curl_ok V then start_fault ts 40 ''curl init failed'' st
      else if \<not> se_socket_ok V then start_fault ts 40 ''socket'' st
      else if SUN_PATH_SIZE \<le> length (socket_path (st_cfg st)) then start_fault ts 40 ''socket_path exceeds AF_UNIX limit'' st
      else if \<not> se_bind_ok V then start_fault ts 40 ''bind/listen'' st
      else
        let st = (if fst (gw_notify_ready (se_notify V)) \<noteq> 0 then
                    log_at ts 40 ''warn'' ''fault'' (Some (str ''sd_notify READY=1 send failed'')) (-1) (-1) 0 st
                  else st)
        in (0, log_at ts 41 ''info'' ''startup'' (Some (cfg_model_id (st_cfg st))) (-1) (-1) (gwl_seq (aud L) (led st)) st))"

text \<open>
  The checks before anything durable is touched: \<open>Inl\<close> is \<open>return 1\<close>.  \<open>l\<close> is the ledger's
  static data with the file at the configured path, \<open>w\<close> the write-ahead file.
\<close>

definition start_checks :: "start_env \<Rightarrow> 'led gw_ledger \<Rightarrow> byte list option \<Rightarrow> 'led gw_state + 'led gw_state" where
  "start_checks V l w =
     (let (rc, cfg) = gw_config_load (se_config V);
          st = \<lparr>st_cfg = cfg, adm = ax_admission_ctx_init, calls_made = 0, export_drop_logged = False, led = l, wal = w,
                logst = \<lparr>g_log = None, g_secret = []\<rparr>, fixture = None\<rparr>
      in
      if rc \<noteq> 0 then Inl st
      else if (case se_url V of (i, h, a, s) \<Rightarrow> gwc_url_check i h a s) \<noteq> 0 then Inl st
      else case se_key V of
        None \<Rightarrow> Inl st
      | Some key \<Rightarrow>
          if c_str key = [] then Inl st
          else if api_key_check key \<noteq> 0 then Inl st
          else
            let (rc, lg) = gw_log_open (se_log V) (Some key) (logst st); st = st\<lparr>logst := lg\<rparr> in
            if rc \<noteq> 0 then Inl st
            else if \<not> se_alloc_ok V then Inl st
            else Inr st)"

text \<open>\<open>main\<close> up to the accept loop: 0 and the state of the service, or 1.\<close>

definition start_service :: "('ct, 'cf, 'led) libs \<Rightarrow> start_env \<Rightarrow> 'led gw_state \<Rightarrow> (int \<times> 'led gw_state) option" where
  "start_service L V st =
     (case open_ledger L V st of
        (rc, st) \<Rightarrow>
          if rc \<noteq> 0 then Some (1, st)
          else do {
            (rc, st) \<leftarrow> recover_wal L (se_recover V) st;
            if rc \<noteq> 0 then Some (1, st)
            else case commit_config L V st of
              (rc, st) \<Rightarrow> Some (if rc \<noteq> 0 then (1, st) else listen_socket L V st)
          })"

definition gw_start ::
    "('ct, 'cf, 'led) libs \<Rightarrow> start_env \<Rightarrow> 'led gw_ledger \<Rightarrow> byte list option \<Rightarrow> (int \<times> 'led gw_state) option" where
  "gw_start L V l w = (case start_checks V l w of Inl st \<Rightarrow> Some (1, st) | Inr st \<Rightarrow> start_service L V st)"

section \<open>Model: the accept loop and shutdown\<close>

text \<open>
  What \<open>accept()\<close> returns: a connection, an interrupted call or an error.  The Boolean says
  whether a signal set \<open>g_stop\<close> while the call waited or the connection was served.
\<close>

datatype accept_event = Client req_env bool | Interrupted bool | Accept_error "nat \<Rightarrow> byte list"

text \<open>The state and the responses sent.  \<open>stop\<close> is \<open>g_stop\<close>; a list that ends leaves the loop waiting.\<close>

fun serve :: "('ct, 'cf, 'led) libs \<Rightarrow> bool \<Rightarrow> accept_event list \<Rightarrow> 'led gw_state \<Rightarrow> ('led gw_state \<times> byte list list) option" where
  "serve L stop [] st = Some (st, [])"
| "serve L stop (ev # evs) st =
     (if stop then Some (st, [])
      else case ev of
        Client E s \<Rightarrow> do {
          (st, resp) \<leftarrow> handle_request L E st;
          (st, resps) \<leftarrow> serve L s evs st;
          Some (st, resp # resps)
        }
      | Interrupted s \<Rightarrow> serve L s evs st
      | Accept_error ts \<Rightarrow> Some (log_at ts 50 ''error'' ''fault'' (Some (str ''accept'')) (-1) (-1) 0 st, []))"

definition shutdown :: "('ct, 'cf, 'led) libs \<Rightarrow> (nat \<Rightarrow> byte list) \<Rightarrow> 'led gw_state \<Rightarrow> 'led gw_state" where
  "shutdown L ts st =
     (let st = log_at ts 51 ''info'' ''shutdown'' None (-1) (-1) (gwl_seq (aud L) (led st)) st in
      st\<lparr>led := gwl_close (led st), logst := gw_log_close (logst st)\<rparr>)"

section \<open>Recovery\<close>

lemma clear_ok: "gw_wal_clear u d path w = (0, w') \<Longrightarrow> w' = None"
  by (auto simp: gw_wal_clear_def split: if_splits)

lemma synth_text:
  assumes "length h = 64"
  shows "synth h \<noteq> []" "length (synth h) < 2 ^ 64"
  using assms by (simp_all add: synth_def str_def)

text \<open>
  What recovery leaves: the entries it found and at most one more, which says that the call
  was made and its answer was not evidenced.
\<close>

definition unanswered :: "('ct, 'cf, 'led) libs \<Rightarrow> gw_intent_t \<Rightarrow> byte list \<times> byte list \<Rightarrow> bool" where
  "unanswered L i e \<longleftrightarrow>
     (\<exists>r. e = (GW_TAG_OBS, obs_text r True) \<and> completion_state r = AX_COMPLETION_ERROR \<and> failure_type r = AX_FAILURE_TRANSPORT_ERROR \<and>
        input_hash r = axilog_sha256 (sub L) (synth (input_hash_hex i)) \<and> params r = recover_params i)"

text \<open>
  What is on record of a call whose prompt has the hash \<open>h\<close>: an entry whose payload contains
  the digits of the hash, or the entry recovery wrote for it.  While there is neither, the write-ahead
  file names it.
\<close>

definition evidenced :: "('ct, 'cf, 'led) libs \<Rightarrow> (byte list \<times> byte list) list \<Rightarrow> byte list \<Rightarrow> bool" where
  "evidenced L es h \<longleftrightarrow>
     (\<exists>e\<in>set es. sublist (hex_text h) (snd e) \<or> (\<exists>i. input_hash_hex i = hex_text h \<and> unanswered L i e))"

definition intent_names :: "byte list option \<Rightarrow> byte list \<Rightarrow> bool" where
  "intent_names w h \<longleftrightarrow> (\<exists>i. gw_wal_recover True w intent_init = (1, i) \<and> input_hash_hex i = hex_text h)"

lemma evidenced_mono: "evidenced L es h \<Longrightarrow> evidenced L (es @ es2) h"
  by (auto simp: evidenced_def)

lemma no_intent [simp]: "\<not> intent_names None h"
  by (simp add: intent_names_def gw_wal_recover_def)

lemma hash_in_text: "sublist (hex_text (input_hash r)) (obs_text r b)"
  unfolding obs_text_def append_assoc [symmetric] sublist_def by (metis append_assoc)

lemma last_payload_evidences:
  assumes "gwl_last_payload_contains (Some (hex_text h)) l" "g_last_payload l = last_payload [] es"
  shows "evidenced L es h"
proof -
  have "hex_text h \<noteq> []" "sublist (hex_text h) (last_payload [] es)"
    using assms by (auto simp: last_payload_contains_spec sublist_def)
  then have "es \<noteq> []" "sublist (hex_text h) (snd (last es))" by (auto simp: last_payload_def split: if_splits)
  then show ?thesis unfolding evidenced_def using last_in_set by blast
qed

definition recovered ::
    "('ct, 'cf, 'led) libs \<Rightarrow> (byte list \<times> byte list) list \<Rightarrow> int \<Rightarrow> gw_intent_t \<Rightarrow> 'led gw_state \<Rightarrow> int \<Rightarrow> 'led gw_state \<Rightarrow> bool" where
  "recovered L es k i st rc st' \<longleftrightarrow>
     st_cfg st' = st_cfg st \<and> calls_made st' = calls_made st \<and>
     (store_inv (aud L) es st' \<and> (rc = 0 \<longrightarrow> led st' = led st \<and> (k = 0 \<or> gwl_last_payload_contains (Some (input_hash_hex i)) (led st))) \<or>
      (\<exists>e. ledger_inv (aud L) (es @ [e]) (led st') \<and> unanswered L i e \<and> k = 1)) \<and>
     (rc = 0 \<longrightarrow> wal st' = (if k = 0 then wal st else None)) \<and> (k < 0 \<longrightarrow> rc = -1 \<and> core st' = core st) \<and> (k = 0 \<longrightarrow> rc = 0 \<and> core st' = core st) \<and>
     (wal st' = wal st \<or> led st' = led st \<and> gwl_last_payload_contains (Some (input_hash_hex i)) (led st) \<or>
      (\<exists>e. ledger_inv (aud L) (es @ [e]) (led st') \<and> unanswered L i e))"

lemma recover_code:
  assumes "gw_wal_recover b w intent_init = (k, i)"
  shows "k = 0 \<and> (b \<longrightarrow> w = None) \<or> k = -1 \<or> k = 1 \<and> length (input_hash_hex i) = 64"
  using assms by (auto simp: gw_wal_recover_def Let_def split: option.splits prod.splits if_splits)

text \<open>Nothing to recover, nothing readable, or a hash that the last record has.\<close>

lemma recover_skips:
  assumes "store_inv (aud L) es st" "recover_wal L R st = Some (rc, st')" "gw_wal_recover (re_fopen_ok R) (wal st) intent_init = (k, i)"
    and "k \<noteq> 1 \<or> gwl_last_payload_contains (Some (input_hash_hex i)) (led st)"
  shows "recovered L es k i st rc st'"
  using assms recover_code [OF assms(3)]
  by (auto simp: recovered_def recover_wal_def Let_def store_inv_def blocked_def dest: clear_ok split: if_splits prod.splits)

text \<open>An intent that is not evidenced yet.\<close>

lemma recover_commits:
  assumes "digests_32 (sub L)" "fault_keeps_seq (aud L)" "store_inv (aud L) es st" "recover_wal L R st = Some (rc, st')"
    and w: "gw_wal_recover (re_fopen_ok R) (wal st) intent_init = (1, i)" "\<not> gwl_last_payload_contains (Some (input_hash_hex i)) (led st)"
  shows "recovered L es 1 i st rc st'"
proof -
  let ?n = "synth (input_hash_hex i)" and ?ps = "recover_params i"
  obtain x st1 where c: "commit_observation L (re_append R) AX_COMPLETION_ERROR AX_FAILURE_TRANSPORT_ERROR ?n [] ?ps st = Some (x, st1)"
    using assms(4) w by (auto simp: recover_wal_def Let_def split: bind_splits)
  note s = commit_store [OF assms(1-3) c]
  show ?thesis
  proof (cases x)
    case None
    with assms(4) w c s show ?thesis
      by (auto simp: recovered_def recover_wal_def Let_def store_inv_def blocked_def core_def split: if_splits)
  next
    case (Some y)
    let ?r = "commit_rec L AX_COMPLETION_ERROR AX_FAILURE_TRANSPORT_ERROR ?n [] ?ps st"
    have "length (input_hash_hex i) = 64" using recover_code [OF w(1)] by simp
    note f = commit_rec_fields [OF synth_text [OF this], of "[]" L AX_COMPLETION_ERROR AX_FAILURE_TRANSPORT_ERROR ?ps st]
    have "unanswered L i (GW_TAG_OBS, obs_text ?r True)"
      unfolding unanswered_def using f by (intro exI [of _ ?r]) simp
    moreover have "ledger_inv (aud L) (es @ [(GW_TAG_OBS, obs_text ?r True)]) (led st1)" using s(4) Some by simp
    moreover obtain a b seq where y: "y = (a, b, seq)" by (cases y)
    ultimately show ?thesis
      using assms(4) w c s(1) Some
      by (auto simp: recovered_def recover_wal_def Let_def core_def y dest: clear_ok split: prod.splits)
  qed
qed

lemma recover_result:
  assumes "digests_32 (sub L)" "fault_keeps_seq (aud L)" "ledger_inv (aud L) es (led st)" "recover_wal L R st = Some (rc, st')"
    and w: "gw_wal_recover (re_fopen_ok R) (wal st) intent_init = (k, i)"
  shows "recovered L es k i st rc st'"
proof -
  have inv: "store_inv (aud L) es st" using assms(3) by (simp add: store_inv_def)
  show ?thesis
    using recover_skips [OF inv assms(4) w] recover_commits [OF assms(1,2) inv assms(4)] w by (cases "k = 1") auto
qed

text \<open>What is left of it for the start: the entries and at most one more.\<close>

lemma recovered_store:
  assumes "recovered L es k i st rc st'" "ledger_inv (aud L) es (led st)" "gw_wal_recover b (wal st) intent_init = (k, i)"
    and "g_last_payload (led st) = last_payload [] es"
  shows "\<exists>more. store_inv (aud L) (es @ more) st' \<and> (rc = 0 \<longrightarrow> ledger_inv (aud L) (es @ more) (led st')) \<and>
    (\<forall>h. intent_names (wal st) h \<longrightarrow> evidenced L (es @ more) h \<or> intent_names (wal st') h)"
proof (cases "b \<and> (\<exists>e. ledger_inv (aud L) (es @ [e]) (led st') \<and> unanswered L i e)")
  case True
  then obtain e where e: "ledger_inv (aud L) (es @ [e]) (led st')" "unanswered L i e" by blast
  then have "evidenced L (es @ [e]) h" if "intent_names (wal st) h" for h
    using that assms(3) True by (auto simp: intent_names_def evidenced_def)
  with e show ?thesis by (intro exI [of _ "[e]"]) (simp add: store_inv_def)
next
  case False
  have k: "\<not> b \<Longrightarrow> k = 0" using assms(3) by (simp add: gw_wal_recover_def)
  from False have "evidenced L es h \<or> intent_names (wal st') h" if "intent_names (wal st) h" for h
    using that assms(1,3) last_payload_evidences [OF _ assms(4)] k by (cases b) (auto simp: recovered_def intent_names_def core_def)
  with False assms(1,2) k show ?thesis by (intro exI [of _ "[]"]) (auto simp: recovered_def core_def store_inv_def)
qed

section \<open>Start-up\<close>

text \<open>The static data of a fresh process, with the file that is at the ledger's path.\<close>

definition fresh :: "'led gw_ledger \<Rightarrow> bool" where
  "fresh l \<longleftrightarrow> \<not> g_fd l \<and> \<not> g_export_fd l \<and> g_last_payload l = []"

text \<open>
  The reads of the ledger a start must be able to rely on.  \<open>main\<close> lets \<open>gwl_open\<close> cut the file
  only when it finds a readable intent, so only then does a failed read matter: \<open>gwl_open\<close>
  takes it for a torn tail.  Every other system call may fail.
\<close>

definition reads_safe :: "start_env \<Rightarrow> byte list option \<Rightarrow> bool" where
  "reads_safe V w \<longleftrightarrow> (fst (gw_wal_recover (se_probe_ok V) w intent_init) = 1 \<longrightarrow> reads_ok (se_open V))"

lemma truncated_torn:
  assumes "gwl_open A env f torn l = (rc, tr, l')"
  shows "tr \<Longrightarrow> torn"
  using assms by (auto simp: gwl_open_def Let_def split: prod.splits if_splits loop_exit.splits)

lemma start_fault_simps [simp]:
  "fst (start_fault ts k m st) = 1" "core (snd (start_fault ts k m st)) = core st"
  by (simp_all add: start_fault_def)

lemma open_ledger_result:
  assumes "commit_32 (aud L)" "on_disk (aud L) es (g_file (led st))" "fresh (led st)" "reads_safe V (wal st)"
    and "open_ledger L V st = (rc, st')"
  shows "core st' = (st_cfg st, adm st, calls_made st, led st', wal st)"
    and "rc = 0 \<Longrightarrow> \<exists>more. ledger_inv (aud L) (es @ more) (led st') \<and> g_last_payload (led st') = last_payload [] (es @ more)"
    and "rc \<noteq> 0 \<Longrightarrow> \<exists>more. on_disk (aud L) (es @ more) (g_file (led st'))"
proof -
  let ?p = "fst (gw_wal_recover (se_probe_ok V) (wal st) intent_init) = 1"
  obtain rc1 tr l where o: "gwl_open (aud L) (se_open V) (g_file (led st)) ?p (led st) = (rc1, tr, l)" by (metis surj_pair)
  obtain rc2 l2 where x: "gwl_export_enable (se_export V) (Some (export_path (st_cfg st))) l = (rc2, l2)" by fastforce
  have r: "rc = (if rc1 \<noteq> 0 \<or> export_path (st_cfg st) \<noteq> [] \<and> rc2 \<noteq> 0 then 1 else 0)"
    and l': "led st' = (if rc1 \<noteq> 0 \<or> export_path (st_cfg st) = [] then l else l2)"
    and c: "core st' = (st_cfg st, adm st, calls_made st, led st', wal st)"
    using assms(5) o x by (auto simp: open_ledger_def start_fault_def core_def Let_def split: if_splits)
  show "core st' = (st_cfg st, adm st, calls_made st, led st', wal st)" by (rule c)
  have tr: "tr \<longrightarrow> reads_ok (se_open V)" using truncated_torn [OF o] assms(4) by (simp add: reads_safe_def)
  note b = open_begins [OF assms(1) on_disk_begins [OF assms(2)] o tr]
  have ok: "\<exists>more. ledger_inv (aud L) (es @ more) l \<and> g_last_payload l = last_payload [] (es @ more)" if "rc1 = 0"
    using b(1) [OF that] assms(3) by (simp add: fresh_def)
  have keep: "g_last_payload l2 = g_last_payload l"
    using x by (auto simp: gwl_export_enable_def Let_def split: if_splits prod.splits)
  show "\<exists>more. ledger_inv (aud L) (es @ more) (led st') \<and> g_last_payload (led st') = last_payload [] (es @ more)" if "rc = 0"
    using ok r l' x that keep export_maintains(1) by (fastforce split: if_splits)
  show "\<exists>more. on_disk (aud L) (es @ more) (g_file (led st'))" if "rc \<noteq> 0"
  proof (cases "rc1 = 0")
    case True
    with ok r l' x that export_maintains(1) inv_on_disk show ?thesis by (fastforce split: if_splits)
  next
    case False
    from b(2) [OF False refl] show ?thesis
    proof
      assume "g_file l = g_file (led st)"
      with assms(2) l' False show ?thesis by (intro exI [of _ "[]"]) simp
    next
      assume "\<exists>more. begins (aud L) (es @ more) (g_file l) \<and> g_file l = frames (aud L) (es @ more)"
      with l' False begins_whole show ?thesis by fastforce
    qed
  qed
qed

lemma commit_config_result:
  assumes "ledger_inv (aud L) es (led st)" "commit_config L V st = (rc, st')"
  shows "core st' = (st_cfg st, adm st, calls_made st, led st', wal st)"
    and "rc = 0 \<Longrightarrow> ledger_inv (aud L) (es @ [(GW_TAG_STATE, state_payload (hex32 (axilog_sha256 (sub L) (raw (st_cfg st)))))]) (led st')"
    and "rc \<noteq> 0 \<Longrightarrow> on_disk (aud L) es (g_file (led st'))"
proof -
  let ?p = "state_payload (hex32 (axilog_sha256 (sub L) (raw (st_cfg st))))"
  obtain rc1 out l where a: "gwl_append (aud L) (se_commit V) (Some GW_TAG_STATE) (Some ?p) (led st) = ((rc1, out), l)" by (metis surj_pair)
  have c: "core st' = (st_cfg st, adm st, calls_made st, l, wal st)" "rc = (if rc1 = 0 then 0 else 1)"
    using assms(2) a by (auto simp: commit_config_def start_fault_def core_def Let_def split: if_splits)
  then show "core st' = (st_cfg st, adm st, calls_made st, led st', wal st)" by (simp add: core_def)
  have "c_str GW_TAG_STATE = GW_TAG_STATE" by (simp add: GW_TAG_STATE_def)
  then show "rc = 0 \<Longrightarrow> ledger_inv (aud L) (es @ [(GW_TAG_STATE, ?p)]) (led st')"
    using append_maintains [OF assms(1), of "se_commit V" GW_TAG_STATE ?p] a c by (simp add: core_def split: if_splits)
  show "rc \<noteq> 0 \<Longrightarrow> on_disk (aud L) es (g_file (led st'))"
    using append_on_disk [OF assms(1) a] c by (simp add: core_def)
qed

lemma listen_result: "listen_socket L V st = (rc, st') \<Longrightarrow> core st' = core st \<and> (rc = 0 \<or> rc = 1)"
  by (auto simp: listen_socket_def start_fault_def Let_def split: if_splits)

lemma load_config:
  assumes "gw_config_load fl = (0, cfg)"
  shows "config_inv cfg" "ident_ok (cfg_model_id cfg)" "fl = Some (raw cfg)"
proof -
  obtain f where f: "fl = Some f" using assms by (cases fl) (simp_all add: gw_config_load_def)
  note l = load_accepted [OF assms [unfolded f]]
  show inv: "config_inv cfg" using config_loop_inv [of _ "config_defaults\<lparr>raw := f\<rparr>" cfg] l defaults_inv [of f] by blast
  show "ident_ok (cfg_model_id cfg)" using inv l by (auto simp: config_inv_def)
  show "fl = Some (raw cfg)" using l f by simp
qed

text \<open>A running service.\<close>

definition svc_up :: "('ct, 'cf, 'led) libs \<Rightarrow> (byte list \<times> byte list) list \<Rightarrow> 'led gw_state \<Rightarrow> bool" where
  "svc_up L es st \<longleftrightarrow> store_inv (aud L) es st \<and> config_inv (st_cfg st) \<and> ident_ok (cfg_model_id (st_cfg st)) \<and>
     0 \<le> calls_made st \<and> calls_made st \<le> call_budget (st_cfg st)"

definition libs_ok :: "('ct, 'cf, 'led) libs \<Rightarrow> bool" where
  "libs_ok L \<longleftrightarrow> digests_32 (sub L) \<and> commit_32 (aud L) \<and> genesis_ok (aud L) \<and> fault_keeps_seq (aud L)"

definition config_entry :: "('ct, 'cf, 'led) libs \<Rightarrow> byte list \<Rightarrow> byte list \<times> byte list" where
  "config_entry L text = (GW_TAG_STATE, state_payload (hex32 (axilog_sha256 (sub L) text)))"

lemma checks_result:
  shows "start_checks V l w = Inl st \<Longrightarrow> led st = l \<and> wal st = w"
    and "start_checks V l w = Inr st \<Longrightarrow> led st = l \<and> wal st = w \<and> calls_made st = 0 \<and> adm st = ax_admission_ctx_init \<and>
      se_config V = Some (raw (st_cfg st)) \<and> config_inv (st_cfg st) \<and> ident_ok (cfg_model_id (st_cfg st)) \<and>
      (\<exists>key. se_key V = Some key \<and> c_str key \<noteq> [] \<and> \<not> has_control (c_str key))"
proof -
  obtain rc cfg where cfg: "gw_config_load (se_config V) = (rc, cfg)" by fastforce
  show "start_checks V l w = Inl st \<Longrightarrow> led st = l \<and> wal st = w"
    using cfg by (auto simp: start_checks_def Let_def split: if_splits option.splits prod.splits)
  assume r: "start_checks V l w = Inr st"
  then have "rc = 0" "st_cfg st = cfg" "led st = l \<and> wal st = w \<and> calls_made st = 0 \<and> adm st = ax_admission_ctx_init"
    "\<exists>key. se_key V = Some key \<and> c_str key \<noteq> [] \<and> \<not> has_control (c_str key)"
    using cfg by (auto simp: start_checks_def api_key_check_def Let_def split: if_splits option.splits prod.splits)
  with load_config [of "se_config V" cfg] cfg
  show "led st = l \<and> wal st = w \<and> calls_made st = 0 \<and> adm st = ax_admission_ctx_init \<and>
      se_config V = Some (raw (st_cfg st)) \<and> config_inv (st_cfg st) \<and> ident_ok (cfg_model_id (st_cfg st)) \<and>
      (\<exists>key. se_key V = Some key \<and> c_str key \<noteq> [] \<and> \<not> has_control (c_str key))" by auto
qed

lemma config_listen:
  assumes inv: "ledger_inv (aud L) es (led st)" and c: "commit_config L V st = (rc1, st1)"
    and s: "(rc, st') = (if rc1 \<noteq> 0 then (1, st1) else listen_socket L V st1)"
  shows "wal st' = wal st" "st_cfg st' = st_cfg st" "calls_made st' = calls_made st"
    and "rc = 0 \<Longrightarrow> ledger_inv (aud L) (es @ [config_entry L (raw (st_cfg st))]) (led st')"
    and "rc \<noteq> 0 \<Longrightarrow> \<exists>more. on_disk (aud L) (es @ more) (g_file (led st'))"
proof -
  note c1 = commit_config_result [OF inv c]
  have k: "core st' = core st1" "rc1 \<noteq> 0 \<Longrightarrow> rc = 1" using s listen_result [of L V st1 rc st'] by (auto split: if_splits)
  with c1(1) show "wal st' = wal st" "st_cfg st' = st_cfg st" "calls_made st' = calls_made st" by (simp_all add: core_def)
  have l: "led st' = led st1" using k(1) by (simp add: core_def)
  show "rc = 0 \<Longrightarrow> ledger_inv (aud L) (es @ [config_entry L (raw (st_cfg st))]) (led st')"
    using c1(2) k(2) l by (cases "rc1 = 0") (simp_all add: config_entry_def)
  show "\<exists>more. on_disk (aud L) (es @ more) (g_file (led st'))"
    using inv_on_disk [OF c1(2)] c1(3) l by (cases "rc1 = 0") (auto intro: exI [of _ "[]"])
qed

text \<open>
  What a start leaves: the entries found and more; an open intent is on record or still open; after a
  success the last entry commits to the configuration.
\<close>

definition started ::
    "('ct, 'cf, 'led) libs \<Rightarrow> (byte list \<times> byte list) list \<Rightarrow> bool \<Rightarrow> byte list option \<Rightarrow> gw_config_t \<Rightarrow> int \<Rightarrow> 'led gw_state \<Rightarrow> bool" where
  "started L es b w cfg rc st' \<longleftrightarrow>
     (\<exists>more. (\<forall>h. intent_names w h \<longrightarrow> evidenced L (es @ more) h \<or> intent_names (wal st') h) \<and>
        (if rc = 0 then
           (\<exists>pre. more = pre @ [config_entry L (raw cfg)]) \<and> ledger_inv (aud L) (es @ more) (led st') \<and>
           st_cfg st' = cfg \<and> calls_made st' = 0 \<and> (b \<longrightarrow> wal st' = None)
         else on_disk (aud L) (es @ more) (g_file (led st'))))"

lemma opened_recovered:
  assumes L: "libs_ok L" and d: "on_disk (aud L) es (g_file (led st))" "fresh (led st)" "reads_safe V (wal st)"
    and o: "open_ledger L V st = (0, st1)" and r: "recover_wal L R st1 = Some (rc, st')"
  shows "\<exists>more. store_inv (aud L) (es @ more) st' \<and> (rc = 0 \<longrightarrow> ledger_inv (aud L) (es @ more) (led st') \<and> (re_fopen_ok R \<longrightarrow> wal st' = None)) \<and>
    st_cfg st' = st_cfg st \<and> calls_made st' = calls_made st \<and>
    (\<forall>h. intent_names (wal st) h \<longrightarrow> evidenced L (es @ more) h \<or> intent_names (wal st') h)"
proof -
  have L': "digests_32 (sub L)" "commit_32 (aud L)" "genesis_ok (aud L)" "fault_keeps_seq (aud L)" using L by (simp_all add: libs_ok_def)
  note o1 = open_ledger_result [OF L'(2) d o]
  have w: "wal st1 = wal st" "st_cfg st1 = st_cfg st" "calls_made st1 = calls_made st" using o1(1) by (simp_all add: core_def)
  obtain more where inv: "ledger_inv (aud L) (es @ more) (led st1)" "g_last_payload (led st1) = last_payload [] (es @ more)"
    using o1(2) by blast
  obtain k i where k: "gw_wal_recover (re_fopen_ok R) (wal st1) intent_init = (k, i)" by fastforce
  note r1 = recover_result [OF L'(1,4) inv(1) r k]
  from recovered_store [OF r1 inv(1) k inv(2)] obtain more2 where
    "store_inv (aud L) (es @ more2) st'" "rc = 0 \<Longrightarrow> ledger_inv (aud L) (es @ more2) (led st')"
    "\<forall>h. intent_names (wal st) h \<longrightarrow> evidenced L (es @ more2) h \<or> intent_names (wal st') h"
    unfolding w by (metis append_assoc)
  moreover have "st_cfg st' = st_cfg st" "calls_made st' = calls_made st" "rc = 0 \<longrightarrow> re_fopen_ok R \<longrightarrow> wal st' = None"
    using r1 w recover_code [OF k] by (auto simp: recovered_def)
  ultimately show ?thesis by blast
qed

lemma service_started:
  assumes L: "libs_ok L" and d: "on_disk (aud L) es (g_file (led st))" "fresh (led st)" "reads_safe V (wal st)" and z: "calls_made st = 0"
    and s: "start_service L V st = Some (rc, st')"
  shows "started L es (re_fopen_ok (se_recover V)) (wal st) (st_cfg st) rc st'"
proof -
  obtain rc1 st1 where o: "open_ledger L V st = (rc1, st1)" by fastforce
  show ?thesis
  proof (cases "rc1 = 0")
    case False
    have "commit_32 (aud L)" using L by (simp add: libs_ok_def)
    from open_ledger_result [OF this d o] s o False z show ?thesis by (auto simp: start_service_def started_def core_def)
  next
    case True
    with s o obtain rc2 st2 where r: "recover_wal L (se_recover V) st1 = Some (rc2, st2)"
      by (auto simp: start_service_def split: bind_splits)
    from opened_recovered [OF L d o [unfolded True] r] z obtain more where
      inv: "store_inv (aud L) (es @ more) st2" "rc2 = 0 \<Longrightarrow> ledger_inv (aud L) (es @ more) (led st2)"
      and cfg: "st_cfg st2 = st_cfg st" "calls_made st2 = 0" "rc2 = 0 \<Longrightarrow> re_fopen_ok (se_recover V) \<longrightarrow> wal st2 = None"
      and ev: "\<forall>h. intent_names (wal st) h \<longrightarrow> evidenced L (es @ more) h \<or> intent_names (wal st2) h" by auto
    show ?thesis
    proof (cases "rc2 = 0")
      case False
      with s o True r have "rc = 1" "st' = st2" by (auto simp: start_service_def)
      with store_on_disk [OF inv(1)] ev show ?thesis by (auto simp: started_def)
    next
      case rc2: True
      obtain rc3 st3 where c: "commit_config L V st2 = (rc3, st3)" by fastforce
      have "(rc, st') = (if rc3 \<noteq> 0 then (1, st3) else listen_socket L V st3)"
        using s o True r rc2 c by (simp add: start_service_def)
      note l = config_listen [OF inv(2) [OF rc2] c this]
      obtain more3 where "if rc = 0 then more3 = [config_entry L (raw (st_cfg st))] \<and> ledger_inv (aud L) ((es @ more) @ more3) (led st')
        else on_disk (aud L) ((es @ more) @ more3) (g_file (led st'))"
        using l(4,5) cfg(1) by (cases "rc = 0") auto
      moreover have "evidenced L ((es @ more) @ more3) h \<or> intent_names (wal st2) h" if "intent_names (wal st) h" for h
        using evidenced_mono [of L "es @ more" h more3] ev that by auto
      ultimately show ?thesis
        using l(1-3) cfg rc2 unfolding started_def by (intro exI [of _ "more @ more3"]) (auto split: if_splits)
    qed
  qed
qed

lemma start_result:
  assumes L: "libs_ok L" and "on_disk (aud L) es (g_file l)" "fresh l" "reads_safe V w" and s: "gw_start L V l w = Some (rc, st')"
  shows "\<exists>cfg. started L es (re_fopen_ok (se_recover V)) w cfg rc st' \<and> (rc = 0 \<longrightarrow> se_config V = Some (raw cfg) \<and> config_inv cfg \<and> ident_ok (cfg_model_id cfg) \<and>
      (\<exists>key. se_key V = Some key \<and> c_str key \<noteq> [] \<and> \<not> has_control (c_str key)))"
proof (cases "start_checks V l w")
  case (Inl st)
  with checks_result(1) [OF Inl] s assms(2) show ?thesis
    by (auto simp: gw_start_def started_def intro!: exI [of _ "[]"])
next
  case (Inr st)
  note c = checks_result(2) [OF Inr]
  have "start_service L V st = Some (rc, st')" using s Inr by (simp add: gw_start_def)
  from service_started [OF L _ _ _ _ this, of es] c assms(2-4) show ?thesis by (intro exI [of _ "st_cfg st"]) simp
qed

lemma started_up:
  assumes "started L es b w cfg 0 st'" "config_inv cfg" "ident_ok (cfg_model_id cfg)"
  shows "\<exists>pre. svc_up L (es @ pre @ [config_entry L (raw cfg)]) st' \<and> ledger_inv (aud L) (es @ pre @ [config_entry L (raw cfg)]) (led st') \<and>
    (\<forall>h. intent_names w h \<longrightarrow> evidenced L (es @ pre @ [config_entry L (raw cfg)]) h \<or> intent_names (wal st') h)"
  using assms by (auto simp: started_def svc_up_def store_inv_def config_inv_def)

section \<open>Serving\<close>

text \<open>The hash of the prompt of a request that spends a call.\<close>

definition paid :: "('ct, 'cf, 'led) libs \<Rightarrow> req_env \<Rightarrow> 'led gw_state \<Rightarrow> 'led gw_state \<Rightarrow> byte list list" where
  "paid L E st st' =
     (if calls_made st' = calls_made st then []
      else case ingest (st_cfg st) (rq_bytes E) of
        Inl _ \<Rightarrow> []
      | Inr (_, prompt) \<Rightarrow> [axilog_sha256 (sub L) (lf_norm prompt)])"

lemma record_evidences: "records L st norm ps e r \<Longrightarrow> e \<in> set es \<Longrightarrow> evidenced L es (axilog_sha256 (sub L) norm)"
  using hash_in_text [of r True] by (auto simp: records_def evidenced_def intro: bexI [of _ e])

lemma handle_up:
  assumes L: "libs_ok L" and up: "svc_up L es st" and h: "handle_request L E st = Some (st', resp)"
  shows "\<exists>more. svc_up L (es @ more) st' \<and> int (length more) \<le> calls_made st' - calls_made st \<and>
    st_cfg st' = st_cfg st \<and> (is_ok resp \<longrightarrow> (\<exists>e. more = [e] \<and> ledger_inv (aud L) es (led st) \<and> ledger_inv (aud L) (es @ [e]) (led st'))) \<and>
    (\<forall>h. h \<in> set (paid L E st st') \<or> intent_names (wal st) h \<longrightarrow> evidenced L (es @ more) h \<or> intent_names (wal st') h)"
proof -
  have L': "digests_32 (sub L)" "fault_keeps_seq (aud L)" using L by (simp_all add: libs_ok_def)
  have u: "config_inv (st_cfg st)" "ident_ok (cfg_model_id (st_cfg st))" "store_inv (aud L) es st" using up by (simp_all add: svc_up_def)
  from handle_cases [OF L' u h] consider
    (same) "(refused st st' \<or> request_torn L E st st') \<and> \<not> is_ok resp" | (called) "request_called L es E st st' resp" by blast
  then show ?thesis
  proof cases
    case same
    then have "st_cfg st' = st_cfg st" "calls_made st' = calls_made st" "led st' = led st" "adm st' = adm st" "wal st = None \<or> wal st' = wal st"
      by (auto simp: refused_def request_torn_def intent_torn_def core_def)
    with up same show ?thesis by (intro exI [of _ "[]"]) (auto simp: svc_up_def store_inv_def blocked_def paid_def)
  next
    case called
    then have c: "st_cfg st' = st_cfg st" "calls_made st' = calls_made st + 1" "calls_made st < call_budget (st_cfg st)" "wal st = None"
      by (auto simp: request_called_def)
    have inv: "ledger_inv (aud L) es (led st)" if "is_ok resp"
      using u(3) handle_blocked [OF L'(1) _ u(1) h] that by (auto simp: store_inv_def)
    from called_records [OF called u(1) L'(1) u(2), of intent_init] obtain p prompt where
      i: "ingest (st_cfg st) (rq_bytes E) = Inr (p, prompt)" and
      r: "(\<exists>e r. ledger_inv (aud L) (es @ [e]) (led st') \<and> records L st (lf_norm prompt) (request_params p) e r) \<or>
        store_inv (aud L) es st' \<and> \<not> is_ok resp \<and> intent_names (wal st') (axilog_sha256 (sub L) (lf_norm prompt))"
      unfolding intent_names_def by blast
    have p: "paid L E st st' = [axilog_sha256 (sub L) (lf_norm prompt)]" using i c(2) by (simp add: paid_def)
    from r show ?thesis
    proof (elim disjE exE conjE)
      fix e r
      assume "ledger_inv (aud L) (es @ [e]) (led st')" "records L st (lf_norm prompt) (request_params p) e r"
      with c up inv p record_evidences [of L st _ _ e r "es @ [e]"] show ?thesis
        by (intro exI [of _ "[e]"]) (auto simp: svc_up_def store_inv_def)
    qed (use c up p in \<open>auto simp: svc_up_def intro!: exI [of _ "[]"]\<close>)
  qed
qed

lemma serve_up:
  assumes "libs_ok L" "svc_up L es st" "serve L stop evs st = Some (st', resps)"
  shows "\<exists>more. svc_up L (es @ more) st' \<and> length (filter is_ok resps) \<le> length more \<and>
    int (length more) \<le> calls_made st' - calls_made st \<and> st_cfg st' = st_cfg st"
  using assms(2,3)
proof (induction evs arbitrary: stop es st resps)
  case Nil
  then show ?case by (intro exI [of _ "[]"]) simp
next
  case (Cons ev evs)
  show ?case
  proof (cases "\<exists>E s. ev = Client E s \<and> \<not> stop")
    case True
    then obtain E s st1 r rs where h: "handle_request L E st = Some (st1, r)" and s: "serve L s evs st1 = Some (st', rs)" and r: "resps = r # rs"
      using Cons.prems(2) by (auto split: bind_splits)
    obtain m where m: "svc_up L (es @ m) st1" "int (length m) \<le> calls_made st1 - calls_made st" "st_cfg st1 = st_cfg st" "is_ok r \<longrightarrow> m \<noteq> []"
      using handle_up [OF assms(1) Cons.prems(1) h] by auto
    obtain n where n: "svc_up L ((es @ m) @ n) st'" "length (filter is_ok rs) \<le> length n" "int (length n) \<le> calls_made st' - calls_made st1"
      "st_cfg st' = st_cfg st1" using Cons.IH [OF m(1) s] by auto
    have "(if is_ok r then 1 else 0) \<le> length m" using m(4) by (cases m) auto
    with m n r show ?thesis by (intro exI [of _ "m @ n"]) (auto split: if_splits)
  next
    case False
    show ?thesis
    proof (cases "stop \<or> (\<exists>ts. ev = Accept_error ts)")
      case True
      with Cons.prems show ?thesis
        by (intro exI [of _ "[]"]) (auto simp: svc_up_def store_inv_def blocked_def split: if_splits)
    next
      case no: False
      with False obtain s where "ev = Interrupted s" by (cases ev) auto
      with no Cons.prems Cons.IH [OF Cons.prems(1)] show ?thesis by simp
    qed
  qed
qed

section \<open>A concrete start\<close>

definition sample_text :: "byte list" where
  "sample_text = unlines (config_lines sample_config)"

definition sample_dir :: dir_env where
  "sample_dir = \<lparr>de_open_ok = True, de_fsync_ok = True\<rparr>"

definition sample_recover :: recover_env where
  "sample_recover = \<lparr>re_ts = (\<lambda>_. []), re_fopen_ok = True, re_append = sample_append, re_unlink_ok = True, re_clear = sample_dir\<rparr>"

definition sample_start :: start_env where
  "sample_start = \<lparr>se_config = Some sample_text, se_url = (True, True, True, Some (str ''https'')), se_key = Some (str ''sk-7''),
     se_log = Some [], se_alloc_ok = True, se_probe_ok = True, se_open = sample_calm,
     se_export = \<lparr>ee_open_ok = True, ee_seek_ok = True, ee_reads = [], ee_writes = [], ee_fsync_ok = True\<rparr>, se_recover = sample_recover,
     se_commit = sample_append, se_curl_ok = True, se_socket_ok = True, se_bind_ok = True,
     se_notify = \<lparr>ne_path = None, ne_socket_ok = True, ne_sent = 7\<rparr>\<rparr>"

lemma sample_fresh: "fresh sample_ledger" "g_file sample_ledger = []"
  by (simp_all add: fresh_def sample_ledger_def)

lemma sample_reopen: "gwl_open sample_audit sample_calm [] False sample_ledger = (0, False, sample_ledger\<lparr>g_fd := True\<rparr>)"
  using sample_open by (auto simp: gwl_open_def sample_calm_def Let_def split: prod.splits if_splits loop_exit.splits)

lemma length_state_payload: "length (state_payload h) = 79 + length h"
  by (simp add: state_payload_def)

lemma commit_config_calm:
  assumes "libs_calm L" "append_calm (se_commit V)" "g_fd (led st)"
  shows "fst (commit_config L V st) = 0"
proof -
  let ?p = "state_payload (hex32 (axilog_sha256 (sub L) (raw (st_cfg st))))"
  have "length (axilog_sha256 (sub L) (raw (st_cfg st))) = 32"
    using assms(1) by (simp add: libs_calm_def digests_32_def limit_defs)
  then have "length ?p = 143" by (simp add: length_state_payload length_hex32)
  then have "entry_ok (c_str GW_TAG_STATE, ?p)"
    by (auto simp: entry_ok_def GW_TAG_STATE_def gwl_limits) (simp_all add: str_def)
  then obtain out l where "gwl_append (aud L) (se_commit V) (Some GW_TAG_STATE) (Some ?p) (led st) = ((0, out), l)"
    using append_succeeds [of "se_commit V" "led st" GW_TAG_STATE ?p "aud L"] assms by (auto simp: libs_calm_def)
  then show ?thesis by (simp add: commit_config_def Let_def)
qed

lemma sample_started:
  "\<exists>st. gw_start sample_libs sample_start sample_ledger None = Some (0, st) \<and> adm st = ax_admission_ctx_init \<and>
     st_cfg st = sample_config\<lparr>raw := sample_text\<rparr>"
proof -
  have key: "\<not> has_control (c_str (str ''sk-7''))" "c_str (str ''sk-7'') \<noteq> []" by code_simp+
  have load: "gw_config_load (Some sample_text) = (0, sample_config\<lparr>raw := sample_text\<rparr>)"
    unfolding sample_text_def by (rule load_printed [OF sample_config_printable sample_config_short])
  obtain lg where lg: "gw_log_open (Some []) (Some (str ''sk-7'')) \<lparr>g_log = None, g_secret = []\<rparr> = (0, lg)"
    by (simp add: gw_log_open_def G_SECRET_SIZE_def Let_def)
  let ?st = "\<lparr>st_cfg = sample_config\<lparr>raw := sample_text\<rparr>, adm = ax_admission_ctx_init, calls_made = 0, export_drop_logged = False,
    led = sample_ledger, wal = None, logst = lg, fixture = None\<rparr>"
  have c: "start_checks sample_start sample_ledger None = Inr ?st"
    using load key lg by (simp add: start_checks_def sample_start_def gwc_url_check_def api_key_check_def Let_def del: c_str_id)
  have o: "open_ledger sample_libs sample_start ?st = (0, ?st\<lparr>led := sample_ledger\<lparr>g_fd := True\<rparr>\<rparr>)"
    using sample_reopen
    by (simp add: open_ledger_def sample_start_def sample_libs_def sample_fresh gw_wal_recover_def Let_def sample_config_def config_defaults_def)
  let ?st1 = "?st\<lparr>led := sample_ledger\<lparr>g_fd := True\<rparr>\<rparr>"
  have r: "recover_wal sample_libs (se_recover sample_start) ?st1 = Some (0, ?st1)"
    by (simp add: recover_wal_def gw_wal_recover_def)
  obtain st2 where cc: "commit_config sample_libs sample_start ?st1 = (0, st2)"
    using commit_config_calm [OF sample_libs_ok(1), of sample_start ?st1]
    by (cases "commit_config sample_libs sample_start ?st1") (simp add: append_calm_def sample_start_def sample_append_def)
  have inv: "ledger_inv (aud sample_libs) [] (led ?st1)" using sample_inv by (simp add: sample_libs_def)
  have core2: "core st2 = (st_cfg ?st, adm ?st, 0, led st2, None)" using commit_config_result(1) [OF inv cc] by simp
  obtain st3 where ls: "listen_socket sample_libs sample_start st2 = (0, st3)"
    using core2 by (simp add: listen_socket_def sample_start_def gw_notify_ready_def core_def SUN_PATH_SIZE_def sample_config_def)
  have "core st3 = core st2" using listen_result [OF ls] by simp
  moreover have "gw_start sample_libs sample_start sample_ledger None = Some (0, st3)"
    using c o r cc ls by (simp add: gw_start_def start_service_def)
  ultimately show ?thesis using core2 by (auto simp: core_def)
qed

section \<open>Properties\<close>

text \<open>
  C10: Recovery closes the intent honestly.  If it can read an intent (\<open>k = 1\<close>) and returns 0, the
  write-ahead file is gone, and either the last payload of the ledger contains the intent's
  hash and the ledger is untouched, or the ledger has one more entry: a record in state \<open>ERROR\<close> with
  failure \<open>TRANSPORT_ERROR\<close>, whose input is the text naming the intent's hash, with the
  intent's parameters.  Whatever it returns, the write-ahead file changes only in one of these two cases.
  An intent that cannot be parsed (\<open>k < 0\<close>) makes it return -1 and change nothing.  If it finds none (\<open>k = 0\<close>: the
  file is missing or \<open>fopen()\<close> fails) it returns 0 and changes nothing, and then
  no intent is left unless \<open>fopen()\<close> failed.
\<close>

theorem recovery_closes_intent:
  assumes "digests_32 (sub L)" "fault_keeps_seq (aud L)" "ledger_inv (aud L) es (led st)"
    and "recover_wal L R st = Some (rc, st')" "gw_wal_recover (re_fopen_ok R) (wal st) intent_init = (k, i)"
  shows "(k = 1 \<longrightarrow> rc = 0 \<longrightarrow> wal st' = None \<and>
      (led st' = led st \<and> gwl_last_payload_contains (Some (input_hash_hex i)) (led st) \<or>
       (\<exists>e. ledger_inv (aud L) (es @ [e]) (led st') \<and> unanswered L i e))) \<and>
    (wal st' \<noteq> wal st \<longrightarrow> k = 1 \<and>
      (led st' = led st \<and> gwl_last_payload_contains (Some (input_hash_hex i)) (led st) \<or>
       (\<exists>e. ledger_inv (aud L) (es @ [e]) (led st') \<and> unanswered L i e))) \<and>
    (k < 0 \<longrightarrow> rc = -1 \<and> core st' = core st) \<and>
    (k = 0 \<longrightarrow> rc = 0 \<and> core st' = core st \<and> (re_fopen_ok R \<longrightarrow> wal st' = None)) \<and>
    (k = 0 \<or> k = 1 \<or> k = -1)"
  using recover_result [OF assms] recover_code [OF assms(5)] by (auto simp: recovered_def core_def)

text \<open>An intent that a crash left open, with nothing on record.\<close>

definition sample_intent :: gw_intent_t where
  "sample_intent = intent_of sample_libs sample_config (str ''hi'') (request_params sample_req)"

definition sample_open :: "nat gw_state" where
  "sample_open = sample_state\<lparr>wal := Some (wal_text sample_intent)\<rparr>"

lemma sample_intent_read: "gw_wal_recover b (wal sample_open) intent_init = (if b then (1, sample_intent) else (0, intent_init))"
proof -
  have "ident_ok (cfg_model_id sample_config)" using sample_state_ok(2,9) by simp
  from recover_whole [OF intent_of_ok(1) [OF sample_libs_ok(4) this], of _ _ intent_init] show ?thesis
    by (cases b) (simp_all add: sample_open_def sample_intent_def gw_wal_recover_def)
qed

lemma sample_recovers: "\<exists>st'. recover_wal sample_libs sample_recover sample_open = Some (0, st')"
proof -
  let ?n = "synth (input_hash_hex sample_intent)" and ?ps = "recover_params sample_intent"
  have inv: "ledger_inv (aud sample_libs) [] (led sample_open)" using sample_state_ok(3) by (simp add: sample_open_def)
  have "utf8_text []" by (simp add: utf8_text_def exI [of _ "[]"])
  then have "commit_code sample_libs AX_COMPLETION_ERROR AX_FAILURE_TRANSPORT_ERROR ?n [] ?ps sample_open = AX_OK"
    using sample_libs_ok(1) sample_state_ok
    by (intro commit_accepts) (auto simp: libs_calm_def state_pair_is_permitted_def enum_defs sample_open_def ready_def)
  moreover have "append_calm sample_append" by (simp add: append_calm_def sample_append_def)
  ultimately obtain x st1 where c: "commit_observation sample_libs sample_append AX_COMPLETION_ERROR AX_FAILURE_TRANSPORT_ERROR
      ?n [] ?ps sample_open = Some (Some x, st1)"
    using commit_succeeds [OF sample_libs_ok(1) _ inv] by blast
  have store: "store_inv (aud sample_libs) [] sample_open" using inv by (simp add: store_inv_def)
  have "st_cfg st1 = sample_config" "wal st1 \<noteq> None"
    using commit_store(1) [OF sample_libs_ok(4,3) store c] sample_state_ok(9) by (simp_all add: core_def sample_open_def)
  moreover have "\<not> gwl_last_payload_contains (Some (input_hash_hex sample_intent)) (led sample_open)"
    using sample_fresh(1) recover_code [OF sample_intent_read [of True, simplified]]
    by (auto simp: last_payload_contains_spec fresh_def sample_open_def sample_state_def)
  ultimately show ?thesis
    using c sample_intent_read [of True]
    by (cases x) (auto simp: recover_wal_def sample_recover_def sample_dir_def Let_def gw_wal_clear_def fsync_parent_dir_def sample_config_def
        split: prod.split)
qed

theorem recovery_closes_intent_witness:
  "\<exists>e st'. recover_wal sample_libs sample_recover sample_open = Some (0, st') \<and> wal st' = None \<and>
     ledger_inv (aud sample_libs) ([] @ [e]) (led st') \<and> unanswered sample_libs sample_intent e"
proof -
  obtain st' where r: "recover_wal sample_libs sample_recover sample_open = Some (0, st')" using sample_recovers by blast
  have inv: "ledger_inv (aud sample_libs) [] (led sample_open)" using sample_state_ok(3) by (simp add: sample_open_def)
  have k: "gw_wal_recover (re_fopen_ok sample_recover) (wal sample_open) intent_init = (1, sample_intent)"
    using sample_intent_read [of True] by (simp add: sample_recover_def)
  have "\<not> gwl_last_payload_contains (Some (input_hash_hex sample_intent)) (led sample_open)"
    using sample_fresh(1) recover_code [OF k] by (auto simp: last_payload_contains_spec fresh_def sample_open_def sample_state_def)
  with recovery_closes_intent [OF sample_libs_ok(4,3) inv r k] r show ?thesis by auto
qed

text \<open>
  C15: A start binds its configuration: if \<open>main\<close> reaches the accept loop, on whatever entries and
  torn frame the disk held, then the last entry of the ledger is the commitment to the configuration file
  that was read, no call has been made and the key has no control character.  No
  entry is lost, provided that no read of the ledger failed in a start that found a readable intent (\<open>reads_safe\<close>;
  such a failed read makes \<open>gwl_open\<close> cut the file); any other system call may fail.  No intent is
  left, provided that \<open>fopen()\<close> opens the file of the intent when recovery reads it.
\<close>

theorem start_commits_configuration:
  assumes "libs_ok L" "on_disk (aud L) es (g_file l)" "fresh l" "reads_safe V w" "gw_start L V l w = Some (0, st')"
  shows "\<exists>more cfg key. se_config V = Some cfg \<and> se_key V = Some key \<and> \<not> has_control (c_str key) \<and>
    ledger_inv (aud L) (es @ more @ [(GW_TAG_STATE, state_payload (hex32 (axilog_sha256 (sub L) cfg)))]) (led st') \<and>
    config_inv (st_cfg st') \<and> calls_made st' = 0 \<and> (re_fopen_ok (se_recover V) \<longrightarrow> wal st' = None)"
proof -
  obtain c where c: "started L es (re_fopen_ok (se_recover V)) w c 0 st'" "se_config V = Some (raw c)" "config_inv c" "ident_ok (cfg_model_id c)"
    "\<exists>key. se_key V = Some key \<and> c_str key \<noteq> [] \<and> \<not> has_control (c_str key)"
    using start_result [OF assms] by auto
  from started_up [OF c(1,3,4)] c show ?thesis by (auto simp: started_def config_entry_def svc_up_def)
qed

theorem start_commits_configuration_witness:
  "\<exists>st more. ledger_inv (aud sample_libs)
     ([] @ more @ [(GW_TAG_STATE, state_payload (hex32 (axilog_sha256 (sub sample_libs) sample_text)))]) (led (st :: nat gw_state))"
proof -
  obtain st where s: "gw_start sample_libs sample_start sample_ledger None = Some (0, st)" using sample_started by blast
  have "libs_ok sample_libs" using sample_libs_ok sample_audit_ok by (simp add: libs_ok_def sample_libs_def)
  moreover have "reads_safe sample_start None" by (simp add: reads_safe_def gw_wal_recover_def)
  moreover have "on_disk (aud sample_libs) [] (g_file sample_ledger)" by (simp add: sample_fresh on_disk_empty)
  ultimately obtain more cfg where "se_config sample_start = Some cfg"
    "ledger_inv (aud sample_libs) ([] @ more @ [(GW_TAG_STATE, state_payload (hex32 (axilog_sha256 (sub sample_libs) cfg)))]) (led st)"
    using start_commits_configuration [of sample_libs "[]" sample_ledger sample_start None st] sample_fresh(1) s by blast
  then show ?thesis by (auto simp: sample_start_def)
qed

text \<open>
  C16: The budget bounds a run: however many clients connect, the calls made stay within the
  configured budget, no more entries are written than calls made, and no more answers say \<open>ok\<close> than
  entries are written.
\<close>

theorem budget_bounds_run:
  assumes "libs_ok L" "svc_up L es st" "serve L stop evs st = Some (st', resps)"
  shows "\<exists>more. store_inv (aud L) (es @ more) st' \<and> length (filter (prefix (str ''status: ok'')) resps) \<le> length more \<and>
    int (length more) \<le> calls_made st' - calls_made st \<and> calls_made st' \<le> call_budget (st_cfg st)"
proof -
  have "is_ok = prefix (str ''status: ok'')" by (simp add: fun_eq_iff is_ok_def)
  with serve_up [OF assms] show ?thesis by (auto simp: svc_up_def)
qed

theorem budget_bounds_run_witness:
  "\<exists>st' resps. serve sample_libs False [Client (sample_env (curl_with True 200) sample_append) True] sample_state = Some (st', resps) \<and>
     calls_made st' \<le> 2"
proof -
  obtain st' resp e where h: "handle_request sample_libs (sample_env (curl_with True 200) sample_append) sample_state = Some (st', resp)"
    using sample_served by blast
  have s: "serve sample_libs False [Client (sample_env (curl_with True 200) sample_append) True] sample_state = Some (st', [resp])"
    using h by simp
  have "svc_up sample_libs [] sample_state" using sample_state_ok by (simp add: svc_up_def)
  moreover have "libs_ok sample_libs" using sample_libs_ok sample_audit_ok by (simp add: libs_ok_def sample_libs_def)
  ultimately show ?thesis using budget_bounds_run [OF _ _ s, of "[]"] s by (auto simp: sample_state_ok(8))
qed

text \<open>
  C39: The test for an intent that is already evidenced looks at the hash of the input alone: when the
  last record of the ledger is about the same prompt, recovery takes a call whose answer was lost
  in the crash for that record, clears the intent and writes nothing, so the second call leaves
  no trace.
\<close>

theorem repeated_prompt_unrecorded:
  assumes "digests_32 (sub L)" "ident_ok (cfg_model_id (st_cfg st))"
    and "g_last_payload (led st) = obs_text r True" "input_hash r = axilog_sha256 (sub L) norm"
    and "wal st = Some (wal_text (intent_of L (st_cfg st) norm ps))"
    and "re_fopen_ok R" "re_unlink_ok R" "fsync_parent_dir (re_clear R) (wal_path (st_cfg st)) = 0"
  shows "\<exists>st'. recover_wal L R st = Some (0, st') \<and> led st' = led st \<and> adm st' = adm st \<and> wal st' = None"
proof -
  let ?i = "intent_of L (st_cfg st) norm ps"
  note i = intent_of_ok [OF assms(1,2), of norm ps]
  have "\<exists>a b. obs_text r True = a @ hex_text (input_hash r) @ b" using hash_in_text [of r True] by (simp add: sublist_def)
  then have "gwl_last_payload_contains (Some (input_hash_hex ?i)) (led st)"
    using assms(1,3,4) i(2) unfolding last_payload_contains_spec
    by (auto simp: digests_32_def AX_HASH_SIZE_def length_0_conv [symmetric] simp del: length_0_conv)
  with recover_whole [OF i(1), of intent_init] assms(5-8) show ?thesis
    by (simp add: recover_wal_def Let_def gw_wal_clear_def)
qed

theorem repeated_prompt_unrecorded_witness:
  "\<exists>(st :: nat gw_state) norm st'. wal st = Some (wal_text (intent_of sample_libs (st_cfg st) norm (request_params sample_req))) \<and>
     recover_wal sample_libs sample_recover st = Some (0, st') \<and> wal st' = None"
proof -
  let ?norm = "str ''hi''" and ?r = "sample_record\<lparr>input_hash := axilog_sha256 (sub sample_libs) (str ''hi'')\<rparr>"
  let ?st = "sample_state\<lparr>led := (led sample_state)\<lparr>g_last_payload := obs_text ?r True\<rparr>,
     wal := Some (wal_text (intent_of sample_libs sample_config ?norm (request_params sample_req)))\<rparr>"
  have "fsync_parent_dir (re_clear sample_recover) (wal_path (st_cfg ?st)) = 0"
    by (simp add: sample_state_ok fsync_parent_dir_def sample_recover_def sample_dir_def sample_config_def)
  then have "\<exists>st'. recover_wal sample_libs sample_recover ?st = Some (0, st') \<and> led st' = led ?st \<and> adm st' = adm ?st \<and> wal st' = None"
    using sample_libs_ok(4) sample_state_ok(2)
    by (intro repeated_prompt_unrecorded [where r = ?r and norm = ?norm and ps = "request_params sample_req"])
      (simp_all add: sample_state_ok(9) sample_recover_def)
  moreover have "wal ?st = Some (wal_text (intent_of sample_libs (st_cfg ?st) ?norm (request_params sample_req)))"
    by (simp add: sample_state_ok(9))
  ultimately show ?thesis by blast
qed

text \<open>
  An intent file that \<open>fopen()\<close> cannot open, for whatever reason, counts as no intent: recovery
  returns 0 and changes nothing, so the start goes on with the intent still open, and then every request fails
  at the write of its own intent.
\<close>

theorem unopened_intent_ignored:
  "\<not> re_fopen_ok R \<Longrightarrow> recover_wal L R st = Some (0, st)"
  "wal st \<noteq> None \<Longrightarrow> gw_wal_write env path i (wal st) = (-1, wal st)"
  by (simp_all add: recover_wal_def gw_wal_recover_def gw_wal_write_def)

end
