(* ===== verification/GwLife.thy ===== *)
theory GwLife
  imports GwStart
begin

text \<open>
  The life of the service over many processes: requests, stops at any moment, and starts.  Two
  histories are kept beside the state of the disk: the entries whose request was answered with
  \<open>ok\<close>, and the hashes of the prompts whose call was paid for.  Both are shown to survive, by the
  same argument, the contract \<open>crash_safe\<close> of the theory of the ledger.
\<close>

section \<open>The steps\<close>

text \<open>
  A stop in the middle of a request is a request whose remaining system calls fail, followed by a
  stop: a failed append leaves the part of the frame that was written, a client that cannot start leaves the
  intent.  A step carries the entries it answered for and the hashes it paid for.

  A request may meet any result of the network, the disk and the oracle, as long as its handling is
  defined at all (C26), and a start may meet any failure but one: in a start that finds a readable intent, the only
  one that may cut the file, no read of the ledger fails (\<open>reads_safe\<close>).  C40 shows why: \<open>gwl_open\<close>
  takes a failed read for a torn tail and cuts off the entries that follow.
\<close>

datatype 'led svc = Up "'led gw_state" | Down "byte list" "byte list option"

inductive svc_step ::
    "('ct, 'cf, 'led) libs \<Rightarrow> 'led svc \<Rightarrow> (byte list \<times> byte list) list \<Rightarrow> byte list list \<Rightarrow> 'led svc \<Rightarrow> bool"
  for L :: "('ct, 'cf, 'led) libs" where
  request: "handle_request L E st = Some (st', resp) \<Longrightarrow> \<not> is_ok resp \<Longrightarrow> svc_step L (Up st) [] (paid L E st st') (Up st')"
| answered: "handle_request L E st = Some (st', resp) \<Longrightarrow> is_ok resp \<Longrightarrow> entry_ok e \<Longrightarrow>
    g_file (led st') = g_file (led st) @ frame (aud L) e \<Longrightarrow> svc_step L (Up st) [e] (paid L E st st') (Up st')"
| stop: "svc_step L (Up st) [] [] (Down (g_file (led st)) (wal st))"
| start: "gw_start L V l w = Some (0, st') \<Longrightarrow> fresh l \<Longrightarrow> g_file l = f \<Longrightarrow> reads_safe V w \<Longrightarrow>
    svc_step L (Down f w) [] [] (Up st')"
| refuse: "gw_start L V l w = Some (1, st') \<Longrightarrow> fresh l \<Longrightarrow> g_file l = f \<Longrightarrow> reads_safe V w \<Longrightarrow>
    svc_step L (Down f w) [] [] (Down (g_file (led st')) (wal st'))"

inductive_cases svc_upE: "svc_step L (Up st) a p x"
inductive_cases svc_downE: "svc_step L (Down f w) a p x"

definition answer_step where
  "answer_step L s s' \<longleftrightarrow> (\<exists>a p. svc_step L (snd s) a p (snd s') \<and> fst s' = fst s @ a)"

definition paid_step where
  "paid_step L s s' \<longleftrightarrow> (\<exists>a p. svc_step L (snd s) a p (snd s') \<and> fst s' = fst s @ p)"

text \<open>The entries on disk, and the intent that is open.\<close>

fun svc_holds :: "('ct, 'cf, 'led) libs \<Rightarrow> (byte list \<times> byte list) list \<Rightarrow> 'led svc \<Rightarrow> bool" where
  "svc_holds L es (Up st) = (libs_ok L \<and> svc_up L es st)"
| "svc_holds L es (Down f w) = (libs_ok L \<and> on_disk (aud L) es f)"

fun svc_intent :: "'led svc \<Rightarrow> byte list option" where
  "svc_intent (Up st) = wal st"
| "svc_intent (Down f w) = w"

lemma frame_inject:
  assumes "commit_32 A" "entry_ok a" "entry_ok b" "frame A a = frame A b"
  shows "a = b"
  using parse_frame_entry [OF assms(1,2), of "[]"] parse_frame_entry [OF assms(1,3), of "[]"] assms(4) by (simp add: prod_eq_iff)

lemma answered_entry:
  assumes "libs_ok L" "ledger_inv (aud L) es (led st)" "ledger_inv (aud L) (es @ [e']) (led st')"
    and "entry_ok e" "g_file (led st') = g_file (led st) @ frame (aud L) e"
  shows "e' = e"
proof -
  have "commit_32 (aud L)" using assms(1) by (simp add: libs_ok_def)
  moreover have "frame (aud L) e' = frame (aud L) e" "entry_ok e'" using assms(2,3,5) by (auto simp: ledger_inv_def)
  ultimately show ?thesis using frame_inject assms(4) by blast
qed

text \<open>
  One step: the entries only grow, the answered ones are among the new ones, and every call that is
  paid for, or was open before, is on record or open after it.
\<close>

definition grows ::
    "('ct, 'cf, 'led) libs \<Rightarrow> (byte list \<times> byte list) list \<Rightarrow> 'led svc \<Rightarrow> (byte list \<times> byte list) list \<Rightarrow> byte list list \<Rightarrow> 'led svc \<Rightarrow> bool" where
  "grows L es x a p x' \<longleftrightarrow> (\<exists>more. svc_holds L (es @ more) x' \<and> subseq a more \<and>
    (\<forall>h. h \<in> set p \<or> intent_names (svc_intent x) h \<longrightarrow> evidenced L (es @ more) h \<or> intent_names (svc_intent x') h))"

lemma request_grows:
  assumes L: "libs_ok L" and up: "svc_up L es st" and h: "handle_request L E st = Some (st', resp)"
    and a: "if is_ok resp then \<exists>e. a = [e] \<and> entry_ok e \<and> g_file (led st') = g_file (led st) @ frame (aud L) e else a = []"
  shows "grows L es (Up st) a (paid L E st st') (Up st')"
proof -
  from handle_up [OF L up h] obtain more where m: "svc_up L (es @ more) st'"
    "\<forall>h. h \<in> set (paid L E st st') \<or> intent_names (wal st) h \<longrightarrow> evidenced L (es @ more) h \<or> intent_names (wal st') h"
    and ok: "is_ok resp \<longrightarrow> (\<exists>e. more = [e] \<and> ledger_inv (aud L) es (led st) \<and> ledger_inv (aud L) (es @ [e]) (led st'))" by blast
  have "subseq a more" using ok a answered_entry [OF L] by (cases "is_ok resp") fastforce+
  with m L show ?thesis unfolding grows_def by (intro exI [of _ more]) simp
qed

lemma up_grows:
  assumes "svc_step L (Up st) a p x'" "svc_holds L es (Up st)"
  shows "grows L es (Up st) a p x'"
  using assms(1)
proof (rule svc_upE)
  assume "x' = Down (g_file (led st)) (wal st)" "a = []" "p = []"
  with assms(2) store_on_disk show ?thesis unfolding grows_def by (intro exI [of _ "[]"]) (auto simp: svc_up_def)
qed (use assms(2) in \<open>auto intro!: request_grows\<close>)

lemma down_grows:
  assumes "svc_step L (Down f w) a p x'" "svc_holds L es (Down f w)"
  shows "grows L es (Down f w) a p x'"
  using assms(1)
proof (rule svc_downE)
  fix V l st'
  assume s: "x' = Up st'" "a = []" "p = []" and g: "gw_start L V l w = Some (0, st')" "fresh l" "g_file l = f" "reads_safe V w"
  with assms(2) start_result [of L es l V w 0 st'] obtain cfg where
    "started L es (re_fopen_ok (se_recover V)) w cfg 0 st'" "config_inv cfg" "ident_ok (cfg_model_id cfg)" by auto
  from started_up [OF this] s assms(2) show ?thesis by (auto simp: grows_def)
next
  fix V l st'
  assume s: "x' = Down (g_file (led st')) (wal st')" "a = []" "p = []"
    and g: "gw_start L V l w = Some (1, st')" "fresh l" "g_file l = f" "reads_safe V w"
  with assms(2) start_result [of L es l V w 1 st'] obtain cfg where "started L es (re_fopen_ok (se_recover V)) w cfg 1 st'" by auto
  with s assms(2) show ?thesis by (auto simp: started_def grows_def)
qed

lemma svc_step_grows: "svc_step L x a p x' \<Longrightarrow> svc_holds L es x \<Longrightarrow> grows L es x a p x'"
  by (cases x) (auto intro: up_grows down_grows)

interpretation answer_run: crash_safe "answer_step L" "svc_holds L" for L :: "('ct, 'cf, 'led) libs"
proof
  fix acks acks' es :: "(byte list \<times> byte list) list" and x x' :: "'led svc"
  assume "answer_step L (acks, x) (acks', x')" "svc_holds L es x"
  then show "\<exists>new more. acks' = acks @ new \<and> svc_holds L (es @ more) x' \<and> subseq new more"
    using svc_step_grows [of L x] by (fastforce simp: answer_step_def grows_def)
qed

text \<open>Every hash of the history is on record or open.\<close>

definition accounted :: "('ct, 'cf, 'led) libs \<Rightarrow> byte list list \<Rightarrow> 'led svc \<Rightarrow> bool" where
  "accounted L hs x \<longleftrightarrow> (\<exists>es. svc_holds L es x \<and> (\<forall>h\<in>set hs. evidenced L es h \<or> intent_names (svc_intent x) h))"

interpretation paid_run: crash_safe "paid_step L" "accounted L" for L :: "('ct, 'cf, 'led) libs"
proof
  fix spent spent' hs :: "byte list list" and x x' :: "'led svc"
  assume "paid_step L (spent, x) (spent', x')" "accounted L hs x"
  then obtain a p es where s: "svc_step L x a p x'" "spent' = spent @ p" "svc_holds L es x"
    "\<forall>h\<in>set hs. evidenced L es h \<or> intent_names (svc_intent x) h" by (auto simp: paid_step_def accounted_def)
  from svc_step_grows [OF s(1,3)] obtain m where m: "svc_holds L (es @ m) x'"
    "\<forall>h. h \<in> set p \<or> intent_names (svc_intent x) h \<longrightarrow> evidenced L (es @ m) h \<or> intent_names (svc_intent x') h" unfolding grows_def by blast
  with s(4) evidenced_mono [of L es _ m] have "accounted L (hs @ p) x'" by (auto simp: accounted_def)
  with s(2) show "\<exists>new more. spent' = spent @ new \<and> accounted L (hs @ more) x' \<and> subseq new more" by blast
qed

section \<open>A concrete life\<close>

text \<open>The service after this start answers the sample request.\<close>

lemma ingest_raw [simp]: "ingest (c\<lparr>raw := r\<rparr>) bytes = ingest c bytes"
proof -
  have "check_params (c\<lparr>raw := r\<rparr>) p = check_params c p" for p by (simp add: check_params_def)
  then show ?thesis by (simp add: ingest_def cong: sum.case_cong)
qed

lemma sample_life:
  "\<exists>st st' e h. svc_step sample_libs (Down [] None) [] [] (Up st) \<and> svc_step sample_libs (Up st) [e] [h] (Up st')"
proof -
  let ?E = "sample_env (curl_with True 200) sample_append"
  obtain st where s: "gw_start sample_libs sample_start sample_ledger None = Some (0, st)" "adm st = ax_admission_ctx_init"
    "st_cfg st = sample_config\<lparr>raw := sample_text\<rparr>" using sample_started by blast
  have L: "libs_ok sample_libs" using sample_libs_ok sample_audit_ok by (simp add: libs_ok_def sample_libs_def)
  have V: "reads_safe sample_start None" by (simp add: reads_safe_def gw_wal_recover_def)
  have one: "svc_step sample_libs (Down [] None) [] [] (Up st)"
    by (rule svc_step.start [OF s(1) sample_fresh V])
  have "on_disk (aud sample_libs) [] (g_file sample_ledger)" by (simp add: sample_fresh on_disk_empty)
  from start_result [OF L this sample_fresh(1) V s(1)] obtain c where
    c: "started sample_libs [] (re_fopen_ok (se_recover sample_start)) None c 0 st" "config_inv c" "ident_ok (cfg_model_id c)" by auto
  from started_up [OF this] obtain es where
    inv: "ledger_inv (aud sample_libs) es (led st)" "svc_up sample_libs es st" by auto
  have z: "calls_made st = 0" "wal st = None" using c(1) by (auto simp: started_def sample_start_def sample_recover_def)
  have i: "ingest (st_cfg st) (rq_bytes ?E) = Inr (sample_req, str ''hi'')"
    using sample_ingest [of "curl_with True 200" sample_append] by (simp add: s(3))
  have g: "gwc_call (rq_curl ?E) (st_cfg st) key body = Some (0, sample_ok, [])" for key body
  proof -
    have "length sample_answer = 67" by (simp add: sample_answer_def)
    then show ?thesis
      by (simp add: s(3) sample_env_def gwc_call_def gwc_loop.simps [of _ _ _ 1] sample_attempts gwc_attempt_def curl_with_def on_body_def
          body_len_def result_init_def sample_ok_def) (simp add: sample_config_def config_defaults_def)
  qed
  have os: "os_calm ?E (intent_of sample_libs (st_cfg st) (lf_norm (str ''hi'')) (request_params sample_req))"
    using sample_os [of "curl_with True 200"] by (simp add: s(3) intent_of_def sample_prompt)
  have b: "config_inv (st_cfg st)" "ident_ok (cfg_model_id (st_cfg st))" "ready (aud sample_libs) st" "calls_made st < call_budget (st_cfg st)"
    using inv z s(2,3) by (simp_all add: svc_up_def ready_def ax_admission_ctx_init_def) (simp add: sample_config_def)
  have p: "clean_text (lf_norm (str ''hi''))" using sample_prompt by simp
  from handle_calm [OF sample_libs_ok(1-3,5) inv(1) b(1-3) z(2) b(4) i sample_prompt(1) p os g]
  obtain st' resp where h: "handle_request sample_libs ?E st = Some (st', resp)" "is_ok resp" using sample_usable by blast
  obtain e where e: "ledger_inv (aud sample_libs) es (led st)" "ledger_inv (aud sample_libs) (es @ [e]) (led st')"
    using handle_up [OF L inv(2) h(1)] h(2) by blast
  have "calls_made st' \<noteq> calls_made st"
    using handle_up [OF L inv(2) h(1)] h(2) by auto
  then obtain hx where hx: "paid sample_libs ?E st st' = [hx]" using i by (simp add: paid_def)
  have "svc_step sample_libs (Up st) [e] (paid sample_libs ?E st st') (Up st')"
    using e by (intro svc_step.answered [OF h]) (simp_all add: ledger_inv_def)
  with one hx show ?thesis by metis
qed

section \<open>Properties\<close>

text \<open>
  C3: What was answered survives: along every run of the service from an empty disk in which no read of the ledger
  failed in a start that found a readable intent (\<open>reads_safe\<close>: by C40 such a read error does cut off
  entries) - requests whose handling is defined (C26) with any behaviour of network, disk and oracle, stops at any moment,
  starts with any other failure, those that succeed and those that are refused - every entry whose request was answered with
  \<open>ok\<close> is in the ledger, in order, and the file on disk is the encoding of the ledger's entries followed by at most one more
  frame or a part of it; while the service runs, the calls it made are within the budget.
\<close>

theorem answered_entries_survive:
  assumes "libs_ok L" "(answer_step L)\<^sup>*\<^sup>* ([], Down [] None) (acks, x)"
  shows "\<exists>es. subseq acks es \<and>
    (case x of Up st \<Rightarrow> on_disk (aud L) es (g_file (led st)) \<and> calls_made st \<le> call_budget (st_cfg st)
     | Down f w \<Rightarrow> on_disk (aud L) es f)"
proof -
  have "svc_holds L [] (Down [] None)" using on_disk_empty [of "aud L"] assms(1) by simp
  from answer_run.acknowledged_held [OF assms(2) this]
  obtain es where "subseq acks es" "svc_holds L es x" by auto
  then show ?thesis by (cases x) (auto simp: svc_up_def store_on_disk)
qed

theorem answered_entries_survive_witness:
  "\<exists>e (st :: nat gw_state) es. subseq [e] es \<and> on_disk (aud sample_libs) es (g_file (led st))"
proof -
  obtain st st' e h where s: "svc_step sample_libs (Down [] None) [] [] (Up st)" "svc_step sample_libs (Up st) [e] [h] (Up st')"
    using sample_life by blast
  then have "answer_step sample_libs ([], Down [] None) ([], Up st)" "answer_step sample_libs ([], Up st) ([e], Up st')"
    by (auto simp: answer_step_def)
  then have "(answer_step sample_libs)\<^sup>*\<^sup>* ([], Down [] None) ([e], Up st')" by (meson r_into_rtranclp rtranclp_trans)
  moreover have "libs_ok sample_libs" using sample_libs_ok sample_audit_ok by (simp add: libs_ok_def sample_libs_def)
  ultimately obtain es where "subseq [e] es" "on_disk (aud sample_libs) es (g_file (led st'))"
    using answered_entries_survive [of sample_libs "[e]" "Up st'"] by force
  then show ?thesis by blast
qed

text \<open>
  C4: Every call is accounted for: along every run of the service from an empty disk in which no read of the ledger
  failed in a start that found a readable intent (\<open>reads_safe\<close>: by C40 such a read error does cut off
  entries) - requests whose handling is defined (C26) with any behaviour of network, disk and oracle, crashes, recoveries,
  starts with any other failure, those that succeed and those that are refused - each prompt whose call was paid
  for is on record: some entry of the ledger holds the hash of the prompt, or is the entry
  that recovery wrote for it, or the write-ahead file that is on disk names it.
\<close>

theorem paid_calls_accounted:
  assumes "libs_ok L" "(paid_step L)\<^sup>*\<^sup>* ([], Down [] None) (spent, x)"
  shows "\<exists>es. (case x of Up st \<Rightarrow> on_disk (aud L) es (g_file (led st)) | Down f w \<Rightarrow> on_disk (aud L) es f) \<and>
    (\<forall>h\<in>set spent. evidenced L es h \<or> intent_names (svc_intent x) h)"
proof -
  have "svc_holds L [] (Down [] None)" using on_disk_empty [of "aud L"] assms(1) by simp
  then have "accounted L [] (Down [] None)" unfolding accounted_def by auto
  from paid_run.acknowledged_held [OF assms(2) this] obtain hs es where
    h: "subseq spent hs" "svc_holds L es x" "\<forall>h\<in>set hs. evidenced L es h \<or> intent_names (svc_intent x) h" by (auto simp: accounted_def)
  have "set spent \<subseteq> set hs" using h(1) by (auto dest: list_emb_set)
  with h(2,3) show ?thesis by (intro exI [of _ es]) (cases x, auto simp: svc_up_def store_on_disk)
qed

theorem paid_calls_accounted_witness:
  "\<exists>(st :: nat gw_state) h es. on_disk (aud sample_libs) es (g_file (led st)) \<and> (evidenced sample_libs es h \<or> intent_names (wal st) h)"
proof -
  obtain st st' e h where s: "svc_step sample_libs (Down [] None) [] [] (Up st)" "svc_step sample_libs (Up st) [e] [h] (Up st')"
    using sample_life by blast
  then have "paid_step sample_libs ([], Down [] None) ([], Up st)" "paid_step sample_libs ([], Up st) ([h], Up st')"
    by (auto simp: paid_step_def)
  then have "(paid_step sample_libs)\<^sup>*\<^sup>* ([], Down [] None) ([h], Up st')" by (meson r_into_rtranclp rtranclp_trans)
  moreover have "libs_ok sample_libs" using sample_libs_ok sample_audit_ok by (simp add: libs_ok_def sample_libs_def)
  ultimately obtain es where "on_disk (aud sample_libs) es (g_file (led st'))" "evidenced sample_libs es h \<or> intent_names (wal st') h"
    using paid_calls_accounted [of sample_libs "[h]" "Up st'"] by force
  then show ?thesis by blast
qed

end
