(* ===== verification/GwAudit.thy ===== *)
theory GwAudit
  imports GwLife
begin

text \<open>
  What an auditor finds in the evidence file: along every run of the service, every entry is the
  commitment to a configuration or the canonical text of an observation that the library admitted
  under the number that follows the entries before it.

  The file is a sequence of self-delimiting frames, of which a stop may leave a last one in part.  The
  locale \<open>framing\<close> has what follows from that alone: a condition on each entry and the entries before
  it survives every cut of the file and every append of a part of a frame.
\<close>

section \<open>Files of self-delimiting frames\<close>

definition log_of :: "('e list \<Rightarrow> 'e \<Rightarrow> bool) \<Rightarrow> 'e list \<Rightarrow> bool" where
  "log_of P es \<longleftrightarrow> (\<forall>k<length es. P (take k es) (es ! k))"

definition file_of :: "('e \<Rightarrow> 'b list) \<Rightarrow> ('e \<Rightarrow> bool) \<Rightarrow> ('e list \<Rightarrow> 'e \<Rightarrow> bool) \<Rightarrow> 'b list \<Rightarrow> bool" where
  "file_of enc ok P f \<longleftrightarrow>
     (\<exists>es e t. f = concat (map enc es) @ t \<and> (\<forall>x\<in>set es. ok x) \<and> log_of P es \<and> prefix t (enc e) \<and> (t = [] \<or> ok e \<and> P es e))"

lemma log_of_Nil [simp]: "log_of P []"
  by (simp add: log_of_def)

lemma log_of_snoc [simp]: "log_of P (es @ [e]) \<longleftrightarrow> log_of P es \<and> P es e"
  by (auto simp: log_of_def nth_append less_Suc_eq)

lemma log_of_append: "log_of P (fs @ gs) \<Longrightarrow> log_of P fs"
  by (induction gs rule: rev_induct) (simp_all flip: append_assoc)

lemma log_of_prefix: "log_of P es \<Longrightarrow> prefix fs es \<Longrightarrow> log_of P fs"
  using log_of_append by (auto simp: prefix_def)

locale framing =
  fixes enc :: "'e \<Rightarrow> 'b list" and ok :: "'e \<Rightarrow> bool"
  assumes self_delimiting: "ok a \<Longrightarrow> ok b \<Longrightarrow> enc a @ u = enc b @ v \<Longrightarrow> a = b"
    and nonempty: "enc a \<noteq> []"
begin

lemma read_entries:
  assumes "\<forall>x\<in>set es. ok x" "\<forall>x\<in>set fs. ok x" "concat (map enc es) @ s = concat (map enc fs) @ t" "prefix t (enc e)" "t = [] \<or> ok e"
  shows "prefix es fs \<or> es = fs @ [e] \<and> t = enc e"
  using assms
proof (induction es arbitrary: fs)
  case (Cons a es)
  show ?case
  proof (cases fs)
    case Nil
    obtain u where u: "enc e = t @ u" using Cons.prems(4) by (auto simp: prefix_def)
    have t: "t = enc a @ concat (map enc es) @ s" using Cons.prems(3) Nil by simp
    then have "ok e" using Cons.prems(5) nonempty [of a] by auto
    moreover have "enc a @ (concat (map enc es) @ s @ u) = enc e @ []" using t u by simp
    ultimately have "a = e" using self_delimiting Cons.prems(1) by (metis list.set_intros(1))
    with t u have "concat (map enc es) = []" "u = []" by simp_all
    with nonempty have "es = []" by (cases es) auto
    with \<open>a = e\<close> \<open>u = []\<close> u Nil show ?thesis by simp
  next
    case (Cons b fs')
    with Cons.prems have "enc a @ (concat (map enc es) @ s) = enc b @ (concat (map enc fs') @ t)" by simp
    with Cons Cons.prems(1,2) have "a = b" using self_delimiting by (metis list.set_intros(1))
    with Cons Cons.prems Cons.IH [of fs'] show ?thesis by auto
  qed
qed simp

lemma file_log:
  assumes "file_of enc ok P (concat (map enc es) @ s)" "\<forall>x\<in>set es. ok x"
  shows "log_of P es"
proof -
  obtain fs e t where f: "concat (map enc es) @ s = concat (map enc fs) @ t" "\<forall>x\<in>set fs. ok x" "log_of P fs" "prefix t (enc e)"
    "t = [] \<or> ok e \<and> P fs e" using assms(1) by (auto simp: file_of_def)
  from read_entries [OF assms(2) f(2,1,4)] f(5) consider "prefix es fs" | "es = fs @ [e]" "t = enc e" by blast
  then show ?thesis using f(3,5) nonempty [of e] log_of_prefix by cases auto
qed

text \<open>A last frame, whole or in part, that is not read as an entry meets the condition too.\<close>

lemma file_rest:
  assumes "file_of enc ok P (concat (map enc es) @ s)" "\<forall>x\<in>set es. ok x" "prefix s (enc d)" "s = [] \<or> ok d"
  shows "\<exists>e. prefix s (enc e) \<and> (s = [] \<or> P es e)"
proof -
  obtain fs e t where f: "concat (map enc es) @ s = concat (map enc fs) @ t" "\<forall>x\<in>set fs. ok x" "log_of P fs" "prefix t (enc e)"
    "t = [] \<or> ok e \<and> P fs e" using assms(1) by (auto simp: file_of_def)
  from read_entries [OF f(2) assms(2) f(1) [symmetric] assms(3,4)]
  consider "prefix fs es" | "fs = es @ [d]" by blast
  then show ?thesis
  proof cases
    case 1
    from read_entries [OF assms(2) f(2,1,4)] f(5) consider "prefix es fs" | "es = fs @ [e]" "t = enc e" by blast
    then show ?thesis
    proof cases
      case a: 1
      with 1 have "es = fs" by (simp add: prefix_order.antisym)
      with f show ?thesis by auto
    next
      case 2
      with f(1) show ?thesis by (auto intro: exI [of _ d])
    qed
  next
    case 2
    with f(3) assms(3) show ?thesis by auto
  qed
qed

lemma file_cut:
  assumes "file_of enc ok P f" "prefix g f"
  shows "file_of enc ok P g"
proof -
  have cut: "file_of enc ok P g" if "prefix g (concat (map enc es) @ t)" "\<forall>x\<in>set es. ok x" "log_of P es" "prefix t (enc e)" "t = [] \<or> ok e \<and> P es e"
    for es t e
    using that
  proof (induction es arbitrary: t e rule: rev_induct)
    case Nil
    then show ?case unfolding file_of_def by (intro exI [of _ "[]"] exI [of _ e] exI [of _ g]) (auto intro: prefix_order.trans)
  next
    case (snoc x es)
    show ?case
    proof (cases "prefix g (concat (map enc (es @ [x])))")
      case True
      with snoc.prems show ?thesis by (intro snoc.IH [of "enc x" x]) simp_all
    next
      case False
      with snoc.prems(1) obtain t' where "g = concat (map enc (es @ [x])) @ t'" "prefix t' t" by (auto simp: prefix_append)
      with snoc.prems show ?thesis unfolding file_of_def
        by (intro exI [of _ "es @ [x]"] exI [of _ e] exI [of _ t']) (auto intro: prefix_order.trans)
    qed
  qed
  obtain es e t where "f = concat (map enc es) @ t" "\<forall>x\<in>set es. ok x" "log_of P es" "prefix t (enc e)" "t = [] \<or> ok e \<and> P es e"
    using assms(1) unfolding file_of_def by blast
  with cut assms(2) show ?thesis by blast
qed

lemma file_extend:
  assumes "file_of enc ok P (concat (map enc es))" "\<forall>x\<in>set es. ok x" "prefix t (enc e)" "t = [] \<or> ok e \<and> P es e"
  shows "file_of enc ok P (concat (map enc es) @ t)"
  using file_log [of P es "[]"] assms unfolding file_of_def by (intro exI [of _ es] exI [of _ e] exI [of _ t]) simp

end

section \<open>Genuine entries\<close>

text \<open>
  The commitment to a configuration, or the record of an input the library admits, whose number
  follows the chain of the entries before it.
\<close>

definition genuine :: "('ct, 'cf, 'led) libs \<Rightarrow> (byte list \<times> byte list) list \<Rightarrow> byte list \<times> byte list \<Rightarrow> bool" where
  "genuine L es e \<longleftrightarrow>
     (\<exists>text. e = config_entry L text) \<or>
     (\<exists>i ctx c. admit_code (sub L) (of_nat AX_MAX_OUTPUT_BYTES) i ctx = AX_OK \<and> readable i \<and>
        chain_of (aud L) (genesis (aud L)) es = Some c \<and> in_ledger_seq i = led_sequence (aud L) c + 1 \<and>
        e = (GW_TAG_OBS, obs_text (hashed (sub L) (obs_of (sub L) i)) True))"

definition framed :: "('cf, 'led) audit \<Rightarrow> byte list \<times> byte list \<Rightarrow> bool" where
  "framed A e \<longleftrightarrow> commit_32 A \<and> entry_ok e"

interpretation evidence: framing "frame A" "framed A" for A :: "('cf, 'led) audit"
proof
  fix a b :: "byte list \<times> byte list" and u v
  assume "framed A a" "framed A b" and eq: "frame A a @ u = frame A b @ v"
  then have ok: "commit_32 A" "entry_ok a" "entry_ok b" by (simp_all add: framed_def)
  from parse_frame_entry [OF ok(1,2), of u] parse_frame_entry [OF ok(1,3), of v] eq show "a = b" by (simp add: prod_eq_iff)
qed (rule frame_nonempty)

definition genuine_file :: "('ct, 'cf, 'led) libs \<Rightarrow> byte list \<Rightarrow> bool" where
  "genuine_file L f \<longleftrightarrow> file_of (frame (aud L)) (framed (aud L)) (genuine L) f"

lemma genuine_file_Nil: "genuine_file L []"
  unfolding genuine_file_def file_of_def by (intro exI [of _ "[]"]) simp

lemma genuine_on_disk:
  assumes "libs_ok L" "genuine_file L f" "on_disk (aud L) es f"
  shows "log_of (genuine L) es"
    and "\<exists>e t. f = frames (aud L) es @ t \<and> prefix t (frame (aud L) e) \<and> (t = [] \<or> genuine L es e)"
proof -
  from assms(3) obtain d t where f: "f = concat (map (frame (aud L)) es) @ t" "prefix t (frame (aud L) d)" "t = [] \<or> entry_ok d"
    "\<forall>e\<in>set es. entry_ok e" unfolding on_disk_def frames_def by (metis prefixI)
  then have ok: "\<forall>e\<in>set es. framed (aud L) e" "t = [] \<or> framed (aud L) d" using assms(1) by (auto simp: framed_def libs_ok_def)
  note g = assms(2) [unfolded genuine_file_def f(1)]
  show "log_of (genuine L) es" by (rule evidence.file_log [OF g ok(1)])
  show "\<exists>e t. f = frames (aud L) es @ t \<and> prefix t (frame (aud L) e) \<and> (t = [] \<or> genuine L es e)"
    using evidence.file_rest [OF g ok(1) f(2) ok(2)] f(1) by (auto simp: frames_def)
qed

section \<open>The steps keep the file genuine\<close>

lemma append_genuine:
  assumes "libs_ok L" "genuine_file L (g_file l)" "ledger_inv (aud L) es l" "genuine L es (c_str tag, payload)"
    and a: "gwl_append (aud L) env (Some tag) (Some payload) l = ((rc, out), l')"
  shows "genuine_file L (g_file l')"
proof -
  have l: "g_fd l" "g_file l = concat (map (frame (aud L)) es)" "\<forall>e\<in>set es. framed (aud L) e"
    using assms(1,3) by (simp_all add: ledger_inv_def frames_def framed_def libs_ok_def)
  obtain t u where "frame (aud L) (c_str tag, payload) = t @ u" "g_file l' = g_file l @ t"
    "t \<noteq> [] \<longrightarrow> entry_ok (c_str tag, payload)" using append_file [OF a l(1)] by blast
  with assms(1,2,4) l(2,3) show ?thesis
    unfolding genuine_file_def by (auto simp: framed_def libs_ok_def intro!: evidence.file_extend)
qed

lemma commit_genuine:
  assumes L: "libs_ok L" and g: "genuine_file L (g_file (led st))" and inv: "store_inv (aud L) es st"
    and c: "commit_observation L env state ftype norm output ps st = Some (r, st')"
  shows "genuine_file L (g_file (led st'))"
proof (cases "commit_code L state ftype norm output ps st = AX_OK")
  case False
  with c g commit_eq [of L env state ftype norm "output" ps st] L show ?thesis by (simp add: libs_ok_def)
next
  case True
  let ?p = "obs_text (commit_rec L state ftype norm output ps st) True"
  obtain rc out l where a: "gwl_append (aud L) env (Some GW_TAG_OBS) (Some ?p) (led st) = ((rc, out), l)" by (metis surj_pair)
  have l: "led st' = l"
    using c commit_eq [of L env state ftype norm "output" ps st] L True a by (auto simp: libs_ok_def Let_def split: if_splits)
  have led: "ledger_inv (aud L) es (led st)"
    using inv True by (auto simp: store_inv_def commit_code_def admit_code_def blocked_def commit_input_def rc_defs)
  then have "chain_of (aud L) (genesis (aud L)) es = Some (g_ctx (led st))" by (simp add: ledger_inv_def)
  then have "genuine L es (c_str GW_TAG_OBS, ?p)"
    unfolding genuine_def using True readable_commit
    by (intro disjI2 exI [of _ "commit_input (st_cfg st) (gwl_seq (aud L) (led st) + 1) state ftype norm output ps"]
        exI [of _ "adm st"] exI [of _ "g_ctx (led st)"])
      (simp add: commit_code_def commit_rec_def GW_TAG_OBS_def, simp add: commit_input_def gwl_seq_def)
  from append_genuine [OF L g led this a] show ?thesis by (simp add: l)
qed

lemma degrade_genuine:
  assumes L: "libs_ok L" and g: "genuine_file L (g_file (led st))" and inv: "store_inv (aud L) es st"
    and c: "commit_or_degrade L E res norm ps state ftype out ok st = Some (r, st')"
  shows "genuine_file L (g_file (led st'))"
proof -
  obtain r1 st1 where c1: "commit_observation L (rq_append E) state ftype norm out ps st = Some (r1, st1)"
    using c by (auto simp: commit_or_degrade_def split: bind_splits)
  note g1 = commit_genuine [OF L g inv c1]
  show ?thesis
  proof (cases "r1 = None \<and> (state = AX_COMPLETION_COMPLETE \<or> state = AX_COMPLETION_TRUNCATED)")
    case False
    with c c1 g1 show ?thesis by (auto simp: commit_or_degrade_def split: option.splits if_splits)
  next
    case True
    let ?st = "log_at (rq_ts E) 7 ''warn'' ''oracle_fail'' (Some (str ''output failed admission; recording INVALID_OUTPUT''))
                 (attempts res) (http_status res) 0 st1"
    have "store_inv (aud L) es st1" using commit_store(3) [OF _ _ inv c1] L True by (simp add: libs_ok_def)
    then have i2: "store_inv (aud L) es ?st" by (simp add: store_inv_core [of ?st st1])
    obtain r2 st2 where c2: "commit_observation L (rq_append2 E) AX_COMPLETION_ERROR AX_FAILURE_INVALID_OUTPUT norm [] ps ?st = Some (r2, st2)"
      using c c1 True by (auto simp: commit_or_degrade_def Let_def split: bind_splits)
    have "st' = st2" using c c1 c2 True by (auto simp: commit_or_degrade_def Let_def split: option.splits)
    with commit_genuine [OF L _ i2 c2] g1 show ?thesis by simp
  qed
qed

lemma call_genuine:
  assumes L: "libs_ok L" and g: "genuine_file L (g_file (led st))" and inv: "store_inv (aud L) es st"
    and c: "call_oracle L E reqjson norm ps st = Some (st', resp)"
  shows "genuine_file L (g_file (led st'))"
proof -
  let ?st = "st\<lparr>calls_made := calls_made st + 1\<rparr>"
  obtain rc res pauses where gc: "gwc_call (rq_curl E) (st_cfg st) (rq_api_key E) reqjson = Some (rc, res, pauses)"
    using c by (auto simp: call_oracle_def Let_def split: bind_splits)
  show ?thesis
  proof (cases "rc = 0")
    case False
    with c gc g show ?thesis by (auto simp: call_oracle_def)
  next
    case True
    obtain state ftype out ok st1 where o: "oracle_outcome E res ?st = Some (state, ftype, out, ok, st1)"
      using outcome_total [of E res ?st] by (metis not_None_eq prod_cases5)
    obtain r st2 where d: "commit_or_degrade L E res norm ps state ftype out ok st1 = Some (r, st2)"
      using degrade_total [of L] L by (metis libs_ok_def not_None_eq surj_pair)
    have "store_inv (aud L) es ?st" using inv by (simp add: store_inv_def blocked_def)
    moreover have "led st1 = led st" using outcome_core(1) [OF o] by (simp add: core_def)
    ultimately have "genuine_file L (g_file (led st2))"
      using degrade_genuine [OF L _ _ d, of es] g store_inv_core [OF outcome_core(1) [OF o], of "aud L" es] by simp
    moreover have "led st' = led st2"
    proof (cases r)
      case None
      with c gc True o d show ?thesis by (auto simp: call_oracle_def)
    next
      case (Some x)
      obtain a b e k h hh seq where x: "x = (a, b, e, k, h, hh, seq)" by (cases x)
      have "finish_request E ps x st2 = (st', resp)" using c gc True o d Some by (simp add: call_oracle_def)
      from finish_result(1) [OF this [unfolded x]] show ?thesis by (simp add: core_def)
    qed
    ultimately show ?thesis by simp
  qed
qed

lemma spend_genuine:
  assumes L: "libs_ok L" and g: "genuine_file L (g_file (led st))" and inv: "store_inv (aud L) es st"
    and s: "spend L E norm ps st = Some (st', resp)"
  shows "genuine_file L (g_file (led st'))"
proof -
  have "genuine_file L (g_file (led st'))" if "call_oracle L E reqjson norm ps x = Some (st', resp)" "led x = led st" "adm x = adm st" for reqjson x
    using call_genuine [OF L _ _ that(1), of es] g inv that by (simp add: store_inv_def blocked_def)
  with s g show ?thesis by (auto simp: spend_def Let_def split: if_splits bind_splits option.splits prod.splits)
qed

lemma handle_genuine:
  assumes L: "libs_ok L" and g: "genuine_file L (g_file (led st))" and inv: "store_inv (aud L) es st"
    and h: "handle_request L E st = Some (st', resp)"
  shows "genuine_file L (g_file (led st'))"
  using h g spend_genuine [OF L g inv]
  by (auto simp: handle_request_def log_reject_def split: sum.splits bind_splits option.splits if_splits)

lemma open_genuine:
  assumes g: "genuine_file L (g_file (led st))" and o: "open_ledger L V st = (rc, st')"
  shows "genuine_file L (g_file (led st'))"
proof -
  obtain rc1 tr l where w: "gwl_open (aud L) (se_open V) (g_file (led st)) (fst (gw_wal_recover (se_probe_ok V) (wal st) intent_init) = 1) (led st) = (rc1, tr, l)"
    by (metis surj_pair)
  have "prefix (g_file l) (g_file (led st))"
    using w by (auto simp: gwl_open_def Let_def take_is_prefix split: prod.splits if_splits loop_exit.splits)
  then have "genuine_file L (g_file l)" using g evidence.file_cut unfolding genuine_file_def by blast
  moreover have "g_file (led st') = g_file l"
    using o w by (auto simp: open_ledger_def start_fault_def gwl_export_enable_def Let_def split: if_splits prod.splits)
  ultimately show ?thesis by simp
qed

lemma recover_genuine:
  assumes L: "libs_ok L" and g: "genuine_file L (g_file (led st))" and inv: "store_inv (aud L) es st"
    and r: "recover_wal L R st = Some (rc, st')"
  shows "genuine_file L (g_file (led st'))"
proof -
  have "genuine_file L (g_file (led x))"
    if "commit_observation L env state ftype norm out ps st = Some (y, x)" for env state ftype norm out ps x y
    using commit_genuine [OF L g inv that] .
  with r g show ?thesis by (fastforce simp: recover_wal_def Let_def split: if_splits bind_splits option.splits prod.splits)
qed

lemma config_genuine:
  assumes L: "libs_ok L" and g: "genuine_file L (g_file (led st))" and inv: "ledger_inv (aud L) es (led st)"
    and c: "commit_config L V st = (rc, st')"
  shows "genuine_file L (g_file (led st'))"
proof -
  let ?p = "state_payload (hex32 (axilog_sha256 (sub L) (raw (st_cfg st))))"
  obtain rc1 out l where a: "gwl_append (aud L) (se_commit V) (Some GW_TAG_STATE) (Some ?p) (led st) = ((rc1, out), l)" by (metis surj_pair)
  have "genuine L es (c_str GW_TAG_STATE, ?p)" by (auto simp: genuine_def config_entry_def GW_TAG_STATE_def)
  from append_genuine [OF L g inv this a] c a show ?thesis
    by (auto simp: commit_config_def start_fault_def Let_def split: if_splits)
qed

lemma start_genuine:
  assumes L: "libs_ok L" and g: "genuine_file L (g_file l)" and d: "on_disk (aud L) es (g_file l)" "fresh l" "reads_safe V w"
    and s: "gw_start L V l w = Some (rc, st')"
  shows "genuine_file L (g_file (led st'))"
proof (cases "start_checks V l w")
  case (Inl st)
  with s g checks_result(1) [OF Inl] show ?thesis by (simp add: gw_start_def)
next
  case (Inr st)
  then have s1: "start_service L V st = Some (rc, st')" and l: "led st = l" "wal st = w" using s checks_result(2) by (auto simp: gw_start_def)
  obtain rc1 st1 where o: "open_ledger L V st = (rc1, st1)" by fastforce
  note g1 = open_genuine [OF g [folded l(1)] o]
  show ?thesis
  proof (cases "rc1 = 0")
    case False
    with s1 o g1 show ?thesis by (simp add: start_service_def)
  next
    case True
    obtain rc2 st2 where r: "recover_wal L (se_recover V) st1 = Some (rc2, st2)"
      using s1 o True by (auto simp: start_service_def split: bind_splits)
    obtain es1 where "ledger_inv (aud L) es1 (led st1)"
      using open_ledger_result(2) [of L es st V rc1 st1] L d l o True by (auto simp: libs_ok_def)
    then have g2: "genuine_file L (g_file (led st2))" using recover_genuine [OF L g1 _ r] by (auto simp: store_inv_def)
    show ?thesis
    proof (cases "rc2 = 0")
      case False
      with s1 o True r g2 show ?thesis by (simp add: start_service_def)
    next
      case rc2: True
      obtain es2 where inv2: "ledger_inv (aud L) es2 (led st2)"
        using opened_recovered [OF L d [folded l] o [unfolded True] r] rc2 by blast
      obtain rc3 st3 where c: "commit_config L V st2 = (rc3, st3)" by fastforce
      have "core st' = core st3" using s1 o True r rc2 c listen_result [of L V st3] by (auto simp: start_service_def split: if_splits)
      with config_genuine [OF L g2 inv2 c] show ?thesis by (simp add: core_def)
    qed
  qed
qed

section \<open>Runs\<close>

fun svc_file :: "'led svc \<Rightarrow> byte list" where
  "svc_file (Up st) = g_file (led st)"
| "svc_file (Down f w) = f"

lemma svc_on_disk: "svc_holds L es x \<Longrightarrow> on_disk (aud L) es (svc_file x)"
  by (cases x) (auto simp: svc_up_def store_on_disk)

lemma step_genuine:
  assumes "svc_step L x a p x'" "svc_holds L es x" "genuine_file L (svc_file x)"
  shows "genuine_file L (svc_file x')"
  using assms(1)
proof cases
  case (request E st st' resp)
  with assms handle_genuine [of L st es E st' resp] show ?thesis by (simp add: svc_up_def)
next
  case (answered E st st' resp e)
  with assms handle_genuine [of L st es E st' resp] show ?thesis by (simp add: svc_up_def)
next
  case (start V l w st' f)
  with assms start_genuine show ?thesis by auto
next
  case (refuse V l w st' f)
  with assms start_genuine show ?thesis by auto
qed (use assms(3) in simp)

definition sound :: "('ct, 'cf, 'led) libs \<Rightarrow> (byte list \<times> byte list) list \<Rightarrow> 'led svc \<Rightarrow> bool" where
  "sound L es x \<longleftrightarrow> svc_holds L es x \<and> genuine_file L (svc_file x)"

interpretation audited_run: crash_safe "answer_step L" "sound L" for L :: "('ct, 'cf, 'led) libs"
proof
  fix acks acks' es :: "(byte list \<times> byte list) list" and x x' :: "'led svc"
  assume s: "answer_step L (acks, x) (acks', x')" and i: "sound L es x"
  then obtain a p where "svc_step L x a p x'" by (auto simp: answer_step_def)
  with i have "genuine_file L (svc_file x')" using step_genuine by (auto simp: sound_def)
  with answer_run.step_grows [OF s, of es] i
  show "\<exists>new more. acks' = acks @ new \<and> sound L (es @ more) x' \<and> subseq new more" by (auto simp: sound_def)
qed

text \<open>
  What an auditor can check of an entry, given the entries before it: it commits to a configuration, or is the
  canonical text of a record that passes \<open>ax_obs_validate\<close> and has the number that follows their chain.
\<close>

definition attested :: "('ct, 'cf, 'led) libs \<Rightarrow> (byte list \<times> byte list) list \<Rightarrow> byte list \<times> byte list \<Rightarrow> bool" where
  "attested L es e \<longleftrightarrow> (\<exists>text. e = config_entry L text) \<or>
    (\<exists>r p c. e = (GW_TAG_OBS, p) \<and> ax_obs_canonicalise (of_nat AX_CANONICAL_BUFFER_SIZE) r True = Some (int (length p), p @ [0]) \<and>
       (\<forall>f. ax_obs_validate (sub L) r f = Some (AX_OK, f)) \<and>
       chain_of (aud L) (genesis (aud L)) es = Some c \<and> ledger_seq r = led_sequence (aud L) c + 1)"

lemma genuine_record:
  assumes "digests_32 (sub L)" "genuine L es e"
  shows "attested L es e"
proof (cases "\<exists>text. e = config_entry L text")
  case False
  with assms(2) obtain i ctx c where i: "admit_code (sub L) (of_nat AX_MAX_OUTPUT_BYTES) i ctx = AX_OK"
    "chain_of (aud L) (genesis (aud L)) es = Some c" "in_ledger_seq i = led_sequence (aud L) c + 1"
    "e = (GW_TAG_OBS, obs_text (hashed (sub L) (obs_of (sub L) i)) True)" by (auto simp: genuine_def)
  let ?r = "hashed (sub L) (obs_of (sub L) i)"
  have "length (obs_text ?r True) < AX_CANONICAL_BUFFER_SIZE" using admit_code_ok(9) [OF i(1)] by (simp add: limit_defs)
  then have "ax_obs_canonicalise (of_nat AX_CANONICAL_BUFFER_SIZE) ?r True = Some (int (length (obs_text ?r True)), obs_text ?r True @ [0])"
    using obs_canonicalise_131072 [of ?r True] length_input_digest [OF assms(1)] by simp
  moreover have "ledger_seq ?r = in_ledger_seq i" by (simp add: hashed_def obs_of_def)
  moreover note admitted_validates [OF assms(1) i(1)]
  ultimately show ?thesis unfolding attested_def using i by (intro disjI2 exI [of _ ?r]) simp
qed (simp add: attested_def)

section \<open>Properties\<close>

text \<open>
  C5: The evidence file holds nothing but evidence: along every run of the service from an empty disk in which no read of
  the ledger failed in a start that found a readable intent (\<open>reads_safe\<close>) - requests whose handling is defined (C26), crashes, starts and
  refused starts, with any other behaviour of network, disk and oracle - the file on disk is the encoding of a list of entries, whose
  chain is intact, and at most one more frame, whole or in part; the list has every entry that was answered for; and each entry, the
  one of the last frame included, is attested by the entries before it: it is the commitment to a configuration or the canonical text of a record
  that passes \<open>ax_obs_validate\<close> and whose sequence number is the one that follows the chain of the entries before it.
\<close>

theorem ledger_is_genuine:
  assumes "libs_ok L" "(answer_step L)\<^sup>*\<^sup>* ([], Down [] None) (acks, x)"
  shows "\<exists>es e t. subseq acks es \<and> chain_of (aud L) (genesis (aud L)) es \<noteq> None \<and>
    svc_file x = frames (aud L) es @ t \<and> prefix t (frame (aud L) e) \<and>
    (\<forall>k<length es. attested L (take k es) (es ! k)) \<and> (t = [] \<or> attested L es e)"
proof -
  have "sound L [] (Down [] None)" using on_disk_empty [of "aud L"] assms(1) genuine_file_Nil by (simp add: sound_def)
  from audited_run.acknowledged_held [OF assms(2) this] obtain es where
    es: "subseq acks es" "svc_holds L es x" "genuine_file L (svc_file x)" by (auto simp: sound_def)
  note d = svc_on_disk [OF es(2)]
  have "digests_32 (sub L)" using assms(1) by (simp add: libs_ok_def)
  note r = genuine_record [OF this]
  note g = genuine_on_disk [OF assms(1) es(3) d]
  have "attested L (take k es) (es ! k)" if "k < length es" for k
    using g(1) that r by (simp add: log_of_def)
  moreover obtain e t where "svc_file x = frames (aud L) es @ t" "prefix t (frame (aud L) e)" "t = [] \<or> attested L es e"
    using g(2) r by blast
  moreover have "chain_of (aud L) (genesis (aud L)) es \<noteq> None" using d by (simp add: on_disk_def)
  ultimately show ?thesis using es(1) by blast
qed

theorem ledger_is_genuine_witness:
  "\<exists>a (st :: nat gw_state) es e t. subseq [a] es \<and> g_file (led st) = frames (aud sample_libs) es @ t \<and>
     (\<forall>k<length es. attested sample_libs (take k es) (es ! k)) \<and> (t = [] \<or> attested sample_libs es e)"
proof -
  obtain st st' a h where s: "svc_step sample_libs (Down [] None) [] [] (Up st)" "svc_step sample_libs (Up st) [a] [h] (Up st')"
    using sample_life by blast
  then have "answer_step sample_libs ([], Down [] None) ([], Up st)" "answer_step sample_libs ([], Up st) ([a], Up st')"
    by (auto simp: answer_step_def)
  then have "(answer_step sample_libs)\<^sup>*\<^sup>* ([], Down [] None) ([a], Up st')" by (meson r_into_rtranclp rtranclp_trans)
  moreover have "libs_ok sample_libs" using sample_libs_ok sample_audit_ok by (simp add: libs_ok_def sample_libs_def)
  ultimately show ?thesis using ledger_is_genuine [of sample_libs "[a]" "Up st'"] unfolding svc_file.simps by blast
qed

end
