(* ===== verification/GwProtocol.thy ===== *)
theory GwProtocol
  imports GwService
begin

text \<open>
  The two ends of the connection: the reference client, \<open>gateway/gw-client.py\<close>, and the framing of
  responses that \<open>gateway/README.md\<close> makes normative for clients, against the handler of the gateway.
\<close>

section \<open>Model: the reference client\<close>

text \<open>
  What the client sends for a prompt and an optional temperature argument; \<open>None\<close> where it exits
  with a message.
\<close>

definition client_request :: "int option \<Rightarrow> byte list \<Rightarrow> byte list option" where
  "client_request argument prompt =
     (let temperature_q16 = (case argument of None \<Rightarrow> 0 | Some t \<Rightarrow> t) in
      if \<not> (0 \<le> temperature_q16 \<and> temperature_q16 \<le> 131072) then None
      else Some (str ''max_tokens: 64'' @ [0x0A] @ str ''temperature_q16: '' @ dec_int temperature_q16 @ [0x0A] @
             str ''prompt_len: '' @ dec_int (int (length prompt)) @ [0x0A, 0x0A] @ prompt))"

section \<open>Reading a response\<close>

text \<open>
  The framing: lines that end in a line feed, up to an empty one; a line is a key, a colon and a
  space, and a value up to the line feed; then as many bytes as \<open>output_len\<close> says.
\<close>

definition next_line :: "byte list \<Rightarrow> (byte list \<times> byte list) option" where
  "next_line f = (case dropWhile (\<lambda>c. c \<noteq> 0x0A) f of [] \<Rightarrow> None | _ # r \<Rightarrow> Some (takeWhile (\<lambda>c. c \<noteq> 0x0A) f, r))"

fun split_field :: "byte list \<Rightarrow> (byte list \<times> byte list) option" where
  "split_field [] = None"
| "split_field (c # cs) =
     (if c = 0x3A \<and> take 1 cs = [0x20] then Some ([], drop 1 cs)
      else map_option (apfst (Cons c)) (split_field cs))"

lemma next_line_shorter: "next_line f = Some (l, r) \<Longrightarrow> length r < length f"
  using length_dropWhile_le [of "\<lambda>c. c \<noteq> 0x0A" f] by (auto simp: next_line_def split: list.splits)

function read_fields :: "byte list \<Rightarrow> ((byte list \<times> byte list) list \<times> byte list) option" where
  "read_fields f =
     (case next_line f of
        None \<Rightarrow> None
      | Some (l, r) \<Rightarrow>
          if l = [] then Some ([], r)
          else do { kv \<leftarrow> split_field l; (fs, body) \<leftarrow> read_fields r; Some (kv # fs, body) })"
  by pat_completeness auto
termination
  by (relation "measure length") (auto dest: next_line_shorter)

declare read_fields.simps [simp del]

definition read_response :: "byte list \<Rightarrow> ((byte list \<times> byte list) list \<times> byte list) option" where
  "read_response f =
     do {
       (fs, body) \<leftarrow> read_fields f;
       v \<leftarrow> map_of fs (str ''output_len'');
       (n, _) \<leftarrow> strtol v;
       if n < 0 \<or> length body < nat n then None else Some (fs, take (nat n) body)
     }"

section \<open>The client is understood\<close>

lemma client_lines:
  "client_request argument prompt = Some f \<longleftrightarrow>
   (\<exists>t. t = (case argument of None \<Rightarrow> 0 | Some t \<Rightarrow> t) \<and> 0 \<le> t \<and> t \<le> 131072 \<and>
      f = header_line ''max_tokens:'' 64 @ header_line ''temperature_q16:'' t @ header_line ''prompt_len:'' (int (length prompt)) @ [0x0A] @ prompt)"
  by (auto simp: client_request_def header_line_def Let_def str_def dec_int_def dec.simps [of 64] dec.simps [of 6])

lemma client_ingested:
  assumes "client_request argument prompt = Some f" "length prompt < 2 ^ 31"
  defines "p \<equiv> \<lparr>prompt_len = int (length prompt), rq_max_tokens = 64,
    temp_q16 = (case argument of None \<Rightarrow> 0 | Some t \<Rightarrow> t), rq_top_p_q16 = -1\<rparr>"
  shows "ingest cfg (f @ rest) =
    (if prompt \<noteq> [] \<and> int (length prompt) \<le> max_prompt_bytes cfg then Inr (p, prompt) else Inl ''bad_prompt_len'')"
proof -
  obtain t where t: "t = (case argument of None \<Rightarrow> 0 | Some t \<Rightarrow> t)" "0 \<le> t" "t \<le> 131072"
    "f = header_line ''max_tokens:'' 64 @ header_line ''temperature_q16:'' t @ header_line ''prompt_len:'' (int (length prompt)) @ [0x0A] @ prompt"
    using assms(1) unfolding client_lines by blast
  have "\<bar>64\<bar> < (2 ^ 31 :: int)" "\<bar>t\<bar> < 2 ^ 31" "\<bar>int (length prompt)\<bar> < 2 ^ 31" using t assms(2) by simp_all
  note s = this [THEN small_long]
  have "ingest_loop q (f @ rest) = Inr (p, prompt @ rest)" if "rq_top_p_q16 q = -1" for q :: req_params
    using s that t(1) by (simp add: t(4) ingest_header ingest_blank p_def)
  then show ?thesis
    using t by (auto simp: ingest_def check_params_def p_def)
qed

section \<open>The response is understood\<close>

definition response_line :: "byte list \<times> byte list \<Rightarrow> byte list" where
  "response_line kv = fst kv @ [0x3A, 0x20] @ snd kv @ [0x0A]"

definition field_ok :: "byte list \<times> byte list \<Rightarrow> bool" where
  "field_ok kv \<longleftrightarrow> 0x3A \<notin> set (fst kv) \<and> 0x0A \<notin> set (fst kv) \<and> 0x0A \<notin> set (snd kv)"

lemma next_line_line: "0x0A \<notin> set l \<Longrightarrow> next_line (l @ 0x0A # r) = Some (l, r)"
proof -
  assume "0x0A \<notin> set l"
  then have "takeWhile (\<lambda>c. c \<noteq> 0x0A) (l @ 0x0A # r) = l" "dropWhile (\<lambda>c. c \<noteq> 0x0A) (l @ 0x0A # r) = 0x0A # r"
    by (induction l) auto
  then show "next_line (l @ 0x0A # r) = Some (l, r)" by (simp add: next_line_def)
qed

lemma split_field_line: "0x3A \<notin> set k \<Longrightarrow> split_field (k @ 0x3A # 0x20 # v) = Some (k, v)"
  by (induction k) auto

lemma read_fields_lines:
  assumes "\<forall>kv\<in>set fs. field_ok kv"
  shows "read_fields (concat (map response_line fs) @ 0x0A # body) = Some (fs, body)"
  using assms
proof (induction fs)
  case Nil
  then show ?case using next_line_line [of "[]" body] by (subst read_fields.simps) simp
next
  case (Cons kv fs)
  then have kv: "field_ok kv" by simp
  let ?l = "fst kv @ [0x3A, 0x20] @ snd kv"
  have "next_line (?l @ 0x0A # concat (map response_line fs) @ 0x0A # body) = Some (?l, concat (map response_line fs) @ 0x0A # body)"
    using kv by (intro next_line_line) (auto simp: field_ok_def)
  moreover have "split_field ?l = Some kv" using kv split_field_line [of "fst kv" "snd kv"] by (simp add: field_ok_def)
  moreover have "concat (map response_line (kv # fs)) @ 0x0A # body = ?l @ 0x0A # concat (map response_line fs) @ 0x0A # body"
    by (simp add: response_line_def)
  ultimately show ?case using Cons by (subst read_fields.simps) simp
qed

text \<open>The keys and values of a response, in the order the documentation gives.\<close>

definition response_fields ::
    "bool \<Rightarrow> ax_completion_state_t \<Rightarrow> ax_failure_type_t \<Rightarrow> byte list \<Rightarrow> byte list \<Rightarrow> u64 \<Rightarrow> byte list \<Rightarrow> ax_oracle_params_t \<Rightarrow> nat \<Rightarrow>
     (byte list \<times> byte list) list" where
  "response_fields ok state ftype h hh seq model ps n =
     [(str ''status'', if ok then str ''ok'' else str ''error''), (str ''completion_state'', state_name state),
      (str ''failure_type'', failure_name ftype), (str ''obs_hash'', h), (str ''chain_head'', hh), (str ''seq'', dec (unat seq)),
      (str ''snapshot_id'', model),
      (str ''temperature_q16'', if ax_params_temperature_is_null ps then str ''null'' else dec_int (sint (p_temperature ps))),
      (str ''output_len'', dec n)]"

lemma header_fields:
  "response_header ok state ftype h hh seq model ps n = Some hdr \<Longrightarrow>
   hdr = concat (map response_line (response_fields ok state ftype h hh seq model ps n)) @ [0x0A]"
  by (auto simp: response_header_def response_fields_def response_line_def Let_def str_def split: if_splits)

lemma fields_ok:
  assumes "0x0A \<notin> set h" "0x0A \<notin> set hh" "0x0A \<notin> set model"
  shows "\<forall>kv\<in>set (response_fields ok state ftype h hh seq model ps n). field_ok kv"
proof -
  have "0x0A \<notin> set (dec k)" for k using dec_digits [of "0x0A" k] by auto
  with assms dec_int_plain(1) show ?thesis
    by (auto simp: response_fields_def field_ok_def state_name_def failure_name_def str_def)
qed

lemma response_reads:
  assumes "response_header ok state ftype h hh seq model ps (length out) = Some hdr"
    and "0x0A \<notin> set h" "0x0A \<notin> set hh" "0x0A \<notin> set model" "length out < 2 ^ 31"
  shows "read_response (hdr @ out @ rest) = Some (response_fields ok state ftype h hh seq model ps (length out), out)"
proof -
  have "read_fields (hdr @ out @ rest) = Some (response_fields ok state ftype h hh seq model ps (length out), out @ rest)"
    unfolding header_fields [OF assms(1)] using read_fields_lines [OF fields_ok [OF assms(2-4)]] by simp
  moreover have "strtol (dec (length out)) = Some (int (length out), [])"
    using strtol_dec [of "[]" "int (length out)"] small_long [of "int (length out)"] assms(5) by (simp add: dec_int_def)
  ultimately show ?thesis by (simp add: read_response_def response_fields_def str_def)
qed

text \<open>What the receipt of a recorded answer says.\<close>

lemma receipt_reads:
  assumes "receipt L E norm ps r st resp" "rq_conn E = []" "obs_hash r = hex_text h" "ident_ok (cfg_model_id (st_cfg st))"
  shows "\<exists>out. read_response resp = Some (response_fields True (completion_state r) (failure_type r) (obs_hash r)
      (hex32 (gwl_head (aud L) (led st))) (gwl_seq (aud L) (led st)) (cfg_model_id (st_cfg st)) ps (length out), out) \<and>
    opt_text (obs_output r) = lf_norm out \<and> answered E (st_cfg st) norm ps out"
proof -
  from assms(1,2) obtain hdr out where o: "response_header True (completion_state r) (failure_type r) (obs_hash r)
      (hex32 (gwl_head (aud L) (led st))) (gwl_seq (aud L) (led st)) (cfg_model_id (st_cfg st)) ps (length out) = Some hdr"
    "resp = hdr @ out" "opt_text (obs_output r) = lf_norm out" "length out \<le> AX_MAX_OUTPUT_BYTES"
    "answered E (st_cfg st) norm ps out" by (auto simp: receipt_def sent_def)
  have "0x0A \<notin> set (hex_text bs)" for bs using hex_text_chars [of "0x0A" bs] by auto
  moreover have "hex32 bs = hex_text (take 32 bs)" for bs by (simp add: hex32_def hex_text_def hex_byte_def [abs_def])
  moreover have "0x0A \<notin> set (cfg_model_id (st_cfg st))" using ident_printable [OF assms(4), of "0x0A"] by auto
  moreover have "length out < 2 ^ 31" using o(4) by (simp add: limit_defs)
  ultimately have "read_response (hdr @ out @ []) = Some (response_fields True (completion_state r) (failure_type r) (obs_hash r)
      (hex32 (gwl_head (aud L) (led st))) (gwl_seq (aud L) (led st)) (cfg_model_id (st_cfg st)) ps (length out), out)"
    using assms(3) by (intro response_reads [OF o(1)]) simp_all
  with o show ?thesis by auto
qed

section \<open>Properties\<close>

text \<open>
  C6: The caller's view of a served request: over a connection that takes everything, a response that
  starts with \<open>status: ok\<close> reads, by the documented framing, as the nine fields in their order and an
  output, where the ledger file has gained exactly the record of this prompt, \<open>obs_hash\<close> is the
  commitment to the text of that record, \<open>chain_head\<close> and \<open>seq\<close> are those of the ledger
  with it, \<open>snapshot_id\<close> is its model, and its output is the normalised text of what the caller got, which
  is the text of the oracle's answer to the body made from this prompt and these parameters.
\<close>

theorem response_is_receipt:
  assumes "digests_32 (sub L)" "fault_keeps_seq (aud L)" "config_inv (st_cfg st)" "ident_ok (cfg_model_id (st_cfg st))"
    and "store_inv (aud L) es st" "handle_request L E st = Some (st', resp)" "prefix (str ''status: ok'') resp" "rq_conn E = []"
  shows "\<exists>p prompt r out. ingest (st_cfg st) (rq_bytes E) = Inr (p, prompt) \<and>
    g_file (led st') = frames (aud L) (es @ [(GW_TAG_OBS, obs_text r True)]) \<and> input_hash r = axilog_sha256 (sub L) (lf_norm prompt) \<and>
    obs_hash r = hex_text (commit_text (sub L) (obs_text r False)) \<and> model_id r = Some (cfg_model_id (st_cfg st)) \<and>
    opt_text (obs_output r) = lf_norm out \<and> answered E (st_cfg st) (lf_norm prompt) (request_params p) out \<and>
    read_response resp = Some (response_fields True (completion_state r) (failure_type r) (obs_hash r)
      (hex32 (gwl_head (aud L) (led st'))) (gwl_seq (aud L) (led st')) (cfg_model_id (st_cfg st)) (request_params p) (length out), out)"
proof -
  have ok: "is_ok resp" using assms(7) by (simp add: is_ok_def)
  then have c: "request_called L es E st st' resp" using handle_cases [OF assms(1-6)] by blast
  then have cfg: "st_cfg st' = st_cfg st" by (simp add: request_called_def)
  from called_records [OF c assms(3,1,4), of intent_init] ok obtain p prompt e r where
    r: "ingest (st_cfg st) (rq_bytes E) = Inr (p, prompt)" "ledger_inv (aud L) (es @ [e]) (led st')"
      "records L st (lf_norm prompt) (request_params p) e r" "receipt L E (lf_norm prompt) (request_params p) r st' resp" by blast
  moreover have "g_file (led st') = frames (aud L) (es @ [(GW_TAG_OBS, obs_text r True)])"
    using r(2,3) by (simp add: ledger_inv_def records_def)
  moreover have "obs_hash r = hex_text (commit_text (sub L) (obs_text r False))" using r(3) by (simp add: records_def)
  moreover note receipt_reads [OF r(4) assms(8) this] cfg assms(4)
  ultimately show ?thesis unfolding records_def by (metis (no_types, lifting))
qed

theorem response_is_receipt_witness:
  "\<exists>st' resp r out. handle_request sample_libs (sample_env (curl_with True 200) sample_append) sample_state = Some (st', resp) \<and>
     opt_text (obs_output r) = lf_norm out \<and> map_option snd (read_response resp) = Some out \<and>
     g_file (led st') = frames (aud sample_libs) ([] @ [(GW_TAG_OBS, obs_text r True)])"
proof -
  obtain st' resp where h: "handle_request sample_libs (sample_env (curl_with True 200) sample_append) sample_state = Some (st', resp)"
    "is_ok resp" using sample_served by blast
  have "rq_conn (sample_env (curl_with True 200) sample_append) = []" by (simp add: sample_env_def)
  from response_is_receipt [OF sample_libs_ok(4,3) sample_state_ok(1,2,4) h(1) h(2) [unfolded is_ok_def] this] h(1)
  show ?thesis by force
qed

text \<open>
  C37: The reference client and the gateway agree on requests: whatever prompt and temperature the client
  is given, what it sends is ingested as exactly that prompt with 64 tokens, that temperature
  and no \<open>top_p\<close>, if the prompt is within the limit of the gateway, and refused with
  \<open>bad_prompt_len\<close> otherwise; it is never refused for another reason.
\<close>

theorem client_request_ingested:
  assumes "client_request argument prompt = Some f" "length prompt < 2 ^ 31"
  shows "ingest cfg (f @ rest) =
    (if prompt \<noteq> [] \<and> int (length prompt) \<le> max_prompt_bytes cfg
     then Inr (\<lparr>prompt_len = int (length prompt), rq_max_tokens = 64,
       temp_q16 = (case argument of None \<Rightarrow> 0 | Some t \<Rightarrow> t), rq_top_p_q16 = -1\<rparr>, prompt)
     else Inl ''bad_prompt_len'')"
  using client_ingested [OF assms] .

theorem client_request_ingested_witness:
  "\<exists>f. client_request (Some 65536) (str ''hi'') = Some f \<and>
     ingest sample_config (f @ []) = Inr (\<lparr>prompt_len = 2, rq_max_tokens = 64, temp_q16 = 65536, rq_top_p_q16 = -1\<rparr>, str ''hi'')"
proof -
  obtain f where f: "client_request (Some 65536) (str ''hi'') = Some f" by (simp add: client_request_def)
  have "length (str ''hi'') < 2 ^ 31" by (simp add: str_def)
  from client_request_ingested [OF f this, of sample_config "[]"] f show ?thesis
    by (simp add: sample_config_def config_defaults_def) (simp add: str_def)
qed

end
