(* ===== verification/Fingerprint.thy ===== *)
theory Fingerprint
  imports Obs "HOL-Library.Sublist"
begin

text \<open>
  The fingerprint tool, \<open>ci/fingerprint.c\<close>: it admits a fixed corpus of outputs and identifiers and
  prints one line per case, which the build compares across architectures.  Every line has a
  flag that says whether the canonical text lost its output; it is shown to be 0 for every
  input, not only for the corpus.

  The text given to \<open>printf()\<close> is the result; \<open>z\<close> stands for the fault flags with every byte zero.
  The static arrays \<open>out\<close>, \<open>mid\<close> and \<open>oid\<close> keep their size: a store past the end, by \<open>memset()\<close> or by index, has the
  value \<open>None\<close>, as has a read of more bytes of an output than its array holds.
\<close>

section \<open>Model\<close>

text \<open>\<open>strstr(hay, needle) != NULL\<close>\<close>

definition strstr_found :: "byte list \<Rightarrow> byte list \<Rightarrow> bool" where
  "strstr_found hay needle = sublist needle (c_str hay)"

definition loss :: "byte list \<Rightarrow> bool" where
  \<open>loss canon \<longleftrightarrow>
     \<not> strstr_found canon (str ''"output":"","output_size":0,'') \<and> strstr_found canon (str ''"output":"",'')\<close>

definition fingerprint_input :: "int \<Rightarrow> byte list \<Rightarrow> size_t \<Rightarrow> byte list \<Rightarrow> byte list \<Rightarrow> ax_obs_input_t" where
  "fingerprint_input no out olen m r =
     \<lparr>in_completion_state = AX_COMPLETION_COMPLETE, in_failure_type = 0, in_input = Some (str ''prompt'' @ [0]), in_input_len = 6,
      in_ledger_seq = 1, in_model_id = Some m, in_oracle_id = Some r, in_output = Some out, in_output_len = olen,
      in_params = ax_oracle_params_init_null\<lparr>p_max_tokens := of_int no\<rparr>\<rparr>"

definition run :: "'ct substrate \<Rightarrow> 'ct \<Rightarrow> int \<Rightarrow> byte list \<Rightarrow> size_t \<Rightarrow> byte list \<Rightarrow> byte list \<Rightarrow> byte list option" where
  "run S z no out olen m r =
     do {
       a \<leftarrow> ax_obs_admit S (of_nat (AX_MAX_OUTPUT_BYTES + 1)) (fingerprint_input no out olen m r) ax_admission_ctx_init (ax_l3_fault_init z);
       (n, canon) \<leftarrow> (if a_rc a = AX_OK then ax_obs_canonicalise (of_nat AX_CANONICAL_BUFFER_SIZE) (a_out a) True else Some (0, []));
       let line = str ''case='' @ dec_int no @ str '' rc='' @ dec_int (a_rc a) @ str '' len='' @ dec_int n;
       let more =
         (if a_rc a = AX_OK \<and> 0 < n then
            str '' obs='' @ c_str (obs_hash (a_out a)) @ str '' canon='' @
            hex_text (take 8 (axilog_sha256 S (take (nat n) canon))) @ str '' loss='' @ dec_int (if loss canon then 1 else 0)
          else []);
       Some (line @ more @ [0x0A])
     }"

text \<open>Stores into an array.\<close>

definition store :: "byte list \<Rightarrow> nat \<Rightarrow> byte \<Rightarrow> byte list option" where
  "store b k c = (if k < length b then Some (b[k := c]) else None)"

fun stores :: "byte list \<Rightarrow> nat \<Rightarrow> byte list \<Rightarrow> byte list option" where
  "stores b k [] = Some b"
| "stores b k (c # cs) = do { b \<leftarrow> store b k c; stores b (k + 1) cs }"

definition memset_buf :: "byte list \<Rightarrow> byte \<Rightarrow> nat \<Rightarrow> byte list option" where
  "memset_buf b c n = (if n \<le> length b then Some (replicate n c @ drop n b) else None)"

text \<open>The static arrays, the counter \<open>id\<close> and what has been printed.\<close>

record fp_state =
  fp_id :: int
  fp_out :: "byte list"
  fp_mid :: "byte list"
  fp_oid :: "byte list"
  fp_text :: "byte list"

definition fp_init :: fp_state where
  "fp_init = \<lparr>fp_id = 0, fp_out = replicate (AX_MAX_OUTPUT_BYTES + 1) 0, fp_mid = replicate 300 0, fp_oid = replicate 300 0, fp_text = []\<rparr>"

text \<open>\<open>run(id++, o, olen, m, r)\<close>\<close>

definition run_next :: "'ct substrate \<Rightarrow> 'ct \<Rightarrow> byte list \<Rightarrow> size_t \<Rightarrow> byte list \<Rightarrow> byte list \<Rightarrow> fp_state \<Rightarrow> fp_state option" where
  "run_next S z out olen m r st =
     do { line \<leftarrow> run S z (fp_id st) out olen m r; Some (st\<lparr>fp_id := fp_id st + 1, fp_text := fp_text st @ line\<rparr>) }"

text \<open>The four loops of \<open>main()\<close> with the sizes they go through.\<close>

definition nls :: "nat list" where
  "nls = [0, 1, 100, 1000, 10000, 20000, 21000, 21503, 21504, 21505, 30000, 64000]"

fun newline_loop :: "'ct substrate \<Rightarrow> 'ct \<Rightarrow> nat list \<Rightarrow> fp_state \<Rightarrow> fp_state option" where
  "newline_loop S z [] st = Some st"
| "newline_loop S z (n # ns) st =
     do {
       b \<leftarrow> memset_buf (fp_out st) 0x0A n;
       b \<leftarrow> store b n 0x78;
       st \<leftarrow> run_next S z b (of_nat (n + 1)) (str ''model-1'') (str ''oracle-A'') (st\<lparr>fp_out := b\<rparr>);
       newline_loop S z ns st
     }"

definition qs :: "nat list" where
  "qs = [1, 1000, 32000, 64000, 64510]"

fun quote_loop :: "'ct substrate \<Rightarrow> 'ct \<Rightarrow> nat list \<Rightarrow> fp_state \<Rightarrow> fp_state option" where
  "quote_loop S z [] st = Some st"
| "quote_loop S z (n # ns) st =
     do {
       b \<leftarrow> memset_buf (fp_out st) 0x22 n;
       st \<leftarrow> run_next S z b (of_nat n) (str ''m'') (str ''o'') (st\<lparr>fp_out := b\<rparr>);
       quote_loop S z ns st
     }"

text \<open>The linear congruential generator of the third group: the bytes it adds at \<open>j\<close>, and one text of \<open>n\<close> bytes.\<close>

definition random_step :: "32 word \<Rightarrow> 32 word" where
  "random_step s = s * 1103515245 + 12345"

definition random_bytes :: "nat \<Rightarrow> nat \<Rightarrow> 32 word \<Rightarrow> byte list" where
  "random_bytes n j s =
     (let c = unat (drop_bit 16 s) mod 100 in
      if c < 85 then [of_nat (0x20 + unat (drop_bit 8 s) mod 95)]
      else if c < 92 \<and> j + 2 \<le> n then [0xC3, 0xA9]
      else if c < 96 \<and> j + 3 \<le> n then [0xE2, 0x82, 0xAC]
      else if c < 98 then [0x5C] else [0x22])"

lemma random_bytes_nonempty [simp]: "random_bytes n j s \<noteq> []"
  by (simp add: random_bytes_def Let_def)

function random_fill :: "nat \<Rightarrow> nat \<Rightarrow> 32 word \<Rightarrow> byte list \<Rightarrow> (32 word \<times> byte list) option" where
  "random_fill n j s b =
     (if n \<le> j then Some (s, b)
      else
        let s = random_step s; cs = random_bytes n j s in
        case stores b j cs of None \<Rightarrow> None | Some b \<Rightarrow> random_fill n (j + length cs) s b)"
  by pat_completeness auto
termination
  by (relation "measure (\<lambda>(n, j, s, b). n - j)") (auto intro!: diff_less_mono2)

declare random_fill.simps [simp del]

fun random_loop :: "'ct substrate \<Rightarrow> 'ct \<Rightarrow> nat list \<Rightarrow> 32 word \<Rightarrow> fp_state \<Rightarrow> fp_state option" where
  "random_loop S z [] s st = Some st"
| "random_loop S z (k # ks) s st =
     (let n = k * k * 7 mod 64000 in
      do {
        (s, b) \<leftarrow> random_fill n 0 s (fp_out st);
        st \<leftarrow> run_next S z b (of_nat n) (str ''model-x'') (str ''oracle-y'') (st\<lparr>fp_out := b\<rparr>);
        random_loop S z ks s st
      })"

definition ls :: "nat list" where
  "ls = [0, 1, 255, 256, 257, 299]"

fun identifier_loop :: "'ct substrate \<Rightarrow> 'ct \<Rightarrow> nat list \<Rightarrow> fp_state \<Rightarrow> fp_state option" where
  "identifier_loop S z [] st = Some st"
| "identifier_loop S z (l # ns) st =
     do {
       b \<leftarrow> memset_buf (fp_mid st) 0x6D l;
       b \<leftarrow> store b l 0;
       d \<leftarrow> memset_buf (fp_oid st) 0x6F l;
       d \<leftarrow> store d l 0;
       st \<leftarrow> run_next S z (str ''hello'' @ [0]) 5 b (str ''o'') (st\<lparr>fp_mid := b, fp_oid := d\<rparr>);
       st \<leftarrow> run_next S z (str ''hello'' @ [0]) 5 (str ''m'') d st;
       identifier_loop S z ns st
     }"

text \<open>\<open>main()\<close>: everything that is printed.\<close>

definition fingerprint :: "'ct substrate \<Rightarrow> 'ct \<Rightarrow> byte list option" where
  "fingerprint S z =
     do {
       st \<leftarrow> newline_loop S z nls fp_init;
       st \<leftarrow> quote_loop S z qs st;
       st \<leftarrow> random_loop S z [0..<300] 12345 st;
       st \<leftarrow> identifier_loop S z ls st;
       Some (fp_text st)
     }"

section \<open>The corpus\<close>

text \<open>
  What \<open>main()\<close> means to go through, without the arrays: the output, the model and the oracle of each
  case.
\<close>

type_synonym fp_case = "byte list \<times> byte list \<times> byte list"

definition newline_case :: "nat \<Rightarrow> fp_case" where
  "newline_case n = (replicate n 0x0A @ str ''x'', str ''model-1'', str ''oracle-A'')"

definition quote_case :: "nat \<Rightarrow> fp_case" where
  "quote_case n = (replicate n 0x22, str ''m'', str ''o'')"

function random_text :: "nat \<Rightarrow> 32 word \<Rightarrow> byte list \<Rightarrow> 32 word \<times> byte list" where
  "random_text n s out =
     (if n \<le> length out then (s, out)
      else let s = random_step s in random_text n s (out @ random_bytes n (length out) s))"
  by pat_completeness auto
termination
  by (relation "measure (\<lambda>(n, s, out). n - length out)") (auto intro!: diff_less_mono2)

declare random_text.simps [simp del]

fun random_cases :: "nat list \<Rightarrow> 32 word \<Rightarrow> fp_case list" where
  "random_cases [] s = []"
| "random_cases (k # ks) s =
     (case random_text (k * k * 7 mod 64000) s [] of (s, t) \<Rightarrow> (t, str ''model-x'', str ''oracle-y'') # random_cases ks s)"

definition identifier_case :: "nat \<Rightarrow> fp_case list" where
  "identifier_case l = [(str ''hello'', replicate l 0x6D, str ''o''), (str ''hello'', str ''m'', replicate l 0x6F)]"

definition corpus :: "fp_case list" where
  "corpus = map newline_case nls @ map quote_case qs @ random_cases [0..<300] 12345 @ concat (map identifier_case ls)"

section \<open>Where an empty string is written\<close>

text \<open>
  A small automaton that looks for a colon, two quotes and a comma: the only way in which a canonical
  text can hold an empty string member followed by another.
\<close>

datatype seeker = Start | Colon | Open | Shut | Found

definition seek :: "seeker \<Rightarrow> byte \<Rightarrow> seeker" where
  "seek s c =
     (if s = Found then Found else if c = 0x3A then Colon else if c = 0x22 \<and> s = Colon then Open
      else if c = 0x22 \<and> s = Open then Shut else if c = 0x2C \<and> s = Shut then Found else Start)"

lemma seek_found: "foldl seek Found t = Found"
  by (induction t) (simp_all add: seek_def)

lemma seek_complete:
  assumes "sublist (u @ [0x3A, 0x22, 0x22, 0x2C]) t"
  shows "foldl seek s t = Found"
proof -
  obtain a b where "t = a @ (u @ [0x3A, 0x22, 0x22, 0x2C]) @ b" using assms by (auto simp: sublist_def)
  moreover have "foldl seek s' [0x3A, 0x22, 0x22, 0x2C] = Found" for s' by (simp add: seek_def)
  ultimately show ?thesis by (simp only: foldl_append seek_found)
qed

lemma seek_plain:
  assumes "xs \<noteq> []" "\<forall>c\<in>set xs. c \<noteq> 0x3A \<and> c \<noteq> 0x22 \<and> c \<noteq> 0x2C" "s \<noteq> Found"
  shows "foldl seek s xs = Start"
  using assms
proof (induction xs arbitrary: s)
  case (Cons c xs)
  then have "seek s c = Start" by (auto simp: seek_def)
  with Cons show ?case by (cases "xs = []") auto
qed simp

lemma hex_digits_plain: "c \<in> set (str ''0123456789abcdef'') \<Longrightarrow> c \<noteq> 0x3A \<and> c \<noteq> 0x22 \<and> c \<noteq> 0x2C"
  unfolding hexdigits by auto

lemma seek_esc:
  assumes "s \<in> {Start, Colon, Open}"
  shows "foldl seek s (esc_byte c) \<in> {Start, Colon}"
proof -
  have "foldl seek s' (hex_byte c) = Start" if "s' \<noteq> Found" for s'
    using that hex_byte_chars [of c] hex_digits_plain by (intro seek_plain) (auto simp: hex_byte_def)
  then show ?thesis using assms by (auto simp: esc_byte_def seek_def)
qed

lemma seek_escape: "s \<in> {Start, Colon, Open} \<Longrightarrow> t \<noteq> [] \<Longrightarrow> foldl seek s (escape t) \<in> {Start, Colon}"
proof (induction t arbitrary: s)
  case (Cons c t)
  have "foldl seek s (esc_byte c) \<in> {Start, Colon}" using seek_esc Cons.prems(1) .
  with Cons.IH [of "foldl seek s (esc_byte c)"] show ?case by (cases "t = []") (auto simp: escape_def)
qed simp

text \<open>The parts of a canonical text: what the automaton does on each.\<close>

lemma seek_string: "t \<noteq> [] \<Longrightarrow> seek (seek (foldl seek Open (escape t)) 0x22) 0x2C = Start"
  using seek_escape [of Open t] by (auto simp: seek_def)

lemma seek_hex: "b \<noteq> [] \<Longrightarrow> foldl seek Open (hex_text b) = Start"
  using hex_byte_chars hex_digits_plain by (intro seek_plain) (fastforce simp: hex_text_def hex_byte_def neq_Nil_conv)+

lemma seek_number: "foldl seek Colon (dec n) = Start" "foldl seek Colon (dec_int x) = Start"
proof -
  have d: "c \<noteq> 0x3A \<and> c \<noteq> 0x22 \<and> c \<noteq> 0x2C" if "c \<in> set (dec n)" for c n
    using dec_digits [OF that] by auto
  show "foldl seek Colon (dec n) = Start" by (intro seek_plain) (use d in auto)
  show "foldl seek Colon (dec_int x) = Start" by (intro seek_plain) (use d in \<open>auto simp: dec_int_def\<close>)
qed

lemma seek_states: "foldl seek Colon (completion_text s) = Start" "foldl seek Colon (failure_text t) = Start"
  by (simp_all add: completion_text_def failure_text_def str_def seek_def)

lemma seek_params: "foldl seek Colon (params_text p) = Start"
proof -
  have n: "foldl seek Colon (param_text b x) = Start" for b x
    by (simp add: param_text_def seek_number) (simp add: str_def seek_def)
  show ?thesis unfolding params_text_def foldl_append by (simp add: str_def seek_def n)
qed

lemma seek_record:
  assumes "input_hash r \<noteq> []" "opt_text (model_id r) \<noteq> []" "opt_text (oracle_id r) \<noteq> []" "opt_text (obs_output r) \<noteq> []"
    and "c_str (obs_hash r) = hex_text b" "b \<noteq> []" "opt_text (schema_version r) = AX_OBS_SCHEMA_VERSION"
  shows "foldl seek Start (obs_text r True) = Start"
proof -
  have n: "seek Start c = (if c = 0x3A then Colon else Start)" "seek Colon 0x22 = Open" "seek Start 0x2C = Start" for c
    by (simp_all add: seek_def)
  show ?thesis
    unfolding obs_text_def foldl_append if_True assms(5,7)
    using assms by (simp add: str_def AX_OBS_SCHEMA_VERSION_def n seek_states seek_hex seek_number seek_string seek_params) (simp add: seek_def)
qed

lemma no_nul_str: "CHR 0x00 \<notin> set s \<Longrightarrow> 0 \<notin> set (str s)"
  by (auto simp: str_def dest!: sym [of 0] simp: of_char_eq_0_iff)

lemma obs_text_no_nul: "0 \<notin> set (obs_text r h)"
proof -
  have "0 \<notin> set (escape t)" for t using canon.escaped_no_nul [of t] by (simp add: escape_def)
  moreover have "0 \<notin> set (opt_text t)" for t by (simp add: opt_text_def split: option.split)
  ultimately show ?thesis by (simp add: obs_text_def completion_text_def failure_text_def no_nul_str)
qed

text \<open>An empty output and its size.\<close>

lemma obs_text_empty:
  assumes "opt_text (obs_output r) = []" "output_size r = 0"
  shows \<open>sublist (str ''"output":"","output_size":0,'') (obs_text r h)\<close>
proof -
  let ?v = \<open>str ''{"completion_state":'' @ completion_text (completion_state r) @ str '',"failure_type":'' @ failure_text (failure_type r) @
     str '',"input_hash":"'' @ hex_text (input_hash r) @ str ''","ledger_seq":'' @ dec (unat (ledger_seq r)) @
     str '',"model_id":"'' @ escape (opt_text (model_id r)) @ str ''","obs_hash":"'' @ (if h then c_str (obs_hash r) else []) @
     str ''","oracle_id":"'' @ escape (opt_text (oracle_id r))\<close>
  let ?w = \<open>params_text (params r) @ str '',"schema_version":"'' @ opt_text (schema_version r) @ str ''"}''\<close>
  have "dec (unat (output_size r)) = [48]" by (simp add: assms(2) dec.simps)
  then have \<open>obs_text r h = ?v @ str ''","output":"'' @ str ''","output_size":'' @ [48] @ str '',"params":'' @ ?w\<close>
    by (simp add: obs_text_def assms(1) escape_def)
  also have \<open>\<dots> = (?v @ str ''",'') @ str ''"output":"","output_size":0,'' @ (str ''"params":'' @ ?w)\<close>
    by (simp add: str_def)
  finally show ?thesis unfolding sublist_def by blast
qed

lemma strstr_text: "strstr_found (obs_text r h @ [0]) needle \<longleftrightarrow> sublist needle (obs_text r h)"
  by (simp add: strstr_found_def obs_text_no_nul)

text \<open>An empty output is written with the size 0, so the text of a record never counts as a loss.\<close>

lemma record_no_loss:
  assumes "digests_32 S" "readable i" "admit_code S n i ctx = AX_OK"
  shows "\<not> loss (obs_text (hashed S (obs_of S i)) True @ [0])"
proof -
  note c = admit_code_ok [OF assms(3)]
  let ?r = "hashed S (obs_of S i)" and ?b = "commit_text S (obs_text (obs_of S i) False)"
  have out: "opt_text (obs_output ?r) = lf_norm (out_src i)" using opt_text_obs_of [OF c(5)] by (simp add: hashed_def)
  show ?thesis
  proof (cases "out_src i = []")
    case True
    then have "\<not> over_limit i" using schema_valid_over_limit [OF c(2) assms(2)] by blast
    with True out have "opt_text (obs_output ?r) = []" "output_size ?r = 0" by (simp_all add: hashed_def obs_of_def)
    from obs_text_empty [OF this] show ?thesis by (simp add: loss_def strstr_text)
  next
    case False
    have "opt_text (in_model_id i) \<noteq> []" "opt_text (in_oracle_id i) \<noteq> []"
      using c(2) by (auto simp: input_is_schema_valid_def id_well_formed_iff id_text_def split: if_splits)
    moreover have "?b \<noteq> []" "input_digest S i \<noteq> []"
      using assms(1) length_input_digest [OF assms(1), of i] by (auto simp: digests_32_def commit_text_def AX_HASH_SIZE_def simp flip: length_0_conv)
    ultimately have "foldl seek Start (obs_text ?r True) = Start"
      using out False
      by (intro seek_record [where b = ?b]) (simp_all add: hashed_def, simp_all add: obs_of_def opt_text_def)
    moreover have \<open>str ''"output":"",'' = str ''"output"'' @ [0x3A, 0x22, 0x22, 0x2C]\<close> by (simp add: str_def)
    ultimately show ?thesis using seek_complete [of \<open>str ''"output"''\<close> "obs_text ?r True" Start]
      by (auto simp: loss_def strstr_text)
  qed
qed

section \<open>The lines\<close>

definition fp_line :: "'ct substrate \<Rightarrow> int \<Rightarrow> fp_case \<Rightarrow> byte list" where
  "fp_line S no c =
     (case c of (out, m, r) \<Rightarrow>
      let i = fingerprint_input no out (of_nat (length out)) m r; rc = admit_code S (of_nat (AX_MAX_OUTPUT_BYTES + 1)) i ax_admission_ctx_init;
          rec = hashed S (obs_of S i); t = obs_text rec True
      in str ''case='' @ dec_int no @ str '' rc='' @ dec_int rc @
         (if rc = AX_OK then
            str '' len='' @ dec_int (int (length t)) @ str '' obs='' @ obs_hash rec @ str '' canon='' @
            hex_text (take 8 (axilog_sha256 S t)) @ str '' loss=0''
          else str '' len=0'') @ [0x0A])"

text \<open>A case in an array gives the line of its text.\<close>

lemma array_input:
  assumes "unat n = length out" "take (length out) b = out" "c_str m' = c_str m" "c_str r' = c_str r"
    and i: "i = fingerprint_input no b n m' r'" and j: "j = fingerprint_input no out n m r"
  shows "obs_text (obs_of S i) h = obs_text (obs_of S j) h" "obs_hash (hashed S (obs_of S i)) = obs_hash (hashed S (obs_of S j))"
    "obs_text (hashed S (obs_of S i)) h = obs_text (hashed S (obs_of S j)) h" "admit_code S k i ctx = admit_code S k j ctx"
proof -
  have "take (min a (length out)) b = take a out" for a using assms(2) by (metis take_take)
  moreover have "take (min a (length out)) out = take a out" for a by (simp add: min_def)
  ultimately have t: "take (min a (length out)) b = take (min a (length out)) out" for a by (simp only:)
  have o: "out_src i = out_src j" "over_limit i = over_limit j" "input_digest S i = input_digest S j" "in_output_len i = in_output_len j"
    using assms(1) t by (simp_all add: i j fingerprint_input_def out_src_def over_limit_def input_digest_def)
  have c: "obs_of S i = (obs_of S j)\<lparr>model_id := Some m', oracle_id := Some r'\<rparr>"
    using o by (simp add: obs_of_def) (simp add: i j fingerprint_input_def)
  have m: "model_id (obs_of S j) = Some m" "oracle_id (obs_of S j) = Some r" by (simp_all add: obs_of_def j fingerprint_input_def)
  show x: "obs_text (obs_of S i) h = obs_text (obs_of S j) h" for h
    using m assms(3,4) by (simp add: c obs_text_def opt_text_def)
  then show y: "obs_hash (hashed S (obs_of S i)) = obs_hash (hashed S (obs_of S j))" by (simp add: hashed_def)
  show z: "obs_text (hashed S (obs_of S i)) h = obs_text (hashed S (obs_of S j)) h" for h
    using m assms(3,4) x by (simp add: hashed_def) (simp add: c obs_text_def opt_text_def)
  have "input_is_schema_valid i = input_is_schema_valid j"
    using assms(3,4) by (simp add: input_is_schema_valid_def i j fingerprint_input_def id_is_well_formed_def)
  moreover have "opt_text (in_model_id i) = opt_text (in_model_id j)" "opt_text (in_oracle_id i) = opt_text (in_oracle_id j)"
    "in_ledger_seq i = in_ledger_seq j" using assms(3,4) by (simp_all add: i j fingerprint_input_def opt_text_def)
  ultimately show "admit_code S k i ctx = admit_code S k j ctx" using o x z by (simp add: admit_code_def)
qed

lemma run_line:
  assumes "digests_32 S" "unat n \<le> length b"
  shows "run S z no b n m r = Some (fp_line S no (take (unat n) b, m, r))"
proof -
  let ?i = "fingerprint_input no b n m r" and ?n = "of_nat (AX_MAX_OUTPUT_BYTES + 1) :: size_t" and ?out = "take (unat n) b"
  let ?j = "fingerprint_input no ?out n m r"
  have len: "length ?out = unat n" "of_nat (length ?out) = n" using assms(2) by simp_all
  have rd: "readable ?i" using assms(2) by (simp add: readable_def fingerprint_input_def str_def)
  have z: "?n \<noteq> 0" by (simp add: limit_defs)
  obtain a where a: "ax_obs_admit S ?n ?i ax_admission_ctx_init (ax_l3_fault_init z) = Some a" "a_rc a = admit_code S ?n ?i ax_admission_ctx_init"
    "admit_post S ?i ax_admission_ctx_init (ax_l3_fault_init z) a" using admit_complete [OF assms(1) z rd] by blast
  have p: "unat n = length ?out" "take (length ?out) b = ?out" by (simp_all only: len)
  note same = array_input(2-4) [OF p refl refl refl refl, symmetric]
  have fl: "fp_line S no (?out, m, r) = str ''case='' @ dec_int no @ str '' rc='' @ dec_int (a_rc a) @
      (if a_rc a = AX_OK then
         str '' len='' @ dec_int (int (length (obs_text (hashed S (obs_of S ?i)) True))) @ str '' obs='' @ obs_hash (hashed S (obs_of S ?i)) @
         str '' canon='' @ hex_text (take 8 (axilog_sha256 S (obs_text (hashed S (obs_of S ?i)) True))) @ str '' loss=0''
       else str '' len=0'') @ [0x0A]"
    unfolding a(2) fp_line_def prod.case Let_def len(2) same ..
  have zero: "dec_int 0 = [48]" by (simp add: dec_int_def dec.simps)
  show ?thesis
  proof (cases "a_rc a = AX_OK")
    case False
    with a show ?thesis by (simp add: run_def fl Let_def zero) (simp add: str_def)
  next
    case True
    let ?r = "hashed S (obs_of S ?i)" and ?t = "obs_text (hashed S (obs_of S ?i)) True"
    have r: "a_out a = ?r" using a(3) True by (simp add: admit_post_def)
    note c = admit_code_ok [OF a(2) [symmetric, unfolded True]]
    have "length ?t < AX_CANONICAL_BUFFER_SIZE" using c(9) by (simp add: limit_defs)
    then have "ax_obs_canonicalise (of_nat AX_CANONICAL_BUFFER_SIZE) ?r True = Some (int (length ?t), ?t @ [0])"
      using obs_canonicalise_131072 [of ?r True] length_input_digest [OF assms(1)] by simp
    moreover have "\<not> loss (?t @ [0])" using record_no_loss [OF assms(1) rd a(2) [symmetric, unfolded True]] .
    moreover have "?t \<noteq> []" by (simp add: obs_text_def str_def)
    moreover have "c_str (obs_hash ?r) = obs_hash ?r" by (simp add: hashed_def)
    ultimately show ?thesis
      using a(1,2) True r by (simp add: run_def fl Let_def zero) (simp add: str_def)
  qed
qed

lemma line_c_str:
  assumes "c_str m' = c_str m" "c_str r' = c_str r" "length out < 2 ^ 64"
  shows "fp_line S no (out, m', r') = fp_line S no (out, m, r)"
  using array_input [OF _ _ assms(1,2) refl refl, where n = "of_nat (length out)" and out = out and b = out and S = S] unat_of_nat_size [OF assms(3)]
  by (simp add: fp_line_def Let_def)

section \<open>The loops\<close>

fun fp_lines :: "'ct substrate \<Rightarrow> int \<Rightarrow> fp_case list \<Rightarrow> byte list" where
  "fp_lines S no [] = []"
| "fp_lines S no (c # cs) = fp_line S no c @ fp_lines S (no + 1) cs"

lemma fp_lines_append: "fp_lines S no (cs @ ds) = fp_lines S no cs @ fp_lines S (no + int (length cs)) ds"
  by (induction cs arbitrary: no) (simp_all add: algebra_simps)

lemma fp_lines_enumerate: "fp_lines S (int n) cs = concat (map (\<lambda>(k, c). fp_line S (int k) c) (enumerate n cs))"
  by (induction cs arbitrary: n) (simp_all, metis add.commute of_nat_Suc)

text \<open>After the cases: their lines have been printed, and the arrays have their sizes.\<close>

definition fp_done :: "'ct substrate \<Rightarrow> fp_state \<Rightarrow> fp_case list \<Rightarrow> fp_state \<Rightarrow> bool" where
  "fp_done S st cs st' \<longleftrightarrow> fp_id st' = fp_id st + int (length cs) \<and> fp_text st' = fp_text st @ fp_lines S (fp_id st) cs \<and>
     length (fp_out st') = length (fp_out st) \<and> length (fp_mid st') = length (fp_mid st) \<and> length (fp_oid st') = length (fp_oid st)"

lemma fp_done_trans: "fp_done S a cs b \<Longrightarrow> fp_done S b ds c \<Longrightarrow> fp_done S a (cs @ ds) c"
  by (auto simp: fp_done_def fp_lines_append)

definition sized :: "fp_state \<Rightarrow> bool" where
  "sized st \<longleftrightarrow> length (fp_out st) = AX_MAX_OUTPUT_BYTES + 1 \<and> length (fp_mid st) = 300 \<and> length (fp_oid st) = 300"

lemma fp_done_sized: "fp_done S a cs b \<Longrightarrow> sized a \<Longrightarrow> sized b"
  by (simp add: fp_done_def sized_def)

lemma run_next_done:
  assumes "digests_32 S" "sized st" "n \<le> length b" "n < 2 ^ 64" "take n b = out" "c_str m' = c_str m" "c_str r' = c_str r"
    and "fp_id st' = fp_id st" "fp_text st' = fp_text st" "sized st'"
  shows "\<exists>st2. run_next S z b (of_nat n) m' r' st' = Some st2 \<and> fp_done S st [(out, m, r)] st2 \<and> sized st2"
proof -
  have n: "unat (of_nat n :: size_t) = n" using assms(4) by (simp add: unsigned_of_nat take_bit_nat_eq_self)
  have "length out < 2 ^ 64" using assms(3-5) by auto
  with run_line [OF assms(1), of "of_nat n" b] n assms(3,5-) line_c_str [OF assms(6,7), of out S] assms(2) show ?thesis
    by (simp add: run_next_def fp_done_def sized_def)
qed

lemma newline_done: "digests_32 S \<Longrightarrow> sized st \<Longrightarrow> \<forall>n\<in>set ns. n \<le> AX_MAX_OUTPUT_BYTES \<Longrightarrow>
  \<exists>st'. newline_loop S z ns st = Some st' \<and> fp_done S st (map newline_case ns) st' \<and> sized st'"
proof (induction ns arbitrary: st)
  case (Cons n ns)
  let ?b = "replicate n 0x0A @ drop n (fp_out st)"
  have l: "length (fp_out st) = AX_MAX_OUTPUT_BYTES + 1" "n \<le> AX_MAX_OUTPUT_BYTES" using Cons.prems by (simp_all add: sized_def)
  then have b: "memset_buf (fp_out st) 0x0A n = Some ?b" "store ?b n 0x78 = Some (?b[n := 0x78])"
    by (simp_all add: memset_buf_def store_def)
  have t: "take (n + 1) (?b[n := 0x78]) = replicate n 0x0A @ str ''x''" using l by (simp add: take_update_swap list_update_append str_def Cons_nth_drop_Suc [symmetric] del: drop_Suc_Cons)
  have "n + 1 \<le> length (?b[n := 0x78])" "n + 1 < 2 ^ 64" using l by (simp_all add: limit_defs)
  from run_next_done [OF Cons.prems(1,2) this t refl refl, of "st\<lparr>fp_out := ?b[n := 0x78]\<rparr>" z "str ''model-1''" "str ''oracle-A''"]
  obtain st2 where s: "run_next S z (?b[n := 0x78]) (of_nat (n + 1)) (str ''model-1'') (str ''oracle-A'') (st\<lparr>fp_out := ?b[n := 0x78]\<rparr>) = Some st2"
    "fp_done S st [newline_case n] st2" "sized st2"
    using l Cons.prems(2) unfolding newline_case_def by (auto simp: sized_def)
  from Cons.IH [OF Cons.prems(1) s(3)] Cons.prems(3) obtain st' where
    "newline_loop S z ns st2 = Some st'" "fp_done S st2 (map newline_case ns) st'" "sized st'" by auto
  with b s fp_done_trans [OF s(2)] show ?case by auto
qed (simp add: fp_done_def)

lemma quote_done: "digests_32 S \<Longrightarrow> sized st \<Longrightarrow> \<forall>n\<in>set ns. n \<le> AX_MAX_OUTPUT_BYTES + 1 \<Longrightarrow>
  \<exists>st'. quote_loop S z ns st = Some st' \<and> fp_done S st (map quote_case ns) st' \<and> sized st'"
proof (induction ns arbitrary: st)
  case (Cons n ns)
  let ?b = "replicate n 0x22 @ drop n (fp_out st)"
  have l: "length (fp_out st) = AX_MAX_OUTPUT_BYTES + 1" "n \<le> AX_MAX_OUTPUT_BYTES + 1" using Cons.prems by (simp_all add: sized_def)
  then have b: "memset_buf (fp_out st) 0x22 n = Some ?b" by (simp add: memset_buf_def)
  have "n \<le> length ?b" "n < 2 ^ 64" "take n ?b = replicate n 0x22" using l by (simp_all add: limit_defs)
  from run_next_done [OF Cons.prems(1,2) this refl refl, of "st\<lparr>fp_out := ?b\<rparr>" z "str ''m''" "str ''o''"]
  obtain st2 where s: "run_next S z ?b (of_nat n) (str ''m'') (str ''o'') (st\<lparr>fp_out := ?b\<rparr>) = Some st2"
    "fp_done S st [quote_case n] st2" "sized st2"
    using l Cons.prems(2) unfolding quote_case_def by (auto simp: sized_def)
  from Cons.IH [OF Cons.prems(1) s(3)] Cons.prems(3) obtain st' where
    "quote_loop S z ns st2 = Some st'" "fp_done S st2 (map quote_case ns) st'" "sized st'" by auto
  with b s fp_done_trans [OF s(2)] show ?case by auto
qed (simp add: fp_done_def)

lemma stores_eq: "j + length cs \<le> length b \<Longrightarrow> stores b j cs = Some (take j b @ cs @ drop (j + length cs) b)"
proof (induction cs arbitrary: j b)
  case (Cons c cs)
  then have "store b j c = Some (b[j := c])" "take (Suc j) (b[j := c]) = take j b @ [c]"
    by (simp_all add: store_def take_Suc_conv_app_nth)
  with Cons show ?case by simp
qed simp

lemma random_bytes_fit: "j < n \<Longrightarrow> j + length (random_bytes n j s) \<le> n"
  by (auto simp: random_bytes_def Let_def)

lemma random_fill_text:
  assumes "length out \<le> n" "n \<le> length b" "take (length out) b = out"
  shows "\<exists>b'. random_fill n (length out) s b = Some (fst (random_text n s out), b') \<and> take n b' = snd (random_text n s out) \<and> length b' = length b"
  using assms
proof (induction n s out arbitrary: b rule: random_text.induct)
  case (1 n s out)
  show ?case
  proof (cases "n \<le> length out")
    case True
    with "1.prems" show ?thesis by (simp add: random_fill.simps [of n] random_text.simps [of n])
  next
    case False
    let ?s = "random_step s"
    let ?cs = "random_bytes n (length out) ?s"
    let ?b = "out @ ?cs @ drop (length out + length ?cs) b"
    have f: "length out + length ?cs \<le> n" using random_bytes_fit False by simp
    then have st: "stores b (length out) ?cs = Some ?b" using stores_eq [of "length out" ?cs b] "1.prems"(2,3) by simp
    have "length (out @ ?cs) \<le> n" "n \<le> length ?b" "take (length (out @ ?cs)) ?b = out @ ?cs" "length ?b = length b"
      using f "1.prems"(2) by simp_all
    with "1.IH" [OF False refl, of ?b] st False show ?thesis
      by (simp add: random_fill.simps [of n "length out" s] random_text.simps [of n s out] Let_def)
  qed
qed

lemma random_done: "digests_32 S \<Longrightarrow> sized st \<Longrightarrow>
  \<exists>st'. random_loop S z ks s st = Some st' \<and> fp_done S st (random_cases ks s) st' \<and> sized st'"
proof (induction ks arbitrary: s st)
  case (Cons k ks)
  let ?n = "k * k * 7 mod 64000"
  obtain s2 t where t: "random_text ?n s [] = (s2, t)" by fastforce
  have l: "length (fp_out st) = AX_MAX_OUTPUT_BYTES + 1" using Cons.prems by (simp add: sized_def)
  moreover have n: "?n < 64000" by simp
  ultimately have "?n \<le> length (fp_out st)" by (simp add: limit_defs)
  with random_fill_text [of "[]" ?n "fp_out st" s] t obtain b where
    b: "random_fill ?n 0 s (fp_out st) = Some (s2, b)" "take ?n b = t" "length b = length (fp_out st)" by auto
  have "?n \<le> length b" "?n < 2 ^ 64" using n l b(3) by (simp_all add: limit_defs)
  from run_next_done [OF Cons.prems(1,2) this b(2) refl refl, of "st\<lparr>fp_out := b\<rparr>" z "str ''model-x''" "str ''oracle-y''"]
  obtain st2 where s: "run_next S z b (of_nat ?n) (str ''model-x'') (str ''oracle-y'') (st\<lparr>fp_out := b\<rparr>) = Some st2"
    "fp_done S st [(t, str ''model-x'', str ''oracle-y'')] st2" "sized st2"
    using b(3) Cons.prems(2) by (auto simp: sized_def)
  from Cons.IH [OF Cons.prems(1) s(3), of s2] obtain st' where
    "random_loop S z ks s2 st2 = Some st'" "fp_done S st2 (random_cases ks s2) st'" "sized st'" by auto
  with b s fp_done_trans [OF s(2)] t show ?case by (auto simp: Let_def)
qed (simp add: fp_done_def)

text \<open>A name of \<open>l\<close> bytes in an array.\<close>

lemma named_array:
  assumes "length b = 300" "l < 300" "c \<noteq> 0"
  shows "\<exists>d. memset_buf b c l = Some d \<and> (\<exists>e. store d l 0 = Some e \<and> length e = 300 \<and> c_str e = c_str (replicate l c))"
proof -
  have "drop l b = b ! l # drop (Suc l) b" using assms by (simp add: Cons_nth_drop_Suc)
  then have "(replicate l c @ drop l b)[l := 0] = replicate l c @ 0 # drop (Suc l) b" by (simp add: list_update_append)
  moreover have "c_str (replicate l c @ 0 # u) = replicate l c" "c_str (replicate l c) = replicate l c" for u
    using assms(3) by (induction l) (auto simp: c_str_def)
  ultimately show ?thesis using assms by (simp add: memset_buf_def store_def)
qed

lemma identifier_done: "digests_32 S \<Longrightarrow> sized st \<Longrightarrow> \<forall>l\<in>set ns. l < 300 \<Longrightarrow>
  \<exists>st'. identifier_loop S z ns st = Some st' \<and> fp_done S st (concat (map identifier_case ns)) st' \<and> sized st'"
proof (induction ns arbitrary: st)
  case (Cons l ns)
  let ?h = "str ''hello'' @ [0]"
  have len: "length (fp_mid st) = 300" "length (fp_oid st) = 300" "l < 300" using Cons.prems by (simp_all add: sized_def)
  obtain d b where b: "memset_buf (fp_mid st) 0x6D l = Some d" "store d l 0 = Some b" "length b = 300" "c_str b = c_str (replicate l 0x6D)"
    using named_array [OF len(1,3), of "0x6D"] by auto
  obtain e q where q: "memset_buf (fp_oid st) 0x6F l = Some e" "store e l 0 = Some q" "length q = 300" "c_str q = c_str (replicate l 0x6F)"
    using named_array [OF len(2,3), of "0x6F"] by auto
  have h: "5 \<le> length ?h" "(5 :: nat) < 2 ^ 64" "take 5 ?h = str ''hello''" by (simp_all add: str_def)
  obtain st1 where s1: "run_next S z ?h 5 b (str ''o'') (st\<lparr>fp_mid := b, fp_oid := q\<rparr>) = Some st1"
    "fp_done S st [(str ''hello'', replicate l 0x6D, str ''o'')] st1" "sized st1"
    using run_next_done [OF Cons.prems(1,2) h b(4) refl, of "st\<lparr>fp_mid := b, fp_oid := q\<rparr>" z "str ''o''"] b(3) q(3) Cons.prems(2)
    by (auto simp: sized_def)
  obtain st2 where s2: "run_next S z ?h 5 (str ''m'') q st1 = Some st2" "fp_done S st1 [(str ''hello'', str ''m'', replicate l 0x6F)] st2" "sized st2"
    using run_next_done [OF Cons.prems(1) s1(3) h refl q(4), of st1 z "str ''m''"] s1(3) by auto
  from Cons.IH [OF Cons.prems(1) s2(3)] Cons.prems(3) obtain st' where
    s: "identifier_loop S z ns st2 = Some st'" "fp_done S st2 (concat (map identifier_case ns)) st'" "sized st'" by auto
  have "fp_done S st (identifier_case l @ concat (map identifier_case ns)) st'"
    using fp_done_trans [OF fp_done_trans [OF s1(2) s2(2)] s(2)] by (simp add: identifier_case_def)
  with b q s1(1) s2(1) s(1,3) show ?case by simp
qed (simp add: fp_done_def)

lemma sizes_fit:
  "\<forall>n\<in>set nls. n \<le> AX_MAX_OUTPUT_BYTES" "\<forall>n\<in>set qs. n \<le> AX_MAX_OUTPUT_BYTES + 1" "\<forall>l\<in>set ls. l < 300"
  by (simp_all add: nls_def qs_def ls_def limit_defs)

lemma fingerprint_lines:
  assumes "digests_32 S"
  shows "fingerprint S z = Some (fp_lines S 0 corpus)"
proof -
  have "sized fp_init" by (simp add: sized_def fp_init_def)
  then obtain st1 where 1: "newline_loop S z nls fp_init = Some st1" "fp_done S fp_init (map newline_case nls) st1" "sized st1"
    using newline_done [OF assms _ sizes_fit(1)] by blast
  obtain st2 where 2: "quote_loop S z qs st1 = Some st2" "fp_done S st1 (map quote_case qs) st2" "sized st2"
    using quote_done [OF assms 1(3) sizes_fit(2)] by blast
  obtain st3 where 3: "random_loop S z [0..<300] 12345 st2 = Some st3" "fp_done S st2 (random_cases [0..<300] 12345) st3" "sized st3"
    using random_done [OF assms 2(3)] by blast
  obtain st4 where 4: "identifier_loop S z ls st3 = Some st4" "fp_done S st3 (concat (map identifier_case ls)) st4"
    using identifier_done [OF assms 3(3) sizes_fit(3)] by blast
  have "fp_done S fp_init corpus st4"
    using fp_done_trans [OF 1(2) fp_done_trans [OF 2(2) fp_done_trans [OF 3(2) 4(2)]]] by (simp add: corpus_def)
  then have "fp_text st4 = fp_lines S 0 corpus" by (simp add: fp_done_def fp_init_def)
  with 1(1) 2(1) 3(1) 4(1) show ?thesis unfolding fingerprint_def by (simp only: bind.bind_lunit)
qed

section \<open>Properties\<close>

text \<open>
  C36: The fingerprint is what it claims to be: \<open>main()\<close> runs without a store outside the static arrays \<open>out\<close>,
  \<open>mid\<close> and \<open>oid\<close> and without an access out of bounds in admission and serialisation, and
  prints, in the order of the corpus, one line per case: its number, the return code of admission, and for an
  admitted case the length, the hash and a digest of the canonical text, with a loss flag of 0.  The
  line of a case is that for every array, length within it and identifiers whatever: a canonical text never
  drops an output.
\<close>

theorem fingerprint_no_loss:
  assumes "digests_32 S"
  shows "fingerprint S z = Some (concat (map (\<lambda>(k, c). fp_line S (int k) c) (enumerate 0 corpus))) \<and>
    (\<forall>no b n m r. unat n \<le> length b \<longrightarrow> run S z no b n m r = Some (fp_line S no (take (unat n) b, m, r)))"
  using fingerprint_lines [OF assms, of z] fp_lines_enumerate [of S 0 corpus] run_line [OF assms, of _ _ z] by simp

theorem fingerprint_no_loss_witness:
  "fingerprint sample_substrate () = Some (concat (map (\<lambda>(k, c). fp_line sample_substrate (int k) c) (enumerate 0 corpus))) \<and>
   run sample_substrate () 7 (str ''hi'') 2 (str ''m'') (str ''o'') = Some (fp_line sample_substrate 7 (str ''hi'', str ''m'', str ''o''))"
proof -
  have "take (unat (2 :: size_t)) (str ''hi'') = str ''hi''" "unat (2 :: size_t) \<le> length (str ''hi'')" by (simp_all add: str_def)
  then show ?thesis using fingerprint_no_loss [OF sample_substrate_ok(1)] by metis
qed

end
