(* ===== verification/Spec2Isabelle.thy ===== *)
theory Spec2Isabelle
  imports Encoding Canonical Obs GwJson GwLedger GwLog GwWal GwConfig GwClient JsonObject GwContent RecordJson GwRequest GwService GwNotify GwStart GwLife GwAudit GwProtocol Fingerprint
begin

text \<open>
  \<^bold>\<open>A verification development for axioma-oracle.\<close>

  \<^bold>\<open>The program.\<close>  The repository holds a library and a service.  The library, \<open>src/\<close> with the
  headers \<open>include/axilog/\<close>, turns what an oracle (a language model behind an API) answered into a
  canonical, hashed observation record, or refuses it.  The service, \<open>gateway/\<close>, takes prompts on a
  local socket, writes a durable intent, calls the oracle over HTTP, admits the answer through the
  library, appends the record to a hash-chained ledger file and answers the caller.  After a crash
  it closes an intent that was left open.

  \<^bold>\<open>Theories and sources.\<close>
    \<^item> \<open>Prelude\<close>: C types, caller-owned buffers, numerals, shared lemmas; the locales \<open>text_sink\<close>,
      \<open>escaper\<close>, \<open>escaping_sink\<close> (what a writer of escaped text promises) and \<open>sequence_guard\<close>.
    \<^item> \<open>L3Types\<close>: \<open>l3_types.h\<close>, \<open>limits.h\<close>, \<open>oracle.h\<close>, \<open>obs.h\<close>.  Structs are records; enumerations
      are integers with named values, since a C enumeration may hold others.
    \<^item> \<open>Encoding\<close>: \<open>validate.c\<close>.  \<open>Canonical\<close>: \<open>canonical.c\<close>.  \<open>Obs\<close>: \<open>hash.c\<close>, \<open>obs.c\<close>, \<open>admission.c\<close>;
      \<open>ax_obs_admit\<close> is divided at its sections into \<open>admit_output\<close>, \<open>admit_fields\<close>, \<open>admit_seal\<close>.
    \<^item> \<open>GwJson\<close>: \<open>gw_json.c\<close>.  \<open>GwLedger\<close>: \<open>gw_ledger.c\<close>, with the locale \<open>crash_safe\<close>.
    \<^item> \<open>JsonObject\<close>: which texts the scanner takes for a value, and reading a member of an object.
      \<open>GwContent\<close>: the bodies of answers that \<open>gwj_content_text\<close> reads, with other members, other types of block and blanks.
      \<open>RecordJson\<close>: the canonical record of the library read by the scanner of the gateway.
    \<^item> \<open>CText\<close>: what the gateway uses of \<open>fgets\<close> and \<open>strtol\<close>.  \<open>GwLog\<close>: \<open>gw_log.c\<close>.  \<open>GwWal\<close>: \<open>gw_wal.c\<close>.
      \<open>GwConfig\<close>: \<open>gw_config.c\<close>.  \<open>GwClient\<close>: \<open>gw_client.c\<close>.  \<open>GwNotify\<close>: \<open>gw_notify.c\<close>.
    \<^item> \<open>GwRequest\<close>, \<open>GwService\<close>, \<open>GwStart\<close>: \<open>gw_main.c\<close>.  \<open>GwRequest\<close> has the pure parts (line protocol,
      request body, response header); \<open>GwService\<close> has \<open>commit_observation\<close> and \<open>handle_request\<close>, divided
      at its numbered steps into \<open>ingest\<close>, \<open>normalise_prompt\<close>, \<open>spend\<close>, \<open>call_oracle\<close>, \<open>oracle_outcome\<close>,
      \<open>commit_or_degrade\<close>, \<open>close_intent\<close> and \<open>respond\<close>; \<open>GwStart\<close> has \<open>recover_wal\<close>, \<open>main\<close> up to the accept
      loop (\<open>gw_start\<close>), the loop (\<open>serve\<close>) and \<open>shutdown\<close>.
    \<^item> \<open>GwLife\<close>: the service over many processes, a step relation of requests, stops and starts on what
      is in memory and on disk.  \<open>GwAudit\<close>: what the evidence file holds along such runs, with the locale
      \<open>framing\<close> of files that are sequences of self-delimiting frames.
    \<^item> \<open>GwProtocol\<close>: \<open>gw-client.py\<close>, the reference client, and the framing of responses that the
      README of the gateway makes normative.
    \<^item> \<open>Fingerprint\<close>: \<open>ci/fingerprint.c\<close>, the program whose lines the build compares across machines.

  \<^bold>\<open>Conventions.\<close>  A function that may read or write outside an object returns an option, \<open>None\<close> being
  undefined behaviour, so a theorem that gives \<open>Some\<close> also says that no access is out of bounds.
  Machine integers keep their width wherever the code can wrap.  Code outside the repository is a
  parameter: the record \<open>substrate\<close> (\<open>axilog_sha256\<close>, \<open>axilog_commit\<close> and the fault flags), the record
  \<open>audit\<close> (\<open>ax_commit_evidence\<close>, the chain of \<open>ax_ledger_*\<close>), and \<open>curl_env\<close> (what libcurl delivers for a request).
  What the theorems assume of them is named: digests have 32 bytes (\<open>digests_32\<close>, \<open>commit_32\<close>), an
  append that reports a fault does not advance the sequence (\<open>fault_keeps_seq\<close>), and, only for the
  property that requests are served, that no fault is reported (\<open>libs_calm\<close>).  Of libcurl it is assumed, where a theorem says that
  a call or a request is defined, that each \<open>retry-after\<close> line ends what \<open>strtol()\<close> reads (\<open>headers_end\<close>; \<open>retry_after_overread\<close>
  shows what happens otherwise).  The operating system is
  an argument too: lists of what successive \<open>read()\<close> and \<open>write()\<close> calls do, and Boolean results of
  \<open>fsync()\<close>, \<open>open()\<close> and the rest, over which the theorems quantify.  After such a list every call succeeds, so a loop
  that repeats an interrupted \<open>write()\<close> is interrupted finitely often.  The files that outlive a process
  (ledger, export, write-ahead intent, log) are byte lists in the state.

  \<^bold>\<open>What is shown.\<close>
    \<^item> Library: the decision of \<open>ax_obs_admit\<close> on every branch, failing closed, agreement with
      \<open>ax_obs_validate\<close>, strictly increasing sequence numbers; UTF-8 validation against the definition
      of the encoding; the canonical form as a refinement of a text, injective on content, hence
      tamper evidence under an injective commitment; exact number formatting; normalisation.
    \<^item> Ledger: a file that opens is exactly a sequence of checked frames; appends extend it by
      one frame; a torn tail heals; along runs of appends, crashes, restarts and refused restarts, records
      acknowledged before an append of their process failed stay (\<open>crash_safe\<close> interpreted on \<open>gw_step\<close>; after a failed append
      a process may go on, in the state \<open>Failing\<close>).  A restart that cuts the file must not have met a failed read
      (\<open>reads_ok\<close>): \<open>read_error_truncates\<close> shows that such a read makes \<open>gwl_open\<close> cut off intact records.
    \<^item> JSON: the readers terminate, stay within their buffers, read back what was escaped, and
      find exactly the text blocks of a response among blocks of other types and other members.  A canonical record is one JSON value for the gateway, and its
      members read back as the fields of the record.
    \<^item> Intent, configuration, log, client: round trips, torn intents are recognised, accepted
      configurations are well-formed, a key that the log can scrub (\<open>line_safe\<close>, fewer than 256 bytes) reaches no line of it, bounded retries.
    \<^item> Service: no request is undefined behaviour, under \<open>headers_end\<close>; a call that is paid for leaves a record or an open
      intent; \<open>status: ok\<close> is sent only for a record on disk; a refusal changes nothing; a failed
      append blocks the ledger for the rest of the run; a valid request on a working system is served.
    \<^item> Life of the service, over runs in which no read of the ledger fails in a start that finds a readable
      intent (\<open>reads_safe\<close>, the one failure excluded from \<open>svc_step\<close>, for the reason above): recovery closes an intent; a start commits the configuration;
      the budget bounds every run; along these runs of requests, crashes and starts the answered
      entries survive, and every prompt whose call was paid for is on record or named by the intent
      on disk (\<open>crash_safe\<close> interpreted on \<open>answer_step\<close> and \<open>paid_step\<close>); every entry of the file is the
      commitment to a configuration or a record that validates and has the number of its place
      (\<open>crash_safe\<close> once more, over \<open>framing\<close> interpreted on the frames of the ledger).
    \<^item> Protocol: the gateway ingests what the reference client sends; an \<open>ok\<close> response reads as a receipt
      for the record on disk: its hash, the head and number of the ledger, the model, the output.
    \<^item> Fingerprint: the tool stays within its static arrays and prints one line per case of its corpus, and the
      flag for a lost output is 0 for every input.

  \<^bold>\<open>Fuel and termination.\<close>  The JSON scanner recurses with fuel \<open>scan_fuel\<close>, twice the length of the
  body and two more; \<open>json_readers_terminate\<close> shows that it is enough for every
  body.  Other loops are structural or have a measure.  The accept loop runs over a list of events.

  \<^bold>\<open>Not modelled.\<close>  Messages on \<open>stderr\<close>; file
  permissions and path resolution; the memory of \<open>malloc\<close> beyond its failure; the time stamps of log
  lines, which are arguments; how long \<open>nanosleep()\<close> sleeps, as against what it is asked for; two processes on one ledger, which the code does not exclude.
  The reference client's loop that reads to the end of the stream and prints.  The tests are not part of the program.
\<close>

end
